(* ===== verification/Prelude.thy ===== *)
theory Prelude
  imports Main "HOL-Library.Word"
begin

text \<open>
  Shared ground of the development: the collections of rewrite rules the component theories
  fill (\<open>c_defs\<close>, \<open>size_simps\<close>, \<open>step_defs\<close>), the names of the machine types, the run-time
  faults a C or C++ operation can end in, and the generic facts on lists, words and folds that
  several components use.
\<close>

named_theorems c_defs "definitions of straight-line operations, unfolded by component proofs"
named_theorems size_simps "size_t arithmetic read as arithmetic on nat"
named_theorems step_defs "definitions of handlers and of whole steps"

type_synonym size_t = "64 word"
type_synonym fd = int
type_synonym loop_id = nat
type_synonym tid = nat

abbreviation NUL :: char where
  "NUL \<equiv> CHR 0x00"

text \<open>
  Undefined behaviour, exceptions and \<open>exit\<close> are values: an operation that can fail returns
  \<open>Inl\<close> of one of these.
\<close>

datatype fault =
    OutOfBounds      \<comment> \<open>an access outside the object the pointer points into\<close>
  | NullDeref        \<comment> \<open>a null pointer dereferenced\<close>
  | LengthError      \<comment> \<open>\<open>std::length_error\<close> from a container\<close>
  | BadFunctionCall  \<comment> \<open>an empty \<open>std::function\<close> called\<close>
  | StdException     \<comment> \<open>\<open>throw std::exception()\<close>\<close>
  | UseAfterFree     \<comment> \<open>an object or iterator used after its end\<close>
  | Exited           \<comment> \<open>\<open>exit\<close> called\<close>

type_synonym 'a result = "fault + 'a"

text \<open>The \<open>errno\<close> values the sources compare against, and any other one.\<close>

datatype errno = EAGAIN | EINTR | EPIPE | ECONNRESET | EMFILE | EEXIST | ENOENT | EOTHER nat

text \<open>\<open>EWOULDBLOCK\<close> is the same number as \<open>EAGAIN\<close> on Linux.\<close>

abbreviation EWOULDBLOCK :: errno where
  "EWOULDBLOCK \<equiv> EAGAIN"

definition isok :: "'a result \<Rightarrow> bool" where
  "isok r = (case r of Inl _ \<Rightarrow> False | Inr _ \<Rightarrow> True)"

lemma isok_simps [simp]: "isok (Inl e) = False" "isok (Inr x) = True"
  by (simp_all add: isok_def)

lemma isok_iff: "isok r \<longleftrightarrow> (\<exists>x. r = Inr x)"
  by (cases r) auto

text \<open>Sequencing: the rest runs on the value, a fault ends it.\<close>

definition then_do :: "'s result \<Rightarrow> ('s \<Rightarrow> 't result) \<Rightarrow> 't result" where
  "then_do r f = (case r of Inl e \<Rightarrow> Inl e | Inr s \<Rightarrow> f s)"

lemma then_do_simps [simp]: "then_do (Inl e) f = Inl e" "then_do (Inr s) f = f s"
  by (simp_all add: then_do_def)

lemma then_do_Inr_iff: "then_do r f = Inr y \<longleftrightarrow> (\<exists>x. r = Inr x \<and> f x = Inr y)"
  by (cases r) auto

lemma then_do_Inl_iff: "then_do r f = Inl e \<longleftrightarrow> r = Inl e \<or> (\<exists>x. r = Inr x \<and> f x = Inl e)"
  by (cases r) auto

lemma then_do_cong [fundef_cong]:
  "r = r' \<Longrightarrow> (\<And>x. r' = Inr x \<Longrightarrow> f x = f' x) \<Longrightarrow> then_do r f = then_do r' f'"
  by (cases r') (auto simp: then_do_def)


section \<open>Bytes written over a list\<close>

definition write_at :: "nat \<Rightarrow> 'a list \<Rightarrow> 'a list \<Rightarrow> 'a list" where
  "write_at i ys xs = take i xs @ ys @ drop (i + length ys) xs"

lemma length_write_at [simp]:
  "i + length ys \<le> length xs \<Longrightarrow> length (write_at i ys xs) = length xs"
  by (simp add: write_at_def)

lemma write_at_Nil [simp]: "write_at i [] xs = xs"
  by (simp add: write_at_def)

lemma take_write_at [simp]: "k \<le> i \<Longrightarrow> i \<le> length xs \<Longrightarrow> take k (write_at i ys xs) = take k xs"
  by (simp add: write_at_def)

lemma drop_write_at [simp]:
  "i + length ys \<le> k \<Longrightarrow> i + length ys \<le> length xs \<Longrightarrow> drop k (write_at i ys xs) = drop k xs"
  by (simp add: write_at_def)

lemma take_write_at_end:
  "i \<le> length xs \<Longrightarrow> take (i + length ys) (write_at i ys xs) = take i xs @ ys"
  by (simp add: write_at_def)

lemma take_write_at_le:
  "i \<le> length xs \<Longrightarrow> n \<le> length ys \<Longrightarrow> take (i + n) (write_at i ys xs) = take i xs @ take n ys"
  by (simp add: write_at_def)

lemma nth_write_at:
  "i + length ys \<le> length xs \<Longrightarrow> k < length xs \<Longrightarrow>
   write_at i ys xs ! k = (if k < i \<or> i + length ys \<le> k then xs ! k else ys ! (k - i))"
  by (auto simp: write_at_def nth_append min_def)

text \<open>The bytes from \<open>i\<close> up to, not including, \<open>j\<close>.\<close>

definition seg :: "nat \<Rightarrow> nat \<Rightarrow> 'a list \<Rightarrow> 'a list" where
  "seg i j xs = drop i (take j xs)"

lemma length_seg [simp]: "length (seg i j xs) = min j (length xs) - i"
  by (simp add: seg_def)

lemma seg_same [simp]: "seg i i xs = []"
  by (simp add: seg_def)

lemma seg_append:
  assumes "i \<le> j" and "j \<le> k"
  shows "seg i j xs @ seg j k xs = seg i k xs"
proof -
  have "take k xs = take j xs @ drop j (take k xs)"
    using append_take_drop_id [of j "take k xs"] assms by (simp add: min_absorb1)
  then have "drop i (take k xs) = drop i (take j xs) @ drop (i - length (take j xs)) (drop j (take k xs))"
    by (metis drop_append)
  moreover have "drop (i - length (take j xs)) (drop j (take k xs)) = drop j (take k xs)"
    using assms by (cases "j \<le> length xs") auto
  ultimately show ?thesis by (simp add: seg_def)
qed

lemma drop_seg: "drop n (seg i j xs) = seg (i + n) j xs"
  by (simp add: seg_def add.commute)

lemma take_seg: "i + n \<le> j \<Longrightarrow> take n (seg i j xs) = seg i (i + n) xs"
  by (simp add: seg_def take_drop add.commute min.absorb1)


section \<open>size_t arithmetic\<close>

text \<open>
  A \<open>size_t\<close> sum or difference is the sum or difference of the sizes as long as it stays inside
  the type; these three facts, with \<open>word_le_nat_alt\<close> and \<open>word_less_nat_alt\<close>, turn the
  arithmetic of the code into linear arithmetic.
\<close>

lemma unat_add_size [size_simps]:
  fixes x y :: size_t
  assumes "unat x + unat y < 2 ^ 64"
  shows "unat (x + y) = unat x + unat y"
  using assms by (simp add: unat_word_ariths)

lemma unat_sub_size [size_simps]:
  fixes x y :: size_t
  assumes "unat y \<le> unat x"
  shows "unat (x - y) = unat x - unat y"
  using assms by (simp add: unat_sub word_le_nat_alt)

lemma unat_of_nat_size [size_simps]:
  assumes "n < 2 ^ 64"
  shows "unat (of_nat n :: size_t) = n"
  using assms by (simp add: unat_of_nat)

declare word_le_nat_alt [size_simps] word_less_nat_alt [size_simps]


section \<open>Runs of a step function\<close>

text \<open>What every step keeps, a whole run keeps.\<close>

lemma fold_invariant:
  assumes "\<And>x s. x \<in> set xs \<Longrightarrow> P s \<Longrightarrow> P (f x s)" and "P s"
  shows "P (fold f xs s)"
  using assms by (induction xs arbitrary: s) auto

text \<open>A loop whose body can fail stops at the first failure.\<close>

fun fold_result :: "('a \<Rightarrow> 's \<Rightarrow> 's result) \<Rightarrow> 'a list \<Rightarrow> 's \<Rightarrow> 's result" where
  "fold_result f [] s = Inr s"
| "fold_result f (x # xs) s = (case f x s of Inl e \<Rightarrow> Inl e | Inr s' \<Rightarrow> fold_result f xs s')"

lemma fold_result_invariant:
  assumes "\<And>x s. P s \<Longrightarrow> \<exists>s'. f x s = Inr s' \<and> P s'" and "P s"
  shows "\<exists>s'. fold_result f xs s = Inr s' \<and> P s'"
  using assms(2)
proof (induction xs arbitrary: s)
  case (Cons x xs)
  from assms(1) [OF Cons.prems] obtain s1 where "f x s = Inr s1" "P s1" by blast
  with Cons.IH show ?case by simp
qed simp

end
