(* ===== verification/Buffer.thy ===== *)
theory Buffer
  imports Prelude
begin

text \<open>
  The byte buffer of \<^verbatim>\<open>src/src/Buffer.h\<close> and \<^verbatim>\<open>src/src/Buffer.cc\<close>: a vector with a reader and a
  writer index, eight bytes of it kept free in front. Indices are 64-bit words as in the source,
  so that every subtraction and sum of the code is the machine's. The theory proves that the
  buffer is a first-in first-out queue of bytes: \<open>contents\<close> abstracts it to a string, the
  locale \<open>byte_queue\<close> states the contract, and the interpretation discharges it.
\<close>

section \<open>State and accessors\<close>

record buffer =
  buffer_data :: "char list"
  readerIndex :: size_t
  writerIndex :: size_t

definition kCheapPrepend :: size_t where
  "kCheapPrepend = 8"

definition kInitialSize :: size_t where
  "kInitialSize = 1024"

text \<open>\<open>buffer_.size()\<close>, a \<open>size_t\<close>.\<close>

definition vsize :: "buffer \<Rightarrow> size_t" where
  "vsize b = of_nat (length (buffer_data b))"

definition new_Buffer :: "size_t \<Rightarrow> buffer" where
  "new_Buffer initialSize =
     \<lparr>buffer_data = replicate (unat (kCheapPrepend + initialSize)) NUL,
      readerIndex = kCheapPrepend, writerIndex = kCheapPrepend\<rparr>"

definition readableBytes :: "buffer \<Rightarrow> size_t" where
  "readableBytes b = writerIndex b - readerIndex b"

definition writableBytes :: "buffer \<Rightarrow> size_t" where
  "writableBytes b = vsize b - writerIndex b"

definition prependableBytes :: "buffer \<Rightarrow> size_t" where
  "prependableBytes b = readerIndex b"

text \<open>The memory from \<open>peek()\<close> to the end of the vector.\<close>

definition peek :: "buffer \<Rightarrow> char list" where
  "peek b = drop (unat (readerIndex b)) (buffer_data b)"


section \<open>Operations\<close>

definition retrieveAll :: "buffer \<Rightarrow> buffer" where
  "retrieveAll b = b\<lparr>readerIndex := kCheapPrepend, writerIndex := kCheapPrepend\<rparr>"

definition retrieve :: "buffer \<Rightarrow> size_t \<Rightarrow> buffer" where
  "retrieve b len =
     (if len < readableBytes b then b\<lparr>readerIndex := readerIndex b + len\<rparr> else retrieveAll b)"

text \<open>\<open>std::string(peek(), len)\<close> reads \<open>len\<close> bytes, whatever the writer index says.\<close>

definition retrieveAsString :: "buffer \<Rightarrow> size_t \<Rightarrow> (string \<times> buffer) result" where
  "retrieveAsString b len =
     (if unat len \<le> length (peek b) then Inr (take (unat len) (peek b), retrieve b len)
      else Inl OutOfBounds)"

definition retrieveAllAsString :: "buffer \<Rightarrow> (string \<times> buffer) result" where
  "retrieveAllAsString b = retrieveAsString b (readableBytes b)"

text \<open>\<open>std::vector<char>::resize\<close>: zero bytes at the end, \<open>length_error\<close> past \<open>PTRDIFF_MAX\<close>.\<close>

definition vector_resize :: "char list \<Rightarrow> size_t \<Rightarrow> char list result" where
  "vector_resize xs n =
     (if unat n < 2 ^ 63 then Inr (take (unat n) xs @ replicate (unat n - length xs) NUL)
      else Inl LengthError)"

definition makeSpace :: "buffer \<Rightarrow> size_t \<Rightarrow> buffer result" where
  "makeSpace b len =
     (if writableBytes b + prependableBytes b < len + kCheapPrepend then
        (case vector_resize (buffer_data b) (writerIndex b + len) of
           Inl e \<Rightarrow> Inl e
         | Inr v \<Rightarrow> Inr (b\<lparr>buffer_data := v\<rparr>))
      else
        (let readable = readableBytes b in
         Inr (b\<lparr>buffer_data := write_at (unat kCheapPrepend)
                  (seg (unat (readerIndex b)) (unat (writerIndex b)) (buffer_data b)) (buffer_data b),
                readerIndex := kCheapPrepend,
                writerIndex := kCheapPrepend + readable\<rparr>)))"

definition ensureWritableBytes :: "buffer \<Rightarrow> size_t \<Rightarrow> buffer result" where
  "ensureWritableBytes b len = (if writableBytes b < len then makeSpace b len else Inr b)"

text \<open>
  \<open>append(data, len)\<close>: \<open>data\<close> is the memory readable at the pointer. Reading past it, or
  writing past the vector, is a fault.
\<close>

definition Buffer_append :: "buffer \<Rightarrow> char list \<Rightarrow> size_t \<Rightarrow> buffer result" where
  "Buffer_append b data len =
     (case ensureWritableBytes b len of
        Inl e \<Rightarrow> Inl e
      | Inr b' \<Rightarrow>
          if unat len \<le> length data \<and> unat (writerIndex b') + unat len \<le> length (buffer_data b')
          then Inr (b'\<lparr>buffer_data := write_at (unat (writerIndex b')) (take (unat len) data) (buffer_data b'),
                       writerIndex := writerIndex b' + len\<rparr>)
          else Inl OutOfBounds)"


section \<open>Reading from and writing to a descriptor\<close>

text \<open>
  What \<open>readv\<close> did: failed with an error number, or delivered these bytes, the first buffer
  filled before the second. What \<open>write\<close> did: failed, or took that many bytes.
\<close>

datatype read_result = ReadErr errno | ReadData string
datatype write_result = WriteErr errno | Wrote nat

definition extrabuf_size :: size_t where
  "extrabuf_size = 65536"

text \<open>How many bytes the vector \<open>vec\<close> with \<open>iovcnt\<close> entries has room for.\<close>

definition readv_room :: "buffer \<Rightarrow> nat" where
  "readv_room b =
     (let writable = writableBytes b
      in if writable < extrabuf_size then unat writable + unat extrabuf_size else unat writable)"

text \<open>
  \<open>readFd\<close>: the returned count (\<open>-1\<close> on error), the value stored in \<open>*saveErrno\<close> if any, and
  the buffer.
\<close>

definition readFd :: "buffer \<Rightarrow> read_result \<Rightarrow> (int \<times> errno option \<times> buffer) result" where
  "readFd b r =
     (let writable = writableBytes b in
      case r of
        ReadErr e \<Rightarrow> Inr (-1, Some e, b)
      | ReadData data \<Rightarrow>
          let n = length data;
              b1 = b\<lparr>buffer_data := write_at (unat (writerIndex b)) (take (unat writable) data) (buffer_data b)\<rparr>;
              extrabuf = drop (unat writable) data
          in if (of_nat n :: size_t) \<le> writable
             then Inr (int n, None, b1\<lparr>writerIndex := writerIndex b1 + of_nat n\<rparr>)
             else (case Buffer_append (b1\<lparr>writerIndex := vsize b1\<rparr>) extrabuf (of_nat n - writable) of
                     Inl e \<Rightarrow> Inl e
                   | Inr b2 \<Rightarrow> Inr (int n, None, b2)))"

text \<open>
  \<open>writeFd\<close> hands \<open>readableBytes()\<close> bytes at \<open>peek()\<close> to \<open>write\<close>; the result is the count,
  the saved error, and the bytes the kernel took. The buffer does not change.
\<close>

definition writeFd :: "buffer \<Rightarrow> write_result \<Rightarrow> (int \<times> errno option \<times> string) result" where
  "writeFd b r =
     (if unat (readableBytes b) \<le> length (peek b) then
        (case r of
           WriteErr e \<Rightarrow> Inr (-1, Some e, [])
         | Wrote n \<Rightarrow> Inr (int n, None, take n (take (unat (readableBytes b)) (peek b))))
      else Inl OutOfBounds)"

lemmas buffer_accessors = kCheapPrepend_def vsize_def readableBytes_def writableBytes_def
  prependableBytes_def peek_def


section \<open>Invariant and abstraction\<close>

definition buffer_inv :: "buffer \<Rightarrow> bool" where
  "buffer_inv b \<longleftrightarrow>
     unat kCheapPrepend \<le> unat (readerIndex b) \<and>
     unat (readerIndex b) \<le> unat (writerIndex b) \<and>
     unat (writerIndex b) \<le> length (buffer_data b) \<and>
     length (buffer_data b) < 2 ^ 63"

text \<open>The readable bytes, oldest first: what the buffer holds.\<close>

definition contents :: "buffer \<Rightarrow> string" where
  "contents b = seg (unat (readerIndex b)) (unat (writerIndex b)) (buffer_data b)"

text \<open>There is room in the address space for \<open>n\<close> more bytes.\<close>

definition room_for :: "buffer \<Rightarrow> nat \<Rightarrow> bool" where
  "room_for b n \<longleftrightarrow> length (buffer_data b) + n < 2 ^ 63"

lemma unat_kCheapPrepend [simp]: "unat kCheapPrepend = 8"
  by (simp add: kCheapPrepend_def)

lemma unat_readableBytes [simp]:
  "buffer_inv b \<Longrightarrow> unat (readableBytes b) = unat (writerIndex b) - unat (readerIndex b)"
  by (simp add: buffer_inv_def readableBytes_def size_simps)

lemma unat_writableBytes [simp]:
  "buffer_inv b \<Longrightarrow> unat (writableBytes b) = length (buffer_data b) - unat (writerIndex b)"
  by (simp add: buffer_inv_def writableBytes_def vsize_def size_simps)

lemma length_contents [simp]: "buffer_inv b \<Longrightarrow> length (contents b) = unat (readableBytes b)"
  by (simp add: contents_def) (simp add: buffer_inv_def min_def)

lemma take_peek: "buffer_inv b \<Longrightarrow> n \<le> unat (readableBytes b) \<Longrightarrow> take n (peek b) = take n (contents b)"
  by (simp add: peek_def contents_def seg_def take_drop add.commute)
    (auto simp: buffer_inv_def min_def)

lemma length_peek [simp]: "length (peek b) = length (buffer_data b) - unat (readerIndex b)"
  by (simp add: peek_def)


section \<open>What each operation does to the bytes held\<close>

lemma new_Buffer_inv: "unat initialSize + 8 < 2 ^ 63 \<Longrightarrow> buffer_inv (new_Buffer initialSize)"
  by (simp add: buffer_inv_def new_Buffer_def size_simps)

lemma new_Buffer_contents [simp]: "contents (new_Buffer initialSize) = []"
  by (simp add: contents_def new_Buffer_def)

lemma retrieveAll_inv [intro]: "buffer_inv b \<Longrightarrow> buffer_inv (retrieveAll b)"
  by (simp add: buffer_inv_def retrieveAll_def)

lemma retrieveAll_contents [simp]: "contents (retrieveAll b) = []"
  by (simp add: contents_def retrieveAll_def)

lemma buffer_data_retrieve [simp]: "buffer_data (retrieve b len) = buffer_data b"
  by (simp add: retrieve_def retrieveAll_def)

lemma unat_reader_add:
  assumes "buffer_inv b" and "len < readableBytes b"
  shows "unat (readerIndex b + len) = unat (readerIndex b) + unat len"
  using assms by (intro unat_add_size) (simp add: word_less_nat_alt, auto simp: buffer_inv_def)

lemma retrieve_inv [intro]:
  assumes "buffer_inv b"
  shows "buffer_inv (retrieve b len)"
proof (cases "len < readableBytes b")
  case True
  with assms have "unat (readerIndex b) + unat len \<le> unat (writerIndex b)"
    by (simp add: word_less_nat_alt)
  with assms True show ?thesis
    by (simp add: retrieve_def unat_reader_add buffer_inv_def)
next
  case False
  with assms show ?thesis by (auto simp: retrieve_def)
qed

lemma retrieve_contents:
  assumes "buffer_inv b"
  shows "contents (retrieve b len) = drop (unat len) (contents b)"
proof (cases "len < readableBytes b")
  case True
  with assms show ?thesis
    by (simp add: retrieve_def contents_def unat_reader_add drop_seg)
next
  case False
  with assms have "length (contents b) \<le> unat len"
    by (simp only: length_contents word_less_nat_alt not_less)
  with False show ?thesis by (simp add: retrieve_def)
qed

lemma vector_resize_ok:
  "length xs \<le> unat n \<Longrightarrow> unat n < 2 ^ 63 \<Longrightarrow>
   vector_resize xs n = Inr (xs @ replicate (unat n - length xs) NUL)"
  by (simp add: vector_resize_def)

lemma seg_append_left: "j \<le> length xs \<Longrightarrow> seg i j (xs @ ys) = seg i j xs"
  by (simp add: seg_def)

lemma seg_write_at_self: "i \<le> length xs \<Longrightarrow> seg i (i + length ys) (write_at i ys xs) = ys"
  by (simp add: seg_def write_at_def)

text \<open>
  \<open>makeSpace\<close> either grows the vector or moves the bytes to the front; either way nothing held
  is lost and \<open>len\<close> bytes fit behind the writer index.
\<close>

lemma makeSpace_grow:
  assumes "buffer_inv b" and "room_for b (unat len)" and "writableBytes b < len"
    and "writableBytes b + prependableBytes b < len + kCheapPrepend"
  shows "\<exists>b'. makeSpace b len = Inr b' \<and> buffer_inv b' \<and> contents b' = contents b \<and>
     unat len \<le> unat (writableBytes b') \<and> length (buffer_data b') \<le> length (buffer_data b) + unat len"
proof -
  let ?n = "unat (writerIndex b) + unat len"
  have n: "unat (writerIndex b + len) = ?n" and small: "?n < 2 ^ 63"
    using assms(1,2) by (simp_all add: buffer_inv_def room_for_def size_simps)
  have long: "length (buffer_data b) \<le> ?n"
    using assms(1,3) by (simp add: word_less_nat_alt)
  define b' where "b' = b\<lparr>buffer_data := buffer_data b @ replicate (?n - length (buffer_data b)) NUL\<rparr>"
  have res: "makeSpace b len = Inr b'"
    using assms(4) long small by (simp add: makeSpace_def vector_resize_ok n b'_def)
  have len': "length (buffer_data b') = ?n" using long by (simp add: b'_def)
  have inv: "buffer_inv b'"
    using assms(1) small long by (simp add: buffer_inv_def b'_def)
  have cont: "contents b' = contents b"
    using assms(1) by (simp add: contents_def b'_def seg_append_left buffer_inv_def)
  have "unat len \<le> unat (writableBytes b')"
    using inv len' by (simp add: b'_def)
  moreover have "?n \<le> length (buffer_data b) + unat len"
    using assms(1) by (simp add: buffer_inv_def)
  ultimately show ?thesis using res inv cont len' by simp
qed

lemma makeSpace_move:
  assumes inv: "buffer_inv b" and room: "room_for b (unat len)"
    and guard: "\<not> writableBytes b + prependableBytes b < len + kCheapPrepend"
  shows "\<exists>b'. makeSpace b len = Inr b' \<and> buffer_inv b' \<and> contents b' = contents b \<and>
     unat len \<le> unat (writableBytes b') \<and> length (buffer_data b') \<le> length (buffer_data b) + unat len"
proof -
  let ?r = "unat (readerIndex b)" and ?w = "unat (writerIndex b)" and ?N = "length (buffer_data b)"
  note bounds = inv [unfolded buffer_inv_def, simplified]
  have "unat (writableBytes b + prependableBytes b) = ?N - ?w + ?r"
    using inv bounds by (subst unat_add_size) (auto simp: prependableBytes_def)
  moreover have "unat (len + kCheapPrepend) = unat len + 8"
    using room by (simp add: room_for_def size_simps)
  ultimately have enough: "unat len + 8 \<le> ?N - ?w + ?r"
    using guard by (simp add: word_less_nat_alt not_less)
  define data where "data = contents b"
  have ldata: "length data = ?w - ?r" using inv by (simp add: data_def)
  define b' where "b' = b\<lparr>buffer_data := write_at 8 data (buffer_data b),
      readerIndex := kCheapPrepend, writerIndex := kCheapPrepend + readableBytes b\<rparr>"
  have w': "unat (writerIndex b') = 8 + length data"
    using inv bounds ldata by (simp add: b'_def, subst unat_add_size) auto
  have res: "makeSpace b len = Inr b'"
    using guard by (simp add: makeSpace_def b'_def data_def contents_def Let_def)
  have len': "length (buffer_data b') = ?N"
    using bounds ldata by (simp add: b'_def, subst length_write_at) auto
  have r': "readerIndex b' = kCheapPrepend" by (simp add: b'_def)
  have inv': "buffer_inv b'"
    using bounds ldata by (auto simp: buffer_inv_def w' len' r')
  have "contents b' = seg 8 (8 + length data) (write_at 8 data (buffer_data b))"
    unfolding contents_def w' r' by (simp add: b'_def)
  also have "\<dots> = data" using bounds by (simp add: seg_write_at_self)
  finally have "contents b' = contents b" by (simp add: data_def)
  moreover have "unat len \<le> unat (writableBytes b')"
    using inv' enough bounds ldata by (simp add: len' w')
  ultimately show ?thesis using res inv' len' by simp
qed

lemma ensureWritableBytes_ok:
  assumes "buffer_inv b" and "room_for b (unat len)"
  shows "\<exists>b'. ensureWritableBytes b len = Inr b' \<and> buffer_inv b' \<and> contents b' = contents b \<and>
     unat len \<le> unat (writableBytes b') \<and> length (buffer_data b') \<le> length (buffer_data b) + unat len"
proof (cases "writableBytes b < len")
  case True
  then show ?thesis
    using makeSpace_grow [OF assms] makeSpace_move [OF assms]
    by (simp add: ensureWritableBytes_def) blast
next
  case False
  then show ?thesis
    using assms by (simp add: ensureWritableBytes_def word_less_nat_alt not_less)
qed

lemma Buffer_append_ok:
  assumes "buffer_inv b" and "room_for b (unat len)" and "unat len \<le> length data"
  shows "\<exists>b'. Buffer_append b data len = Inr b' \<and> buffer_inv b' \<and>
     contents b' = contents b @ take (unat len) data \<and>
     length (buffer_data b') \<le> length (buffer_data b) + unat len"
proof -
  from ensureWritableBytes_ok [OF assms(1,2)] obtain c where c:
    "ensureWritableBytes b len = Inr c" "buffer_inv c" "contents c = contents b"
    "unat len \<le> unat (writableBytes c)" "length (buffer_data c) \<le> length (buffer_data b) + unat len"
    by blast
  note bounds = c(2) [unfolded buffer_inv_def, simplified]
  let ?w = "unat (writerIndex c)" and ?d = "take (unat len) data"
  have ld: "length ?d = unat len" using assms(3) by simp
  have fits: "?w + unat len \<le> length (buffer_data c)" using c(2,4) bounds by auto
  have w': "unat (writerIndex c + len) = ?w + unat len"
    using fits bounds by (intro unat_add_size) auto
  define b' where "b' = c\<lparr>buffer_data := write_at ?w ?d (buffer_data c), writerIndex := writerIndex c + len\<rparr>"
  have res: "Buffer_append b data len = Inr b'"
    using assms(3) fits by (simp add: Buffer_append_def c(1) b'_def)
  have inv: "buffer_inv b'"
    using bounds fits ld by (simp add: buffer_inv_def b'_def w')
  have "take (?w + unat len) (write_at ?w ?d (buffer_data c)) = take ?w (buffer_data c) @ ?d"
    using take_write_at_end [of ?w "buffer_data c" ?d] bounds ld by simp
  then have "contents b' = contents c @ ?d"
    using bounds by (simp add: contents_def b'_def w' seg_def)
  moreover have "length (buffer_data b') \<le> length (buffer_data b) + unat len"
    using c(5) fits ld by (simp add: b'_def)
  ultimately show ?thesis using res inv c(3) by simp
qed

lemma retrieveAsString_ok:
  assumes "buffer_inv b" and "unat len \<le> unat (readableBytes b)"
  shows "retrieveAsString b len = Inr (take (unat len) (contents b), retrieve b len)"
  using assms take_peek [OF assms]
  by (auto simp: retrieveAsString_def buffer_inv_def)

text \<open>
  \<open>readFd\<close> on delivered data, in the two cases of the code: the bytes fit behind the writer
  index, or the rest went through the stack buffer and is appended.
\<close>

lemma readFd_fits:
  assumes inv: "buffer_inv b" and le: "length data \<le> unat (writableBytes b)"
  shows "\<exists>b'. readFd b (ReadData data) = Inr (int (length data), None, b') \<and> buffer_inv b' \<and>
     contents b' = contents b @ data"
proof -
  note bounds = inv [unfolded buffer_inv_def, simplified]
  let ?w = "unat (writerIndex b)"
  have fits: "?w + length data \<le> length (buffer_data b)" using inv le bounds by auto
  have n: "unat (of_nat (length data) :: size_t) = length data"
    using fits bounds by (intro unat_of_nat_size) auto
  have w': "unat (writerIndex b + of_nat (length data)) = ?w + length data"
    using fits bounds n by (subst unat_add_size) auto
  define b' where "b' = b\<lparr>buffer_data := write_at ?w data (buffer_data b),
      writerIndex := writerIndex b + of_nat (length data)\<rparr>"
  have "readFd b (ReadData data) = Inr (int (length data), None, b')"
    using le n by (simp add: readFd_def Let_def word_le_nat_alt b'_def del: unat_writableBytes)
  moreover have "buffer_inv b'" using bounds fits by (simp add: buffer_inv_def b'_def w')
  moreover have "contents b' = contents b @ data"
    using bounds by (simp add: contents_def b'_def w' seg_def take_write_at_end)
  ultimately show ?thesis by blast
qed

lemma readFd_overflows:
  assumes inv: "buffer_inv b" and gt: "unat (writableBytes b) < length data"
    and room: "room_for b (length data)"
  shows "\<exists>b'. readFd b (ReadData data) = Inr (int (length data), None, b') \<and> buffer_inv b' \<and>
     contents b' = contents b @ data"
proof -
  note bounds = inv [unfolded buffer_inv_def, simplified]
  let ?w = "unat (writerIndex b)" and ?N = "length (buffer_data b)" and ?f = "unat (writableBytes b)"
  have f: "?w + ?f = ?N" using inv bounds by simp
  have n: "unat (of_nat (length data) :: size_t) = length data"
    using room by (intro unat_of_nat_size) (simp add: room_for_def)
  have rest: "unat (of_nat (length data) - writableBytes b) = length data - ?f"
    using gt n by (subst unat_sub_size) simp_all
  define b1 where "b1 = b\<lparr>buffer_data := write_at ?w (take ?f data) (buffer_data b),
      writerIndex := vsize b\<rparr>"
  have len1: "length (buffer_data b1) = ?N" using f gt by (simp add: b1_def del: unat_writableBytes)
  have w1: "unat (writerIndex b1) = ?N"
    using bounds by (simp add: b1_def vsize_def size_simps)
  have inv1: "buffer_inv b1" using bounds by (simp add: buffer_inv_def w1 len1) (simp add: b1_def)
  have ltk: "length (take ?f data) = ?f" using gt by simp
  have "take ?N (write_at ?w (take ?f data) (buffer_data b)) = take ?w (buffer_data b) @ take ?f data"
    using bounds by (intro take_write_at_end [of ?w "buffer_data b" "take ?f data", unfolded ltk f]) simp
  moreover have "readerIndex b1 = readerIndex b" and
    "buffer_data b1 = write_at ?w (take ?f data) (buffer_data b)" by (simp_all add: b1_def)
  ultimately have cont1: "contents b1 = contents b @ take ?f data"
    using bounds unfolding contents_def w1 by (simp add: seg_def del: unat_writableBytes)
  have "room_for b1 (unat (of_nat (length data) - writableBytes b))"
    using room gt by (simp add: room_for_def len1 rest del: unat_writableBytes)
  from Buffer_append_ok [OF inv1 this, of "drop ?f data"] obtain b' where b':
    "Buffer_append b1 (drop ?f data) (of_nat (length data) - writableBytes b) = Inr b'" "buffer_inv b'"
    "contents b' = contents b1 @ drop ?f data"
    using rest by (auto simp del: unat_writableBytes)
  have "vsize (b\<lparr>buffer_data := write_at ?w (take ?f data) (buffer_data b)\<rparr>) = vsize b"
    using f gt by (simp add: vsize_def del: unat_writableBytes)
  then have "readFd b (ReadData data) = Inr (int (length data), None, b')"
    using gt n b'(1)
    by (simp add: readFd_def Let_def word_le_nat_alt b1_def del: unat_writableBytes)
  with b'(2,3) cont1 show ?thesis by simp
qed

lemma readFd_data:
  assumes "buffer_inv b" and "room_for b (length data)"
  shows "\<exists>b'. readFd b (ReadData data) = Inr (int (length data), None, b') \<and> buffer_inv b' \<and>
     contents b' = contents b @ data"
  using readFd_fits [OF assms(1), of data] readFd_overflows [OF assms(1) _ assms(2)]
  by (meson not_less)

lemma writeFd_ok:
  assumes "buffer_inv b" and "n \<le> unat (readableBytes b)"
  shows "writeFd b (Wrote n) = Inr (int n, None, take n (contents b))"
  using assms take_peek [OF assms(1), of n]
  by (auto simp: writeFd_def buffer_inv_def min_def)


section \<open>The contract: a first-in first-out queue of bytes\<close>

text \<open>
  What a connection relies on. \<open>push\<close> adds bytes at the end and fails only when the memory limit
  would be passed; \<open>pop\<close> takes bytes from the front; \<open>cap\<close> bounds the memory in use.
\<close>

datatype queue_op = Push string | Pop nat

fun pushed :: "queue_op list \<Rightarrow> string" where
  "pushed [] = []"
| "pushed (Push s # ops) = s @ pushed ops"
| "pushed (Pop n # ops) = pushed ops"

text \<open>A client's run: the bytes popped, in order, and the final queue.\<close>

fun run_queue :: "('q \<Rightarrow> string \<Rightarrow> 'q result) \<Rightarrow> ('q \<Rightarrow> nat \<Rightarrow> (string \<times> 'q) result) \<Rightarrow> ('q \<Rightarrow> nat) \<Rightarrow>
    queue_op list \<Rightarrow> 'q \<Rightarrow> (string \<times> 'q) result" where
  "run_queue push pop len [] q = Inr ([], q)"
| "run_queue push pop len (Push s # ops) q =
     (case push q s of Inl e \<Rightarrow> Inl e | Inr q' \<Rightarrow> run_queue push pop len ops q')"
| "run_queue push pop len (Pop n # ops) q =
     (case pop q (min n (len q)) of
        Inl e \<Rightarrow> Inl e
      | Inr (out, q') \<Rightarrow>
          (case run_queue push pop len ops q' of
             Inl e \<Rightarrow> Inl e
           | Inr (outs, q'') \<Rightarrow> Inr (out @ outs, q'')))"

locale byte_queue =
  fixes push :: "'q \<Rightarrow> string \<Rightarrow> 'q result"
    and pop :: "'q \<Rightarrow> nat \<Rightarrow> (string \<times> 'q) result"
    and len :: "'q \<Rightarrow> nat"
    and bytes :: "'q \<Rightarrow> string"
    and inv :: "'q \<Rightarrow> bool"
    and cap :: "'q \<Rightarrow> nat"
    and limit :: nat
  assumes len_bytes: "inv q \<Longrightarrow> len q = length (bytes q)"
    and push_ok: "inv q \<Longrightarrow> cap q + length s < limit \<Longrightarrow>
      \<exists>q'. push q s = Inr q' \<and> inv q' \<and> bytes q' = bytes q @ s \<and> cap q' \<le> cap q + length s"
    and pop_ok: "inv q \<Longrightarrow> n \<le> length (bytes q) \<Longrightarrow>
      \<exists>q'. pop q n = Inr (take n (bytes q), q') \<and> inv q' \<and> bytes q' = drop n (bytes q) \<and> cap q' \<le> cap q"
begin

text \<open>
  No run within the memory limit fails, and the bytes that came out, followed by the bytes still
  held, are the bytes held at the start followed by the bytes pushed: nothing is lost, duplicated
  or reordered.
\<close>

lemma stream:
  assumes "inv q" and "cap q + length (pushed ops) < limit"
  shows "\<exists>out q'. run_queue push pop len ops q = Inr (out, q') \<and> inv q' \<and>
     out @ bytes q' = bytes q @ pushed ops"
  using assms
proof (induction ops arbitrary: q)
  case Nil
  then show ?case by simp
next
  case (Cons a ops)
  show ?case
  proof (cases a)
    case (Push s)
    with Cons.prems push_ok [of q s] obtain q1 where q1: "push q s = Inr q1" "inv q1"
      "bytes q1 = bytes q @ s" "cap q1 \<le> cap q + length s" by auto
    with Cons.prems Push have "cap q1 + length (pushed ops) < limit" by simp
    from Cons.IH [OF q1(2) this] q1 Push show ?thesis by auto
  next
    case (Pop n)
    let ?n = "min n (len q)"
    from Cons.prems have "?n \<le> length (bytes q)" by (simp add: len_bytes)
    from pop_ok [OF Cons.prems(1) this] obtain q1 where q1: "pop q ?n = Inr (take ?n (bytes q), q1)"
      "inv q1" "bytes q1 = drop ?n (bytes q)" "cap q1 \<le> cap q" by blast
    with Cons.prems Pop have "cap q1 + length (pushed ops) < limit" by simp
    from Cons.IH [OF q1(2) this] obtain out q' where
      "run_queue push pop len ops q1 = Inr (out, q')" "inv q'" "out @ bytes q' = bytes q1 @ pushed ops"
      by blast
    with q1 Pop show ?thesis by simp
  qed
qed

end

text \<open>The buffer as such a queue: \<open>append\<close> pushes, \<open>retrieveAsString\<close> pops.\<close>

definition buffer_push :: "buffer \<Rightarrow> string \<Rightarrow> buffer result" where
  "buffer_push b s = Buffer_append b s (of_nat (length s))"

definition buffer_pop :: "buffer \<Rightarrow> nat \<Rightarrow> (string \<times> buffer) result" where
  "buffer_pop b n = retrieveAsString b (of_nat n)"

lemma buffer_push_ok:
  assumes "buffer_inv b" and "length (buffer_data b) + length s < 2 ^ 63"
  shows "\<exists>b'. buffer_push b s = Inr b' \<and> buffer_inv b' \<and> contents b' = contents b @ s \<and>
    length (buffer_data b') \<le> length (buffer_data b) + length s"
proof -
  have "unat (of_nat (length s) :: size_t) = length s"
    using assms(2) by (intro unat_of_nat_size) simp
  with Buffer_append_ok [OF assms(1), of "of_nat (length s)" s] assms(2) show ?thesis
    by (simp add: buffer_push_def room_for_def)
qed

lemma buffer_pop_ok:
  assumes "buffer_inv b" and "n \<le> length (contents b)"
  shows "\<exists>b'. buffer_pop b n = Inr (take n (contents b), b') \<and> buffer_inv b' \<and>
    contents b' = drop n (contents b) \<and> length (buffer_data b') \<le> length (buffer_data b)"
proof -
  have "unat (of_nat n :: size_t) = n"
    using assms by (intro unat_of_nat_size) (auto simp: buffer_inv_def)
  with retrieveAsString_ok [OF assms(1), of "of_nat n"] assms show ?thesis
    by (simp add: buffer_pop_def retrieve_contents retrieve_inv)
qed

interpretation bufq: byte_queue buffer_push buffer_pop "\<lambda>b. unat (readableBytes b)" contents buffer_inv
  "\<lambda>b. length (buffer_data b)" "2 ^ 63"
  by unfold_locales (simp, rule buffer_push_ok, simp_all, rule buffer_pop_ok, simp_all)


section \<open>Properties\<close>

lemma length_new_Buffer:
  "unat initialSize + 8 < 2 ^ 63 \<Longrightarrow> length (buffer_data (new_Buffer initialSize)) = unat initialSize + 8"
  by (simp add: new_Buffer_def size_simps)



text \<open>
  C2. \<open>readFd\<close> on every outcome of \<open>readv\<close>: an error leaves the buffer as it was, saves the error
  number and returns -1; delivered bytes, whether they fit behind the writer index or spill into
  the 64 KiB stack buffer, are appended to what is readable and their number is returned.
\<close>

theorem readFd_spec:
  assumes "buffer_inv b" and "room_for b (length data)"
  shows "readFd b (ReadErr e) = Inr (-1, Some e, b) \<and>
    (\<exists>b'. readFd b (ReadData data) = Inr (int (length data), None, b') \<and> buffer_inv b' \<and>
       contents b' = contents b @ data)"
  using readFd_data [OF assms] by (simp add: readFd_def)

theorem readFd_spec_witness:
  "buffer_inv (new_Buffer 2) \<and> room_for (new_Buffer 2) (length ''hello'') \<and>
   (\<exists>b'. readFd (new_Buffer 2) (ReadData ''hello'') = Inr (5, None, b') \<and> buffer_inv b' \<and>
      contents b' = ''hello'')"
proof -
  have inv: "buffer_inv (new_Buffer 2)" by (rule new_Buffer_inv) simp
  have room: "room_for (new_Buffer 2) (length ''hello'')"
    by (simp add: room_for_def length_new_Buffer)
  from inv room readFd_spec [OF inv room] show ?thesis by simp
qed

end
