(* ===== verification/Channel.thy ===== *)
theory Channel
  imports Prelude
begin

text \<open>
  The channel of \<^verbatim>\<open>src/src/Channel.h\<close> and \<^verbatim>\<open>src/src/Channel.cc\<close>: a descriptor, the events it is
  interested in, the events the poller reported, its state in the poller and its four callbacks.
  The callbacks are values of a type \<open>'cb\<close>, run by the components above. The methods that call
  the poller back (\<open>enableReading\<close> and the others, \<open>remove\<close>) are in theory \<open>EventLoop\<close>, where the
  loop and its poller are in scope. The source's trailing underscores are dropped.
\<close>

unbundle bit_operations_syntax

type_synonym events = "32 word"

text \<open>The event bits of \<^verbatim>\<open>sys/epoll.h\<close>.\<close>

definition EPOLLIN :: events where "EPOLLIN = 0x001"
definition EPOLLPRI :: events where "EPOLLPRI = 0x002"
definition EPOLLOUT :: events where "EPOLLOUT = 0x004"
definition EPOLLERR :: events where "EPOLLERR = 0x008"
definition EPOLLHUP :: events where "EPOLLHUP = 0x010"
definition EPOLLRDHUP :: events where "EPOLLRDHUP = 0x2000"
definition EPOLLONESHOT :: events where "EPOLLONESHOT = 0x40000000"
definition EPOLLET :: events where "EPOLLET = 0x80000000"

lemmas epoll_bits = EPOLLIN_def EPOLLPRI_def EPOLLOUT_def EPOLLERR_def EPOLLHUP_def
  EPOLLRDHUP_def EPOLLONESHOT_def EPOLLET_def

definition kNoneEvent :: events where "kNoneEvent = 0"
definition kReadEvent :: events where "kReadEvent = EPOLLIN OR EPOLLPRI"
definition kWriteEvent :: events where "kWriteEvent = EPOLLOUT"

lemmas event_masks = kNoneEvent_def kReadEvent_def kWriteEvent_def epoll_bits

text \<open>\<open>index\<close>: what the poller knows of the channel (\<^verbatim>\<open>EpollPoller.cc\<close>).\<close>

definition kNew :: int where "kNew = -1"
definition kAdded :: int where "kAdded = 1"
definition kDeleted :: int where "kDeleted = 2"

lemmas index_defs = kNew_def kAdded_def kDeleted_def

record 'cb channel =
  ch_loop :: loop_id
  ch_fd :: fd
  ch_events :: events
  ch_revents :: events
  ch_index :: int
  ch_tie :: "nat option"          \<comment> \<open>the object \<open>tie_\<close> points to weakly\<close>
  ch_tied :: bool
  readCallback :: "'cb option"
  writeCallback :: "'cb option"
  closeCallback :: "'cb option"
  errorCallback :: "'cb option"

definition new_Channel :: "loop_id \<Rightarrow> fd \<Rightarrow> 'cb channel" where
  "new_Channel loop fd =
     \<lparr>ch_loop = loop, ch_fd = fd, ch_events = 0, ch_revents = 0, ch_index = -1, ch_tie = None,
      ch_tied = False, readCallback = None, writeCallback = None, closeCallback = None,
      errorCallback = None\<rparr>"

definition tie :: "nat \<Rightarrow> 'cb channel \<Rightarrow> 'cb channel" where
  "tie obj ch = ch\<lparr>ch_tie := Some obj, ch_tied := True\<rparr>"

definition isNoneEvent :: "'cb channel \<Rightarrow> bool" where
  "isNoneEvent ch = (ch_events ch = kNoneEvent)"

definition isReading :: "'cb channel \<Rightarrow> bool" where
  "isReading ch = (ch_events ch AND kReadEvent \<noteq> 0)"

definition isWriting :: "'cb channel \<Rightarrow> bool" where
  "isWriting ch = (ch_events ch AND kWriteEvent \<noteq> 0)"


section \<open>Dispatching an event\<close>

text \<open>A callback call: the read callback gets the time stamp.\<close>

datatype 'cb call = Call 'cb | CallRead 'cb int

definition call_if :: "bool \<Rightarrow> ('cb \<Rightarrow> 'cb call) \<Rightarrow> 'cb option \<Rightarrow> 'cb call list" where
  "call_if c mk cb = (if c then (case cb of Some f \<Rightarrow> [mk f] | None \<Rightarrow> []) else [])"

text \<open>
  The calls \<open>handleEventWithGuand\<close> makes, in its order. It reads \<open>revents_\<close> anew before each
  call; only \<open>fillActiveChannel\<close> writes that field, so the four tests see one value.
\<close>

definition handleEventWithGuand :: "int \<Rightarrow> 'cb channel \<Rightarrow> 'cb call list" where
  "handleEventWithGuand receiveTime ch =
     call_if (ch_revents ch AND EPOLLHUP \<noteq> 0 \<and> \<not> (ch_revents ch AND EPOLLIN \<noteq> 0)) Call (closeCallback ch)
     @ call_if (ch_revents ch AND EPOLLERR \<noteq> 0) Call (errorCallback ch)
     @ call_if (ch_revents ch AND (EPOLLIN OR EPOLLPRI) \<noteq> 0) (\<lambda>f. CallRead f receiveTime) (readCallback ch)
     @ call_if (ch_revents ch AND EPOLLOUT \<noteq> 0) Call (writeCallback ch)"

text \<open>\<open>alive\<close>: the objects a weak pointer can still be locked on.\<close>

definition handlelEvent :: "(nat \<Rightarrow> bool) \<Rightarrow> int \<Rightarrow> 'cb channel \<Rightarrow> 'cb call list" where
  "handlelEvent alive receiveTime ch =
     (if ch_tied ch then
        (case ch_tie ch of
           Some obj \<Rightarrow> if alive obj then handleEventWithGuand receiveTime ch else []
         | None \<Rightarrow> [])
      else handleEventWithGuand receiveTime ch)"


section \<open>Facts about the masks and the dispatch\<close>

lemma mask_or_eq_0: "(e :: events) AND (m OR n) = 0 \<longleftrightarrow> e AND m = 0 \<and> e AND n = 0"
  by (auto simp: bit_eq_iff bit_simps)

lemma isWriting_enable [simp]: "isWriting (ch\<lparr>ch_events := e OR kWriteEvent\<rparr>)"
proof -
  have "(e OR kWriteEvent) AND kWriteEvent = kWriteEvent"
    by (auto simp: bit_eq_iff bit_simps)
  then show ?thesis by (auto simp: isWriting_def event_masks)
qed

lemma isWriting_disable [simp]: "\<not> isWriting (ch\<lparr>ch_events := e AND NOT kWriteEvent\<rparr>)"
proof -
  have "(e AND NOT kWriteEvent) AND kWriteEvent = 0"
    by (auto simp: bit_eq_iff bit_simps)
  then show ?thesis by (simp add: isWriting_def)
qed

lemma isReading_enable [simp]: "isReading (ch\<lparr>ch_events := e OR kReadEvent\<rparr>)"
proof -
  have "(e OR kReadEvent) AND kReadEvent = kReadEvent"
    by (auto simp: bit_eq_iff bit_simps)
  then show ?thesis by (simp add: isReading_def) (simp add: kReadEvent_def epoll_bits)
qed

lemma not_isWriting_none [simp]: "\<not> isWriting (ch\<lparr>ch_events := kNoneEvent\<rparr>)"
  by (simp add: isWriting_def kNoneEvent_def)

lemma handlelEvent_dead:
  "ch_tied ch \<Longrightarrow> ch_tie ch = Some obj \<Longrightarrow> \<not> alive obj \<Longrightarrow> handlelEvent alive t ch = []"
  by (simp add: handlelEvent_def)

lemma handlelEvent_live:
  "ch_tied ch \<Longrightarrow> ch_tie ch = Some obj \<Longrightarrow> alive obj \<Longrightarrow>
   handlelEvent alive t ch = handleEventWithGuand t ch"
  by (simp add: handlelEvent_def)

lemma length_handleEvent: "length (handleEventWithGuand t ch) \<le> 4"
  by (auto simp: handleEventWithGuand_def call_if_def split: option.splits)

end
