(* ===== verification/EpollPoller.thy ===== *)
theory EpollPoller
  imports Channel
begin

text \<open>
  The poller of \<^verbatim>\<open>src/src/Poller.h\<close>, \<^verbatim>\<open>Poller.cc\<close>, \<^verbatim>\<open>EpollPoller.h\<close> and \<^verbatim>\<open>EpollPoller.cc\<close>: the map
  from descriptors to channels, the kernel's interest list behind \<open>epollfd_\<close>, and the size of the
  event vector. Channel objects live in a store \<open>chans\<close>, numbered like addresses. The interest
  list follows \<open>epoll_ctl(2)\<close>: adding a descriptor twice and changing or removing an absent one
  fail; running out of kernel memory is not modelled.
  The virtual class \<open>Poller\<close> is the locale \<open>poller_interface\<close>; \<open>EpollPoller\<close> interprets it.
\<close>

datatype ctl_op = EPOLL_CTL_ADD | EPOLL_CTL_MOD | EPOLL_CTL_DEL

type_synonym interest = "fd \<rightharpoonup> events \<times> nat"
type_synonym 'cb chans = "nat \<Rightarrow> 'cb channel"

definition epoll_ctl :: "interest \<Rightarrow> ctl_op \<Rightarrow> fd \<Rightarrow> events \<times> nat \<Rightarrow> errno option \<times> interest" where
  "epoll_ctl i op fd event =
     (case op of
        EPOLL_CTL_ADD \<Rightarrow> (if i fd = None then (None, i(fd \<mapsto> event)) else (Some EEXIST, i))
      | EPOLL_CTL_MOD \<Rightarrow> (if i fd = None then (Some ENOENT, i) else (None, i(fd \<mapsto> event)))
      | EPOLL_CTL_DEL \<Rightarrow> (if i fd = None then (Some ENOENT, i) else (None, i(fd := None))))"

record poller =
  channels :: "fd \<rightharpoonup> nat"
  interests :: interest
  events_size :: nat

definition kInitEventListSize :: nat where
  "kInitEventListSize = 16"

definition new_EpollPoller :: poller where
  "new_EpollPoller = \<lparr>channels = Map.empty, interests = Map.empty, events_size = kInitEventListSize\<rparr>"

text \<open>\<open>Poller::hasChannel\<close>.\<close>

definition hasChannel :: "'cb chans \<Rightarrow> poller \<Rightarrow> nat \<Rightarrow> bool" where
  "hasChannel chs p c = (channels p (ch_fd (chs c)) = Some c)"

text \<open>
  \<open>EpollPoller::update\<close>: one \<open>epoll_ctl\<close>; a failure is only logged (the log calls are comments in
  the source), so the error is dropped.
\<close>

definition poller_update :: "ctl_op \<Rightarrow> nat \<Rightarrow> 'cb chans \<Rightarrow> poller \<Rightarrow> poller" where
  "poller_update op c chs p =
     p\<lparr>interests := snd (epoll_ctl (interests p) op (ch_fd (chs c)) (ch_events (chs c), c))\<rparr>"

definition setIndex :: "nat \<Rightarrow> int \<Rightarrow> 'cb chans \<Rightarrow> 'cb chans" where
  "setIndex c i chs = chs(c := (chs c)\<lparr>ch_index := i\<rparr>)"

definition updateChannel :: "nat \<Rightarrow> 'cb chans \<times> poller \<Rightarrow> 'cb chans \<times> poller" where
  "updateChannel c s =
     (case s of (chs, p) \<Rightarrow>
      let index = ch_index (chs c) in
      if index = kNew \<or> index = kDeleted then
        let p1 = (if index = kNew then p\<lparr>channels := (channels p)(ch_fd (chs c) \<mapsto> c)\<rparr> else p);
            chs1 = setIndex c kAdded chs
        in (chs1, poller_update EPOLL_CTL_ADD c chs1 p1)
      else if isNoneEvent (chs c) then
        (setIndex c kDeleted chs, poller_update EPOLL_CTL_DEL c chs p)
      else (chs, poller_update EPOLL_CTL_MOD c chs p))"

definition removeChannel :: "nat \<Rightarrow> 'cb chans \<times> poller \<Rightarrow> 'cb chans \<times> poller" where
  "removeChannel c s =
     (case s of (chs, p) \<Rightarrow>
      let index = ch_index (chs c);
          p1 = p\<lparr>channels := (channels p)(ch_fd (chs c) := None)\<rparr>;
          p2 = (if index = kAdded then poller_update EPOLL_CTL_DEL c chs p1 else p1)
      in (setIndex c kNew chs, p2))"

text \<open>What \<open>epoll_wait\<close> returned: an error, or the ready entries with their reported events.\<close>

datatype wait_result = WaitErr errno | WaitEvents "(events \<times> nat) list"

fun fillActiveChannel :: "(events \<times> nat) list \<Rightarrow> 'cb chans \<Rightarrow> nat list \<Rightarrow> 'cb chans \<times> nat list" where
  "fillActiveChannel [] chs active = (chs, active)"
| "fillActiveChannel ((revt, c) # evs) chs active =
     fillActiveChannel evs (chs(c := (chs c)\<lparr>ch_revents := revt\<rparr>)) (active @ [c])"

definition poll :: "wait_result \<Rightarrow> 'cb chans \<Rightarrow> poller \<Rightarrow> nat list \<Rightarrow> 'cb chans \<times> poller \<times> nat list" where
  "poll r chs p active =
     (case r of
        WaitErr e \<Rightarrow> (chs, p, active)
      | WaitEvents evs \<Rightarrow>
          (let numEvents = length evs in
           if 0 < numEvents then
             (let (chs', active') = fillActiveChannel evs chs active;
                  p' = (if numEvents = events_size p then p\<lparr>events_size := events_size p * 2\<rparr> else p)
              in (chs', p', active'))
           else (chs, p, active)))"

text \<open>
  What \<open>epoll_wait(2)\<close> guarantees of its result: at most \<open>events_.size()\<close> entries, each a
  registered one, no descriptor twice.
\<close>

definition wait_ok :: "poller \<Rightarrow> wait_result \<Rightarrow> bool" where
  "wait_ok p r \<longleftrightarrow> (case r of WaitErr e \<Rightarrow> True | WaitEvents evs \<Rightarrow>
     length evs \<le> events_size p \<and> distinct (map snd evs) \<and>
     (\<forall>c \<in> snd ` set evs. \<exists>fd ev. interests p fd = Some (ev, c)))"

lemmas poller_defs = poller_update_def setIndex_def epoll_ctl_def index_defs


section \<open>Invariant: the interest list is what the channels say\<close>

text \<open>
  The three states of a channel: unknown to the poller, registered with exactly its own events,
  or kept in the map but taken out of the kernel.
\<close>

definition chan_ok :: "'cb chans \<Rightarrow> poller \<Rightarrow> nat \<Rightarrow> bool" where
  "chan_ok chs p c \<longleftrightarrow>
     (let ch = chs c; fd = ch_fd ch in
      (ch_index ch = kNew \<and> channels p fd = None \<and> interests p fd = None) \<or>
      (ch_index ch = kAdded \<and> channels p fd = Some c \<and> interests p fd = Some (ch_events ch, c)) \<or>
      (ch_index ch = kDeleted \<and> channels p fd = Some c \<and> interests p fd = None))"

text \<open>\<open>L\<close> is the set of live channels of the loop; no two of them share a descriptor.\<close>

definition poller_inv :: "nat set \<Rightarrow> 'cb chans \<Rightarrow> poller \<Rightarrow> bool" where
  "poller_inv L chs p \<longleftrightarrow>
     inj_on (\<lambda>c. ch_fd (chs c)) L \<and>
     (\<forall>fd c. channels p fd = Some c \<longrightarrow> c \<in> L \<and> ch_fd (chs c) = fd) \<and>
     (\<forall>fd ev c. interests p fd = Some (ev, c) \<longrightarrow> c \<in> L \<and> ch_fd (chs c) = fd) \<and>
     (\<forall>c \<in> L. chan_ok chs p c) \<and> 0 < events_size p"

lemma index_distinct [simp]:
  "kNew \<noteq> kAdded" "kAdded \<noteq> kNew" "kNew \<noteq> kDeleted" "kDeleted \<noteq> kNew"
  "kAdded \<noteq> kDeleted" "kDeleted \<noteq> kAdded"
  by (simp_all add: index_defs)

lemma new_EpollPoller_inv:
  assumes "inj_on (\<lambda>c. ch_fd (chs c)) L" and "\<And>c. c \<in> L \<Longrightarrow> ch_index (chs c) = kNew"
  shows "poller_inv L chs new_EpollPoller"
  using assms by (simp add: poller_inv_def chan_ok_def new_EpollPoller_def kInitEventListSize_def)

lemma poller_invD:
  assumes "poller_inv L chs p"
  shows "inj_on (\<lambda>c. ch_fd (chs c)) L"
    and "c \<in> L \<Longrightarrow> chan_ok chs p c"
    and "channels p fd = Some c \<Longrightarrow> c \<in> L \<and> ch_fd (chs c) = fd"
    and "interests p fd = Some (ev, c) \<Longrightarrow> c \<in> L \<and> ch_fd (chs c) = fd"
    and "0 < events_size p"
  using assms by (simp_all add: poller_inv_def)

text \<open>
  An operation on channel \<open>c\<close> that touches only \<open>c\<close> and its descriptor keeps the invariant as
  soon as \<open>c\<close> itself is in order afterwards.
\<close>

lemma poller_inv_step:
  assumes inv: "poller_inv L chs p" and c: "c \<in> L"
    and chs': "\<And>d. d \<noteq> c \<Longrightarrow> chs' d = chs d" "ch_fd (chs' c) = ch_fd (chs c)"
    and p': "\<And>fd. fd \<noteq> ch_fd (chs c) \<Longrightarrow> channels p' fd = channels p fd \<and> interests p' fd = interests p fd"
      "events_size p' = events_size p"
    and ok: "chan_ok chs' p' c"
  shows "poller_inv L chs' p'"
proof -
  have fds: "ch_fd (chs' d) = ch_fd (chs d)" for d using chs' by (cases "d = c") auto
  have off: "ch_fd (chs d) \<noteq> ch_fd (chs c)" if "d \<in> L" "d \<noteq> c" for d
    using poller_invD(1) [OF inv] c that by (auto dest: inj_onD)
  have "chan_ok chs' p' d" if "d \<in> L" for d
  proof (cases "d = c")
    case False
    with that have "chan_ok chs p d" and "ch_fd (chs d) \<noteq> ch_fd (chs c)"
      using poller_invD(2) [OF inv] off by auto
    with False chs' p'(1) show ?thesis by (simp add: chan_ok_def)
  qed (simp add: ok)
  moreover have "d \<in> L \<and> ch_fd (chs' d) = fd" if "channels p' fd = Some d" for fd d
    using that ok c poller_invD(3) [OF inv, of fd d] p'(1) [of fd] fds
    by (cases "fd = ch_fd (chs c)") (auto simp: chan_ok_def Let_def)
  moreover have "d \<in> L \<and> ch_fd (chs' d) = fd" if "interests p' fd = Some (ev, d)" for fd ev d
    using that ok c poller_invD(4) [OF inv, of fd ev d] p'(1) [of fd] fds
    by (cases "fd = ch_fd (chs c)") (auto simp: chan_ok_def Let_def)
  ultimately show ?thesis
    using inv p'(2) fds by (simp add: poller_inv_def)
qed

text \<open>Changing the events and telling the poller, as \<open>enableReading\<close> and its kin do.\<close>

definition set_events :: "nat \<Rightarrow> events \<Rightarrow> 'cb chans \<Rightarrow> 'cb chans" where
  "set_events c e chs = chs(c := (chs c)\<lparr>ch_events := e\<rparr>)"

definition change_events :: "nat \<Rightarrow> events \<Rightarrow> 'cb chans \<times> poller \<Rightarrow> 'cb chans \<times> poller" where
  "change_events c e s = updateChannel c (set_events c e (fst s), snd s)"

lemmas change_events_defs = change_events_def set_events_def updateChannel_def poller_update_def
  setIndex_def epoll_ctl_def isNoneEvent_def

lemma change_events_inv:
  assumes "poller_inv L chs p" and "c \<in> L" and "change_events c e (chs, p) = (chs', p')"
  shows "poller_inv L chs' p'"
proof (rule poller_inv_step [OF assms(1,2)])
  have ok: "chan_ok chs p c" using assms(1,2) by (rule poller_invD(2))
  show "chan_ok chs' p' c"
    using ok assms(3) by (auto simp: chan_ok_def Let_def change_events_defs split: if_splits)
qed (use assms(3) in \<open>auto simp: change_events_defs Let_def split: if_splits\<close>)

text \<open>After the call the kernel watches exactly the new events, or nothing.\<close>

lemma change_events_interest:
  assumes "poller_inv L chs p" and "c \<in> L" and "change_events c e (chs, p) = (chs', p')"
  shows "interests p' (ch_fd (chs c)) =
    (if ch_index (chs c) = kAdded \<and> e = kNoneEvent then None else Some (e, c))"
  using poller_invD(2) [OF assms(1,2)] assms(3)
  by (auto simp: chan_ok_def Let_def change_events_defs split: if_splits)

lemma removeChannel_inv:
  assumes "poller_inv L chs p" and "c \<in> L" and "removeChannel c (chs, p) = (chs', p')"
  shows "poller_inv L chs' p'"
proof (rule poller_inv_step [OF assms(1,2)])
  have ok: "chan_ok chs p c" using assms(1,2) by (rule poller_invD(2))
  show "chan_ok chs' p' c"
    using ok assms(3)
    by (auto simp: chan_ok_def Let_def removeChannel_def poller_update_def setIndex_def epoll_ctl_def
        split: if_splits)
qed (use assms(3) in \<open>auto simp: removeChannel_def poller_update_def setIndex_def epoll_ctl_def Let_def
      split: if_splits\<close>)

lemma fillActiveChannel_active:
  "fillActiveChannel evs chs active = (chs', active') \<Longrightarrow> active' = active @ map snd evs"
  by (induction evs arbitrary: chs active) fastforce+

lemma fillActiveChannel_frame:
  "fillActiveChannel evs chs active = (chs', active') \<Longrightarrow>
   ch_fd (chs' c) = ch_fd (chs c) \<and> ch_events (chs' c) = ch_events (chs c) \<and>
   ch_index (chs' c) = ch_index (chs c)"
proof (induction evs arbitrary: chs active)
  case (Cons a evs)
  obtain revt d where a: "a = (revt, d)" by (cases a)
  with Cons.prems have "fillActiveChannel evs (chs(d := (chs d)\<lparr>ch_revents := revt\<rparr>)) (active @ [d]) =
      (chs', active')" by simp
  from Cons.IH [OF this] show ?case by (cases "c = d") simp_all
qed simp

lemma poller_inv_cong:
  assumes "poller_inv L chs p"
    and "\<And>c. ch_fd (chs' c) = ch_fd (chs c) \<and> ch_events (chs' c) = ch_events (chs c) \<and>
      ch_index (chs' c) = ch_index (chs c)"
    and "channels p' = channels p" "interests p' = interests p" "0 < events_size p'"
  shows "poller_inv L chs' p'"
  using assms by (simp add: poller_inv_def chan_ok_def Let_def)

lemma poll_inv:
  assumes "poller_inv L chs p" and "poll r chs p active = (chs', p', active')"
  shows "poller_inv L chs' p'"
proof (rule poller_inv_cong [OF assms(1)])
  show "ch_fd (chs' c) = ch_fd (chs c) \<and> ch_events (chs' c) = ch_events (chs c) \<and>
      ch_index (chs' c) = ch_index (chs c)" for c
    using assms(2)
    by (auto simp: poll_def Let_def split: wait_result.splits prod.splits if_splits
        dest: fillActiveChannel_frame [where c = c])
qed (use assms(2) poller_invD(5) [OF assms(1)] in
    \<open>auto simp: poll_def Let_def split: wait_result.splits prod.splits if_splits\<close>)


section \<open>The interface \<open>Poller\<close>\<close>

datatype poller_call = Update nat events | Remove nat

fun call_channel :: "poller_call \<Rightarrow> nat" where
  "call_channel (Update c e) = c"
| "call_channel (Remove c) = c"

fun run_calls :: "(nat \<Rightarrow> events \<Rightarrow> 's \<Rightarrow> 's) \<Rightarrow> (nat \<Rightarrow> 's \<Rightarrow> 's) \<Rightarrow> poller_call list \<Rightarrow> 's \<Rightarrow> 's" where
  "run_calls update remove [] s = s"
| "run_calls update remove (Update c e # cs) s = run_calls update remove cs (update c e s)"
| "run_calls update remove (Remove c # cs) s = run_calls update remove cs (remove c s)"

text \<open>Whether channel \<open>d\<close> is registered after the calls, by the last call that names it.\<close>

fun registered :: "nat \<Rightarrow> poller_call list \<Rightarrow> bool \<Rightarrow> bool" where
  "registered d [] r = r"
| "registered d (Update c e # cs) r = registered d cs (c = d \<or> r)"
| "registered d (Remove c # cs) r = registered d cs (c \<noteq> d \<and> r)"

locale poller_interface =
  fixes update :: "nat \<Rightarrow> events \<Rightarrow> 's \<Rightarrow> 's"
    and remove :: "nat \<Rightarrow> 's \<Rightarrow> 's"
    and has :: "'s \<Rightarrow> nat \<Rightarrow> bool"
    and inv :: "'s \<Rightarrow> bool"
    and live :: "nat set"
  assumes inv_update: "inv s \<Longrightarrow> c \<in> live \<Longrightarrow> inv (update c e s)"
    and inv_remove: "inv s \<Longrightarrow> c \<in> live \<Longrightarrow> inv (remove c s)"
    and has_update: "inv s \<Longrightarrow> c \<in> live \<Longrightarrow> d \<in> live \<Longrightarrow> has (update c e s) d \<longleftrightarrow> c = d \<or> has s d"
    and has_remove: "inv s \<Longrightarrow> c \<in> live \<Longrightarrow> d \<in> live \<Longrightarrow> has (remove c s) d \<longleftrightarrow> c \<noteq> d \<and> has s d"
begin

lemma run_calls_inv:
  "inv s \<Longrightarrow> call_channel ` set cs \<subseteq> live \<Longrightarrow> inv (run_calls update remove cs s)"
proof (induction cs arbitrary: s)
  case (Cons a cs)
  then show ?case by (cases a) (simp_all add: inv_update inv_remove)
qed simp

lemma run_calls_has:
  "inv s \<Longrightarrow> call_channel ` set cs \<subseteq> live \<Longrightarrow> d \<in> live \<Longrightarrow>
   has (run_calls update remove cs s) d = registered d cs (has s d)"
proof (induction cs arbitrary: s)
  case (Cons a cs)
  then show ?case
    by (cases a) (simp_all add: inv_update inv_remove has_update has_remove)
qed simp

end

lemma hasChannel_change_events:
  assumes "poller_inv L chs p" and "c \<in> L" and "d \<in> L" and "change_events c e (chs, p) = (chs', p')"
  shows "hasChannel chs' p' d \<longleftrightarrow> c = d \<or> hasChannel chs p d"
proof (cases "c = d")
  case True
  have "chan_ok chs p c" using assms(1,2) by (rule poller_invD(2))
  with True assms(4) show ?thesis
    by (auto simp: hasChannel_def chan_ok_def Let_def change_events_defs split: if_splits)
next
  case False
  with assms(2,3) have "ch_fd (chs d) \<noteq> ch_fd (chs c)"
    using poller_invD(1) [OF assms(1)] by (auto dest: inj_onD)
  with False assms(4) show ?thesis
    by (auto simp: hasChannel_def Let_def change_events_defs split: if_splits)
qed

lemma hasChannel_removeChannel:
  assumes "poller_inv L chs p" and "c \<in> L" and "d \<in> L" and "removeChannel c (chs, p) = (chs', p')"
  shows "hasChannel chs' p' d \<longleftrightarrow> c \<noteq> d \<and> hasChannel chs p d"
proof -
  have "ch_fd (chs d) = ch_fd (chs c) \<longleftrightarrow> d = c"
    using poller_invD(1) [OF assms(1)] assms(2,3) by (auto dest: inj_onD)
  with assms(4) show ?thesis
    by (auto simp: hasChannel_def Let_def removeChannel_def poller_update_def setIndex_def
        split: if_splits)
qed

interpretation epoll: poller_interface change_events removeChannel
  "\<lambda>s. hasChannel (fst s) (snd s)" "\<lambda>s. poller_inv L (fst s) (snd s)" L for L
proof unfold_locales
  fix s :: "'cb chans \<times> poller" and c d e
  assume inv: "poller_inv L (fst s) (snd s)" and c: "c \<in> L"
  obtain chs1 p1 where up: "change_events c e (fst s, snd s) = (chs1, p1)" by fastforce
  obtain chs2 p2 where re: "removeChannel c (fst s, snd s) = (chs2, p2)" by fastforce
  show "poller_inv L (fst (change_events c e s)) (snd (change_events c e s))"
    using change_events_inv [OF inv c up] up by simp
  show "poller_inv L (fst (removeChannel c s)) (snd (removeChannel c s))"
    using removeChannel_inv [OF inv c re] re by simp
  assume d: "d \<in> L"
  show "hasChannel (fst (change_events c e s)) (snd (change_events c e s)) d \<longleftrightarrow>
      c = d \<or> hasChannel (fst s) (snd s) d"
    using hasChannel_change_events [OF inv c d up] up by simp
  show "hasChannel (fst (removeChannel c s)) (snd (removeChannel c s)) d \<longleftrightarrow>
      c \<noteq> d \<and> hasChannel (fst s) (snd s) d"
    using hasChannel_removeChannel [OF inv c d re] re by simp
qed


section \<open>Properties\<close>

text \<open>
  C3. The poller and the kernel agree. Start with an empty poller and channels with distinct
  descriptors; after any sequence of event changes and removals, every channel is in one of its
  three states (unknown; registered in \<open>epoll\<close> with exactly its current event mask; or in the map
  only), the kernel watches nothing else, and \<open>hasChannel\<close> tells for each channel whether the
  last call on it was an update.
\<close>

theorem poller_tracks_calls:
  assumes "inj_on (\<lambda>c. ch_fd (chs c)) L" and "\<And>c. c \<in> L \<Longrightarrow> ch_index (chs c) = kNew"
    and "call_channel ` set calls \<subseteq> L" and "d \<in> L"
    and "run_calls change_events removeChannel calls (chs, new_EpollPoller) = (chs', p')"
  shows "poller_inv L chs' p' \<and> (hasChannel chs' p' d \<longleftrightarrow> registered d calls False)"
proof -
  have inv: "poller_inv L (fst (chs, new_EpollPoller)) (snd (chs, new_EpollPoller))"
    using new_EpollPoller_inv [OF assms(1,2)] by simp
  have "\<not> hasChannel chs new_EpollPoller d" by (simp add: hasChannel_def new_EpollPoller_def)
  with epoll.run_calls_inv [OF inv assms(3)] epoll.run_calls_has [OF inv assms(3,4)] assms(5)
  show ?thesis by simp
qed

theorem poller_tracks_calls_witness:
  "\<exists>chs' p'. run_calls change_events removeChannel [Update 0 kReadEvent, Update 1 kWriteEvent, Remove 0]
       (\<lambda>c. new_Channel 0 (int c) :: unit channel, new_EpollPoller) = (chs', p') \<and>
     poller_inv {0, 1} chs' p' \<and> (hasChannel chs' p' 1 \<longleftrightarrow> True)"
proof -
  let ?calls = "[Update 0 kReadEvent, Update 1 kWriteEvent, Remove 0]"
  let ?chs = "\<lambda>c. new_Channel 0 (int c) :: unit channel"
  obtain chs' p' where r:
    "run_calls change_events removeChannel ?calls (?chs, new_EpollPoller) = (chs', p')" by fastforce
  have "inj_on (\<lambda>c. ch_fd (?chs c)) {0, 1}" and "\<And>c. ch_index (?chs c) = kNew"
    by (simp_all add: new_Channel_def kNew_def)
  from poller_tracks_calls [OF this(1) this(2) _ _ r, of 1] r show ?thesis by auto
qed

text \<open>
  \<open>updateChannel\<close> does not look at the events of a channel it took out before: switching all
  events off twice puts the descriptor back into the kernel's interest list, with an empty mask
  (for which \<open>epoll\<close> still reports errors and hang-ups).
\<close>

theorem disable_twice_registers:
  assumes "poller_inv L chs p" and "c \<in> L" and "ch_index (chs c) = kAdded"
    and "change_events c kNoneEvent (chs, p) = s1" and "change_events c kNoneEvent s1 = (chs2, p2)"
  shows "interests (snd s1) (ch_fd (chs c)) = None \<and>
    interests p2 (ch_fd (chs c)) = Some (kNoneEvent, c) \<and> ch_index (chs2 c) = kAdded"
proof -
  obtain chs1 p1 where s1: "s1 = (chs1, p1)" by (cases s1)
  have e1: "change_events c kNoneEvent (chs, p) = (chs1, p1)" using assms(4) s1 by simp
  have e2: "change_events c kNoneEvent (chs1, p1) = (chs2, p2)" using assms(5) s1 by simp
  have off: "ch_index (chs1 c) = kDeleted" and fd: "ch_fd (chs1 c) = ch_fd (chs c)"
    using assms(3) e1 by (auto simp: change_events_defs)
  have inv1: "poller_inv L chs1 p1" using assms(1,2) e1 by (rule change_events_inv)
  have "ch_index (chs2 c) = kAdded" using off e2 by (auto simp: change_events_defs Let_def)
  then show ?thesis
    using change_events_interest [OF assms(1,2) e1] change_events_interest [OF inv1 assms(2) e2]
      assms(3) off fd s1 by simp
qed

theorem disable_twice_registers_witness:
  "\<exists>chs2 p2. change_events 0 kNoneEvent (change_events 0 kNoneEvent
       (change_events 0 kReadEvent (\<lambda>c. new_Channel 0 7 :: unit channel, new_EpollPoller))) = (chs2, p2) \<and>
     interests p2 7 = Some (kNoneEvent, 0) \<and> ch_index (chs2 0) = kAdded"
proof -
  let ?chs = "\<lambda>c. new_Channel 0 7 :: unit channel"
  obtain chs p where r: "change_events 0 kReadEvent (?chs, new_EpollPoller) = (chs, p)" by fastforce
  have "poller_inv {0} ?chs new_EpollPoller"
    by (rule new_EpollPoller_inv) (simp_all add: new_Channel_def kNew_def)
  from change_events_inv [OF this _ r] have inv: "poller_inv {0} chs p" by simp
  have ix: "ch_index (chs 0) = kAdded" and fd: "ch_fd (chs 0) = 7"
    using r by (auto simp: change_events_defs new_Channel_def kNew_def Let_def)
  obtain chs2 p2 where r2: "change_events 0 kNoneEvent (change_events 0 kNoneEvent (chs, p)) = (chs2, p2)"
    by fastforce
  from disable_twice_registers [OF inv _ ix refl r2] r r2 fd show ?thesis by simp
qed

end
