(* ===== verification/Interleaving.thy ===== *)
theory Interleaving
  imports Prelude
begin

text \<open>
  Threads that share memory: a program is a step function that says what one thread does next from
  a state, \<open>None\<close> when the thread is blocked or has returned, and its behaviours are the states any
  order of such steps reaches.  The three locales are the contracts the thread programs of
  \<open>src/bck/train/chapter 3\<close> are shown to meet: an invariant every step keeps, a lock discipline
  (who is inside the guarded section holds the lock), and steps that cannot go on for ever.
\<close>

inductive reachable :: "('t \<Rightarrow> 's \<Rightarrow> 's option) \<Rightarrow> 's \<Rightarrow> 's \<Rightarrow> bool" for step s0 where
  reachable_init: "reachable step s0 s0"
| reachable_step: "reachable step s0 s \<Longrightarrow> step t s = Some s' \<Longrightarrow> reachable step s0 s'"

text \<open>One order of steps, executed; \<open>None\<close> when a thread is scheduled that cannot move.\<close>

fun run_schedule :: "('t \<Rightarrow> 's \<Rightarrow> 's option) \<Rightarrow> 't list \<Rightarrow> 's \<Rightarrow> 's option" where
  "run_schedule step [] s = Some s"
| "run_schedule step (t # ts) s =
     (case step t s of None \<Rightarrow> None | Some s' \<Rightarrow> run_schedule step ts s')"

lemma run_schedule_append:
  "run_schedule step (ts @ us) s =
     (case run_schedule step ts s of None \<Rightarrow> None | Some s' \<Rightarrow> run_schedule step us s')"
  by (induction ts arbitrary: s) (auto split: option.splits)

lemma run_schedule_reachable:
  "reachable step s0 s \<Longrightarrow> run_schedule step ts s = Some s' \<Longrightarrow> reachable step s0 s'"
  by (induction ts arbitrary: s) (auto split: option.splits intro: reachable_step)

lemma reachable_iff_run: "reachable step s0 s \<longleftrightarrow> (\<exists>ts. run_schedule step ts s0 = Some s)"
proof
  assume "reachable step s0 s"
  then show "\<exists>ts. run_schedule step ts s0 = Some s"
  proof induction
    case reachable_init
    show ?case by (rule exI [of _ "[]"]) simp
  next
    case (reachable_step s t s')
    then obtain ts where "run_schedule step ts s0 = Some s" by blast
    with reachable_step.hyps(2) show ?case
      by (intro exI [of _ "ts @ [t]"]) (simp add: run_schedule_append)
  qed
qed (auto intro: run_schedule_reachable [OF reachable.reachable_init])

text \<open>A state no thread can leave.\<close>

definition at_rest :: "('t \<Rightarrow> 's \<Rightarrow> 's option) \<Rightarrow> 's \<Rightarrow> bool" where
  "at_rest step s \<longleftrightarrow> (\<forall>t. step t s = None)"

locale thread_invariant =
  fixes step :: "'t \<Rightarrow> 's \<Rightarrow> 's option"
    and start :: 's
    and inv :: "'s \<Rightarrow> bool"
  assumes inv_start: "inv start"
    and inv_step: "inv s \<Longrightarrow> step t s = Some s' \<Longrightarrow> inv s'"
begin

lemma always: "reachable step start s \<Longrightarrow> inv s"
  by (induction rule: reachable.induct) (auto intro: inv_start inv_step)

lemma run_keeps: "inv s \<Longrightarrow> run_schedule step ts s = Some s' \<Longrightarrow> inv s'"
  by (induction ts arbitrary: s) (auto split: option.splits intro: inv_step)

end

locale lock_discipline = thread_invariant step start inv
  for step :: "'t \<Rightarrow> 's \<Rightarrow> 's option" and start and inv +
  fixes inside :: "'s \<Rightarrow> 't \<Rightarrow> bool"
    and holder :: "'s \<Rightarrow> 't option"
  assumes inside_holds: "inv s \<Longrightarrow> inside s t \<Longrightarrow> holder s = Some t"
begin

lemma exclusive: "reachable step start s \<Longrightarrow> inside s t \<Longrightarrow> inside s u \<Longrightarrow> t = u"
  by (metis always inside_holds option.inject)

end

locale bounded_threads = thread_invariant step start inv
  for step :: "'t \<Rightarrow> 's \<Rightarrow> 's option" and start and inv +
  fixes work :: "'s \<Rightarrow> nat"
  assumes work_drops: "inv s \<Longrightarrow> step t s = Some s' \<Longrightarrow> work s' < work s"
begin

lemma schedule_work:
  "reachable step start s \<Longrightarrow> run_schedule step ts s = Some s' \<Longrightarrow> length ts + work s' \<le> work s"
proof (induction ts arbitrary: s)
  case (Cons t ts)
  then obtain s1 where s1: "step t s = Some s1" "run_schedule step ts s1 = Some s'"
    by (auto split: option.splits)
  have "length ts + work s' \<le> work s1"
    using Cons.IH [OF reachable_step [OF Cons.prems(1) s1(1)] s1(2)] .
  with work_drops [OF always [OF Cons.prems(1)] s1(1)] show ?case by simp
qed simp

lemma schedule_bounded: "run_schedule step ts start = Some s \<Longrightarrow> length ts \<le> work start"
  using schedule_work [OF reachable_init] by fastforce

text \<open>Whatever was scheduled so far, going on with any thread that can move ends at rest.\<close>

lemma comes_to_rest:
  assumes "reachable step start s"
  shows "\<exists>ts s'. run_schedule step ts s = Some s' \<and> at_rest step s'"
  using assms
proof (induction "work s" arbitrary: s rule: less_induct)
  case less
  show ?case
  proof (cases "at_rest step s")
    case True
    then show ?thesis by (intro exI [of _ "[]"] exI [of _ s]) simp
  next
    case False
    then obtain t s1 where s1: "step t s = Some s1" by (auto simp: at_rest_def)
    have "work s1 < work s" using work_drops [OF always [OF less.prems] s1] .
    from less.hyps [OF this reachable_step [OF less.prems s1]]
    obtain ts s' where "run_schedule step ts s1 = Some s'" "at_rest step s'" by blast
    with s1 show ?thesis by (intro exI [of _ "t # ts"] exI [of _ s']) simp
  qed
qed

end

end
