(* ===== verification/EventLoop.thy ===== *)
theory EventLoop
  imports EpollPoller Interleaving
begin

text \<open>
  The event loop of \<^verbatim>\<open>src/src/EventLoop.h\<close> and \<^verbatim>\<open>src/src/EventLoop.cc\<close>, with the channel methods
  that reach the poller through it, \<^verbatim>\<open>src/src/DefaultPoller.cc\<close> and \<^verbatim>\<open>src/src/CurrentThread.cc\<close>.
  A functor is a value of a type \<open>'f\<close> (the bound calls of the components above) and is run by a
  function argument. The record \<open>reactor\<close> holds the channels, and per loop its poller and its
  state; the components above extend it. The number behind the event descriptor counts as
  \<open>eventfd(2)\<close> does.
\<close>

record 'f eventloop =
  looping :: bool
  quit_flag :: bool
  callingPendingFunctors :: bool
  threadId :: tid
  pollReturnTime :: int
  wakeupFd :: fd
  wakeupChannel :: nat
  wakeupCount :: nat
  activeChannels :: "nat list"
  pendingFunctors :: "'f list"

record ('f, 'cb) reactor =
  chans :: "'cb chans"
  pollers :: "loop_id \<Rightarrow> poller"
  loops :: "loop_id \<Rightarrow> 'f eventloop"
  loopInThisThread :: "tid \<rightharpoonup> loop_id"


section \<open>Channel methods that reach the poller\<close>

definition EventLoop_updateChannel ::
    "loop_id \<Rightarrow> nat \<Rightarrow> ('f, 'cb, 'z) reactor_scheme \<Rightarrow> ('f, 'cb, 'z) reactor_scheme" where
  "EventLoop_updateChannel l c w =
     (case updateChannel c (chans w, pollers w l) of
        (chs, p) \<Rightarrow> w\<lparr>chans := chs, pollers := (pollers w)(l := p)\<rparr>)"

definition EventLoop_removeChannel ::
    "loop_id \<Rightarrow> nat \<Rightarrow> ('f, 'cb, 'z) reactor_scheme \<Rightarrow> ('f, 'cb, 'z) reactor_scheme" where
  "EventLoop_removeChannel l c w =
     (case removeChannel c (chans w, pollers w l) of
        (chs, p) \<Rightarrow> w\<lparr>chans := chs, pollers := (pollers w)(l := p)\<rparr>)"

definition EventLoop_hasChannel :: "loop_id \<Rightarrow> nat \<Rightarrow> ('f, 'cb, 'z) reactor_scheme \<Rightarrow> bool" where
  "EventLoop_hasChannel l c w = hasChannel (chans w) (pollers w l) c"

definition Channel_update :: "nat \<Rightarrow> ('f, 'cb, 'z) reactor_scheme \<Rightarrow> ('f, 'cb, 'z) reactor_scheme" where
  "Channel_update c w = EventLoop_updateChannel (ch_loop (chans w c)) c w"

definition Channel_remove :: "nat \<Rightarrow> ('f, 'cb, 'z) reactor_scheme \<Rightarrow> ('f, 'cb, 'z) reactor_scheme" where
  "Channel_remove c w = EventLoop_removeChannel (ch_loop (chans w c)) c w"

definition enableReading :: "nat \<Rightarrow> ('f, 'cb, 'z) reactor_scheme \<Rightarrow> ('f, 'cb, 'z) reactor_scheme" where
  "enableReading c w =
     Channel_update c (w\<lparr>chans := set_events c (ch_events (chans w c) OR kReadEvent) (chans w)\<rparr>)"

definition disableReading :: "nat \<Rightarrow> ('f, 'cb, 'z) reactor_scheme \<Rightarrow> ('f, 'cb, 'z) reactor_scheme" where
  "disableReading c w =
     Channel_update c (w\<lparr>chans := set_events c (ch_events (chans w c) AND NOT kReadEvent) (chans w)\<rparr>)"

definition enableWriting :: "nat \<Rightarrow> ('f, 'cb, 'z) reactor_scheme \<Rightarrow> ('f, 'cb, 'z) reactor_scheme" where
  "enableWriting c w =
     Channel_update c (w\<lparr>chans := set_events c (ch_events (chans w c) OR kWriteEvent) (chans w)\<rparr>)"

definition disableWriting :: "nat \<Rightarrow> ('f, 'cb, 'z) reactor_scheme \<Rightarrow> ('f, 'cb, 'z) reactor_scheme" where
  "disableWriting c w =
     Channel_update c (w\<lparr>chans := set_events c (ch_events (chans w c) AND NOT kWriteEvent) (chans w)\<rparr>)"

definition disableAll :: "nat \<Rightarrow> ('f, 'cb, 'z) reactor_scheme \<Rightarrow> ('f, 'cb, 'z) reactor_scheme" where
  "disableAll c w = Channel_update c (w\<lparr>chans := set_events c kNoneEvent (chans w)\<rparr>)"


section \<open>Waking up and queueing\<close>

text \<open>
  \<open>write\<close> of one to the event descriptor adds one, and fails with \<open>EAGAIN\<close> at the largest value
  \<open>2^64 - 2\<close>; \<open>read\<close> takes the whole count and fails when it is zero. Both failures are ignored.
\<close>

definition wakeup :: "'f eventloop \<Rightarrow> 'f eventloop" where
  "wakeup lp = (if wakeupCount lp < 2 ^ 64 - 2 then lp\<lparr>wakeupCount := wakeupCount lp + 1\<rparr> else lp)"

definition EventLoop_handleRead :: "'f eventloop \<Rightarrow> 'f eventloop" where
  "EventLoop_handleRead lp = lp\<lparr>wakeupCount := 0\<rparr>"

definition isInLoopThread :: "tid \<Rightarrow> 'f eventloop \<Rightarrow> bool" where
  "isInLoopThread cur lp = (threadId lp = cur)"

definition EventLoop_quit :: "tid \<Rightarrow> 'f eventloop \<Rightarrow> 'f eventloop" where
  "EventLoop_quit cur lp =
     (let lp1 = lp\<lparr>quit_flag := True\<rparr> in if \<not> isInLoopThread cur lp1 then wakeup lp1 else lp1)"

text \<open>The two halves of \<open>queueInLoop\<close>: the insertion, and the test that decides on a wake-up.\<close>

definition queue_emplace :: "'f \<Rightarrow> 'f eventloop \<Rightarrow> 'f eventloop" where
  "queue_emplace cb lp = lp\<lparr>pendingFunctors := pendingFunctors lp @ [cb]\<rparr>"

definition queue_wakeup :: "tid \<Rightarrow> 'f eventloop \<Rightarrow> 'f eventloop" where
  "queue_wakeup cur lp = (if \<not> isInLoopThread cur lp \<or> callingPendingFunctors lp then wakeup lp else lp)"

definition upd_loop :: "loop_id \<Rightarrow> ('f eventloop \<Rightarrow> 'f eventloop) \<Rightarrow>
    ('f, 'cb, 'z) reactor_scheme \<Rightarrow> ('f, 'cb, 'z) reactor_scheme" where
  "upd_loop l g w = w\<lparr>loops := (loops w)(l := g (loops w l))\<rparr>"

definition queueInLoop :: "tid \<Rightarrow> loop_id \<Rightarrow> 'f \<Rightarrow>
    ('f, 'cb, 'z) reactor_scheme \<Rightarrow> ('f, 'cb, 'z) reactor_scheme" where
  "queueInLoop cur l cb w = upd_loop l (\<lambda>lp. queue_wakeup cur (queue_emplace cb lp)) w"

definition runInLoop :: "('f \<Rightarrow> ('f, 'cb, 'z) reactor_scheme \<Rightarrow> ('f, 'cb, 'z) reactor_scheme result) \<Rightarrow>
    tid \<Rightarrow> loop_id \<Rightarrow> 'f \<Rightarrow> ('f, 'cb, 'z) reactor_scheme \<Rightarrow> ('f, 'cb, 'z) reactor_scheme result" where
  "runInLoop run cur l cb w =
     (if isInLoopThread cur (loops w l) then run cb w else Inr (queueInLoop cur l cb w))"

text \<open>\<open>doPendingFunctors\<close>: mark, take the whole queue at once, run it, unmark.\<close>

definition swap_pending :: "'f eventloop \<Rightarrow> 'f eventloop" where
  "swap_pending lp = lp\<lparr>callingPendingFunctors := True, pendingFunctors := []\<rparr>"

definition end_pending :: "'f eventloop \<Rightarrow> 'f eventloop" where
  "end_pending lp = lp\<lparr>callingPendingFunctors := False\<rparr>"

definition doPendingFunctors :: "('f \<Rightarrow> ('f, 'cb, 'z) reactor_scheme \<Rightarrow> ('f, 'cb, 'z) reactor_scheme result) \<Rightarrow>
    loop_id \<Rightarrow> ('f, 'cb, 'z) reactor_scheme \<Rightarrow> ('f, 'cb, 'z) reactor_scheme result" where
  "doPendingFunctors run l w =
     (let functor = pendingFunctors (loops w l) in
      case fold_result run functor (upd_loop l swap_pending w) of
        Inl e \<Rightarrow> Inl e
      | Inr w' \<Rightarrow> Inr (upd_loop l end_pending w'))"


section \<open>Construction, the loop, destruction\<close>

text \<open>\<open>Poller::newDefaultPoller\<close>: no poller at all when the variable \<open>USE_POLL\<close> is set.\<close>

definition newDefaultPoller :: "bool \<Rightarrow> poller option" where
  "newDefaultPoller use_poll_set = (if use_poll_set then None else Some new_EpollPoller)"

text \<open>
  \<open>EventLoop::EventLoop\<close> on thread \<open>cur\<close>: \<open>evtfd\<close> is what \<open>eventfd\<close> returned, \<open>wc\<close> the new wake-up
  channel and \<open>cb\<close> the bound \<open>handleRead\<close>.
\<close>

definition new_EventLoop :: "bool \<Rightarrow> tid \<Rightarrow> loop_id \<Rightarrow> fd \<Rightarrow> nat \<Rightarrow> 'cb \<Rightarrow>
    ('f, 'cb, 'z) reactor_scheme \<Rightarrow> ('f, 'cb, 'z) reactor_scheme result" where
  "new_EventLoop use_poll_set cur l evtfd wc cb w =
     (let lp = \<lparr>looping = False, quit_flag = False, callingPendingFunctors = False, threadId = cur,
                pollReturnTime = 0, wakeupFd = evtfd, wakeupChannel = wc, wakeupCount = 0,
                activeChannels = [], pendingFunctors = []\<rparr>;
          w1 = w\<lparr>loops := (loops w)(l := lp), chans := (chans w)(wc := new_Channel l evtfd)\<rparr>
      in if loopInThisThread w cur \<noteq> None then Inl Exited
         else
           let w2 = w1\<lparr>loopInThisThread := (loopInThisThread w)(cur \<mapsto> l),
                        chans := (chans w1)(wc := (chans w1 wc)\<lparr>readCallback := Some cb\<rparr>)\<rparr>
           in case newDefaultPoller use_poll_set of
                None \<Rightarrow> Inl NullDeref
              | Some p \<Rightarrow> Inr (enableReading wc (w2\<lparr>pollers := (pollers w2)(l := p)\<rparr>)))"

definition delete_EventLoop :: "tid \<Rightarrow> loop_id \<Rightarrow>
    ('f, 'cb, 'z) reactor_scheme \<Rightarrow> ('f, 'cb, 'z) reactor_scheme" where
  "delete_EventLoop cur l w =
     (let wc = wakeupChannel (loops w l); w1 = Channel_remove wc (disableAll wc w)
      in w1\<lparr>loopInThisThread := (loopInThisThread w1)(cur := None)\<rparr>)"

text \<open>
  The body of the \<open>while\<close> in \<open>loop\<close>. \<open>exec\<close> runs a channel callback, \<open>run\<close> a functor; the weak
  pointers are read when a channel's turn comes.
\<close>

definition handle_channel :: "(('f, 'cb, 'z) reactor_scheme \<Rightarrow> nat \<Rightarrow> bool) \<Rightarrow>
    ('cb call \<Rightarrow> ('f, 'cb, 'z) reactor_scheme \<Rightarrow> ('f, 'cb, 'z) reactor_scheme result) \<Rightarrow>
    loop_id \<Rightarrow> nat \<Rightarrow> ('f, 'cb, 'z) reactor_scheme \<Rightarrow> ('f, 'cb, 'z) reactor_scheme result" where
  "handle_channel alive exec l c w =
     fold_result exec (handlelEvent (alive w) (pollReturnTime (loops w l)) (chans w c)) w"

definition loop_body :: "(('f, 'cb, 'z) reactor_scheme \<Rightarrow> nat \<Rightarrow> bool) \<Rightarrow>
    ('cb call \<Rightarrow> ('f, 'cb, 'z) reactor_scheme \<Rightarrow> ('f, 'cb, 'z) reactor_scheme result) \<Rightarrow>
    ('f \<Rightarrow> ('f, 'cb, 'z) reactor_scheme \<Rightarrow> ('f, 'cb, 'z) reactor_scheme result) \<Rightarrow>
    loop_id \<Rightarrow> int \<times> wait_result \<Rightarrow> ('f, 'cb, 'z) reactor_scheme \<Rightarrow> ('f, 'cb, 'z) reactor_scheme result" where
  "loop_body alive exec run l polled w =
     (case poll (snd polled) (chans w) (pollers w l) [] of
        (chs, p, active) \<Rightarrow>
          let w1 = upd_loop l (\<lambda>lp. lp\<lparr>activeChannels := active, pollReturnTime := fst polled\<rparr>)
                     (w\<lparr>chans := chs, pollers := (pollers w)(l := p)\<rparr>)
          in case fold_result (handle_channel alive exec l) active w1 of
               Inl e \<Rightarrow> Inl e
             | Inr w2 \<Rightarrow> doPendingFunctors run l w2)"

text \<open>
  The loop over a list of poll results: it leaves when \<open>quit_\<close> is seen (first component true),
  or is blocked in \<open>poll\<close> when the list is used up.
\<close>

fun loop_while :: "(('f, 'cb, 'z) reactor_scheme \<Rightarrow> nat \<Rightarrow> bool) \<Rightarrow>
    ('cb call \<Rightarrow> ('f, 'cb, 'z) reactor_scheme \<Rightarrow> ('f, 'cb, 'z) reactor_scheme result) \<Rightarrow>
    ('f \<Rightarrow> ('f, 'cb, 'z) reactor_scheme \<Rightarrow> ('f, 'cb, 'z) reactor_scheme result) \<Rightarrow>
    loop_id \<Rightarrow> (int \<times> wait_result) list \<Rightarrow> ('f, 'cb, 'z) reactor_scheme \<Rightarrow>
    (bool \<times> ('f, 'cb, 'z) reactor_scheme) result" where
  "loop_while alive exec run l [] w =
     (if quit_flag (loops w l) then Inr (True, upd_loop l (\<lambda>lp. lp\<lparr>looping := False\<rparr>) w)
      else Inr (False, w))"
| "loop_while alive exec run l (polled # ps) w =
     (if quit_flag (loops w l) then Inr (True, upd_loop l (\<lambda>lp. lp\<lparr>looping := False\<rparr>) w)
      else (case loop_body alive exec run l polled w of
              Inl e \<Rightarrow> Inl e
            | Inr w' \<Rightarrow> loop_while alive exec run l ps w'))"

definition EventLoop_loop :: "(('f, 'cb, 'z) reactor_scheme \<Rightarrow> nat \<Rightarrow> bool) \<Rightarrow>
    ('cb call \<Rightarrow> ('f, 'cb, 'z) reactor_scheme \<Rightarrow> ('f, 'cb, 'z) reactor_scheme result) \<Rightarrow>
    ('f \<Rightarrow> ('f, 'cb, 'z) reactor_scheme \<Rightarrow> ('f, 'cb, 'z) reactor_scheme result) \<Rightarrow>
    loop_id \<Rightarrow> (int \<times> wait_result) list \<Rightarrow> ('f, 'cb, 'z) reactor_scheme \<Rightarrow>
    (bool \<times> ('f, 'cb, 'z) reactor_scheme) result" where
  "EventLoop_loop alive exec run l ps w =
     loop_while alive exec run l ps (upd_loop l (\<lambda>lp. lp\<lparr>looping := True, quit_flag := False\<rparr>) w)"


section \<open>Frame facts\<close>

lemma loops_upd_loop [simp]: "loops (upd_loop l g w) l' = (if l' = l then g (loops w l) else loops w l')"
  by (simp add: upd_loop_def)

lemma upd_loop_frame [simp]:
  "chans (upd_loop l g w) = chans w" "pollers (upd_loop l g w) = pollers w"
  "loopInThisThread (upd_loop l g w) = loopInThisThread w"
  by (simp_all add: upd_loop_def)

lemma wakeup_frame [simp]:
  "pendingFunctors (wakeup lp) = pendingFunctors lp" "threadId (wakeup lp) = threadId lp"
  "callingPendingFunctors (wakeup lp) = callingPendingFunctors lp" "quit_flag (wakeup lp) = quit_flag lp"
  by (simp_all add: wakeup_def)

lemma wakeup_positive [simp]: "0 < wakeupCount (wakeup lp)"
  by (simp add: wakeup_def)

lemma queue_frame [simp]:
  "pendingFunctors (queue_emplace cb lp) = pendingFunctors lp @ [cb]"
  "threadId (queue_emplace cb lp) = threadId lp"
  "callingPendingFunctors (queue_emplace cb lp) = callingPendingFunctors lp"
  "wakeupCount (queue_emplace cb lp) = wakeupCount lp"
  "pendingFunctors (queue_wakeup cur lp) = pendingFunctors lp"
  "threadId (queue_wakeup cur lp) = threadId lp"
  "callingPendingFunctors (queue_wakeup cur lp) = callingPendingFunctors lp"
  by (simp_all add: queue_emplace_def queue_wakeup_def)

lemma queue_wakeup_count:
  "wakeupCount lp \<le> wakeupCount (queue_wakeup cur lp)"
  "cur \<noteq> threadId lp \<or> callingPendingFunctors lp \<Longrightarrow> 0 < wakeupCount (queue_wakeup cur lp)"
  by (auto simp: queue_wakeup_def isInLoopThread_def wakeup_def)

lemma queueInLoop_frame [simp]:
  "chans (queueInLoop cur l cb w) = chans w" "pollers (queueInLoop cur l cb w) = pollers w"
  "pendingFunctors (loops (queueInLoop cur l cb w) l') =
     (if l' = l then pendingFunctors (loops w l) @ [cb] else pendingFunctors (loops w l'))"
  "threadId (loops (queueInLoop cur l cb w) l') = threadId (loops w l')"
  "callingPendingFunctors (loops (queueInLoop cur l cb w) l') = callingPendingFunctors (loops w l')"
  by (simp_all add: queueInLoop_def)

lemma Channel_update_frame [simp]:
  "loops (Channel_update c w) = loops w" "loopInThisThread (Channel_update c w) = loopInThisThread w"
  by (simp_all add: Channel_update_def EventLoop_updateChannel_def split: prod.splits)

lemma Channel_remove_frame [simp]:
  "loops (Channel_remove c w) = loops w" "loopInThisThread (Channel_remove c w) = loopInThisThread w"
  by (simp_all add: Channel_remove_def EventLoop_removeChannel_def split: prod.splits)

lemma channel_switch_frame [simp]:
  "loops (enableReading c w) = loops w" "loops (disableReading c w) = loops w"
  "loops (enableWriting c w) = loops w" "loops (disableWriting c w) = loops w"
  "loops (disableAll c w) = loops w"
  by (simp_all add: enableReading_def disableReading_def enableWriting_def disableWriting_def disableAll_def)

text \<open>Every switch is \<open>change_events\<close> of theory \<open>EpollPoller\<close> on the channel's own poller.\<close>

definition switch_events :: "nat \<Rightarrow> events \<Rightarrow> ('f, 'cb, 'z) reactor_scheme \<Rightarrow> ('f, 'cb, 'z) reactor_scheme" where
  "switch_events c e w =
     (let l = ch_loop (chans w c); s = change_events c e (chans w, pollers w l)
      in w\<lparr>chans := fst s, pollers := (pollers w)(l := snd s)\<rparr>)"

lemma Channel_update_set_events:
  "Channel_update c (w\<lparr>chans := set_events c e (chans w)\<rparr>) = switch_events c e w"
  by (simp add: Channel_update_def EventLoop_updateChannel_def switch_events_def change_events_def
      set_events_def Let_def split: prod.splits)

lemma switches:
  "enableReading c w = switch_events c (ch_events (chans w c) OR kReadEvent) w"
  "disableReading c w = switch_events c (ch_events (chans w c) AND NOT kReadEvent) w"
  "enableWriting c w = switch_events c (ch_events (chans w c) OR kWriteEvent) w"
  "disableWriting c w = switch_events c (ch_events (chans w c) AND NOT kWriteEvent) w"
  "disableAll c w = switch_events c kNoneEvent w"
  by (simp_all only: enableReading_def disableReading_def enableWriting_def disableWriting_def
      disableAll_def Channel_update_set_events)


section \<open>The wake-up protocol\<close>

text \<open>
  One loop and any number of other threads, step by step. The loop thread is blocked in \<open>poll\<close>,
  handles the active channels, or runs the functors it took. Another thread's \<open>queueInLoop\<close> is two
  steps; \<open>inflight\<close> holds the threads between them. The lists \<open>queued\<close> and \<open>executed\<close> record what
  was queued and what was run.
\<close>

datatype 'f phase = Polling | Handling | Running "'f list"

record 'f lstate =
  phase :: "'f phase"
  evl :: "'f eventloop"
  inflight :: "tid list"
  queued :: "'f list"
  executed :: "'f list"

inductive loop_step :: "'f lstate \<Rightarrow> 'f lstate \<Rightarrow> bool" where
  other_emplace: "t \<noteq> threadId (evl s) \<Longrightarrow>
     loop_step s (s\<lparr>evl := queue_emplace f (evl s), inflight := t # inflight s, queued := queued s @ [f]\<rparr>)"
| other_wakeup: "inflight s = xs @ t # ys \<Longrightarrow>
     loop_step s (s\<lparr>evl := queue_wakeup t (evl s), inflight := xs @ ys\<rparr>)"
| poll_returns: "phase s = Polling \<Longrightarrow> loop_step s (s\<lparr>phase := Handling\<rparr>)"
| wakeup_read: "phase s = Handling \<Longrightarrow> loop_step s (s\<lparr>evl := EventLoop_handleRead (evl s)\<rparr>)"
| own_queue: "phase s = Handling \<or> phase s = Running fs \<Longrightarrow>
     loop_step s (s\<lparr>evl := queue_wakeup (threadId (evl s)) (queue_emplace f (evl s)), queued := queued s @ [f]\<rparr>)"
| take_pending: "phase s = Handling \<Longrightarrow>
     loop_step s (s\<lparr>phase := Running (pendingFunctors (evl s)), evl := swap_pending (evl s)\<rparr>)"
| run_functor: "phase s = Running (f # fs) \<Longrightarrow>
     loop_step s (s\<lparr>phase := Running fs, executed := executed s @ [f]\<rparr>)"
| pending_done: "phase s = Running [] \<Longrightarrow>
     loop_step s (s\<lparr>phase := Polling, evl := end_pending (evl s)\<rparr>)"
| quit_called: "loop_step s (s\<lparr>evl := EventLoop_quit t (evl s)\<rparr>)"

definition loop_start :: "'f eventloop \<Rightarrow> 'f lstate" where
  "loop_start l0 = \<lparr>phase = Polling, evl = l0, inflight = [], queued = [], executed = []\<rparr>"

inductive loop_reachable :: "'f eventloop \<Rightarrow> 'f lstate \<Rightarrow> bool" for l0 where
  start: "loop_reachable l0 (loop_start l0)"
| step: "loop_reachable l0 s \<Longrightarrow> loop_step s s' \<Longrightarrow> loop_reachable l0 s'"

fun taken :: "'f phase \<Rightarrow> 'f list" where
  "taken (Running fs) = fs"
| "taken _ = []"

text \<open>
  Outside the handling phase a queued functor has a wake-up behind it or a thread about to make
  one; the mark \<open>callingPendingFunctors_\<close> is set exactly while functors run; and nothing queued is
  lost, duplicated or reordered.
\<close>

definition loop_inv :: "'f lstate \<Rightarrow> bool" where
  "loop_inv s \<longleftrightarrow>
     (callingPendingFunctors (evl s) \<longleftrightarrow> (\<exists>fs. phase s = Running fs)) \<and>
     (\<forall>t \<in> set (inflight s). t \<noteq> threadId (evl s)) \<and>
     (phase s \<noteq> Handling \<and> pendingFunctors (evl s) \<noteq> [] \<and> inflight s = [] \<longrightarrow> 0 < wakeupCount (evl s)) \<and>
     executed s @ taken (phase s) @ pendingFunctors (evl s) = queued s"

lemma quit_frame [simp]:
  "pendingFunctors (EventLoop_quit t lp) = pendingFunctors lp" "threadId (EventLoop_quit t lp) = threadId lp"
  "callingPendingFunctors (EventLoop_quit t lp) = callingPendingFunctors lp"
  "wakeupCount lp \<le> wakeupCount (EventLoop_quit t lp)"
  by (simp_all add: EventLoop_quit_def Let_def wakeup_def)

lemma pending_frame [simp]:
  "pendingFunctors (swap_pending lp) = []" "threadId (swap_pending lp) = threadId lp"
  "callingPendingFunctors (swap_pending lp)" "wakeupCount (swap_pending lp) = wakeupCount lp"
  "pendingFunctors (end_pending lp) = pendingFunctors lp" "threadId (end_pending lp) = threadId lp"
  "\<not> callingPendingFunctors (end_pending lp)" "wakeupCount (end_pending lp) = wakeupCount lp"
  "pendingFunctors (EventLoop_handleRead lp) = pendingFunctors lp"
  "threadId (EventLoop_handleRead lp) = threadId lp"
  "callingPendingFunctors (EventLoop_handleRead lp) = callingPendingFunctors lp"
  by (simp_all add: swap_pending_def end_pending_def EventLoop_handleRead_def)

lemma loop_inv_start:
  "\<not> callingPendingFunctors l0 \<Longrightarrow> pendingFunctors l0 = [] \<Longrightarrow> loop_inv (loop_start l0)"
  by (simp add: loop_inv_def loop_start_def)

lemma loop_inv_step: "loop_step s s' \<Longrightarrow> loop_inv s \<Longrightarrow> loop_inv s'"
proof (induction rule: loop_step.induct)
  case (other_wakeup s xs t ys)
  then have "t \<noteq> threadId (evl s)" by (simp add: loop_inv_def)
  with other_wakeup queue_wakeup_count(2) [of t "evl s"] show ?case
    by (auto simp: loop_inv_def)
next
  case (own_queue s fs f)
  show ?case
  proof (cases "phase s = Handling")
    case False
    with own_queue have "callingPendingFunctors (queue_emplace f (evl s))" by (simp add: loop_inv_def)
    then have "0 < wakeupCount (queue_wakeup (threadId (evl s)) (queue_emplace f (evl s)))"
      by (intro queue_wakeup_count(2)) simp
    with own_queue show ?thesis by (auto simp: loop_inv_def)
  qed (use own_queue in \<open>auto simp: loop_inv_def\<close>)
next
  case (quit_called s t)
  then show ?case
    using quit_frame(4) [of "evl s" t] by (auto simp: loop_inv_def simp del: quit_frame(4))
qed (auto simp: loop_inv_def)

lemma loop_reachable_inv:
  assumes "loop_reachable l0 s" and "\<not> callingPendingFunctors l0" and "pendingFunctors l0 = []"
  shows "loop_inv s"
  using assms(1)
proof (induction rule: loop_reachable.induct)
  case start
  from assms(2,3) show ?case by (rule loop_inv_start)
next
  case (step s s')
  from step.hyps(2) step.IH show ?case by (rule loop_inv_step)
qed


section \<open>The guard that locks nothing\<close>

text \<open>
  \<open>std::unique_lock<std::mutex>(mutex_);\<close> declares a local variable and leaves the mutex alone, so two
  threads can be inside \<open>emplace_back\<close> together.  Below its capacity the vector stores the new element at
  its end and then moves the end; the threads read the end, and later write.  The parameter says whether
  the guard locks: it does not in the source.
\<close>

datatype 'f emplace_pc = EmplaceLock 'f | EmplaceRead 'f | EmplaceWrite 'f nat | EmplaceDone

record 'f vec_state =
  vec_elems :: "'f list"
  vec_lock :: "nat option"
  emplacing :: "'f emplace_pc list"

definition emplace_back :: "bool \<Rightarrow> nat \<Rightarrow> 'f vec_state \<Rightarrow> 'f vec_state option" where
  "emplace_back guarded t s =
     (if t < length (emplacing s) then
        (let goto = (\<lambda>pc. s\<lparr>emplacing := (emplacing s)[t := pc]\<rparr>) in
         case emplacing s ! t of
           EmplaceLock f \<Rightarrow>
             (if \<not> guarded then Some (goto (EmplaceRead f))
              else if vec_lock s = None then Some ((goto (EmplaceRead f))\<lparr>vec_lock := Some t\<rparr>) else None)
         | EmplaceRead f \<Rightarrow> Some (goto (EmplaceWrite f (length (vec_elems s))))
         | EmplaceWrite f n \<Rightarrow>
             Some ((goto EmplaceDone)\<lparr>vec_elems := take n (vec_elems s) @ [f], vec_lock := (if guarded then None else vec_lock s)\<rparr>)
         | EmplaceDone \<Rightarrow> None)
      else None)"

definition emplace_start :: "'f list \<Rightarrow> 'f vec_state" where
  "emplace_start fs = \<lparr>vec_elems = [], vec_lock = None, emplacing = map EmplaceLock fs\<rparr>"

text \<open>As the source is, a functor can be lost although both calls have returned.\<close>

lemma unlocked_queue_loses_functor:
  "\<exists>s. reachable (emplace_back False) (emplace_start [1 :: nat, 2]) s \<and> emplacing s = [EmplaceDone, EmplaceDone] \<and>
     vec_elems s = [2]"
proof -
  have "run_schedule (emplace_back False) [0, 1, 0, 1, 0, 1] (emplace_start [1 :: nat, 2]) =
      Some \<lparr>vec_elems = [2], vec_lock = None, emplacing = [EmplaceDone, EmplaceDone]\<rparr>"
    by (simp add: emplace_back_def emplace_start_def Let_def)
  from run_schedule_reachable [OF reachable_init this] show ?thesis by fastforce
qed

text \<open>With a guard that locks, every insertion that is over is in the vector.\<close>

definition emplace_inv :: "'f list \<Rightarrow> 'f vec_state \<Rightarrow> bool" where
  "emplace_inv fs s \<longleftrightarrow>
     length (emplacing s) = length fs \<and>
     (\<forall>t < length fs. case emplacing s ! t of
        EmplaceLock f \<Rightarrow> f = fs ! t \<and> vec_lock s \<noteq> Some t
      | EmplaceRead f \<Rightarrow> f = fs ! t \<and> vec_lock s = Some t
      | EmplaceWrite f n \<Rightarrow> f = fs ! t \<and> n = length (vec_elems s) \<and> vec_lock s = Some t
      | EmplaceDone \<Rightarrow> fs ! t \<in> set (vec_elems s) \<and> vec_lock s \<noteq> Some t)"

lemma emplace_inv_step:
  assumes inv: "emplace_inv fs s" and step: "emplace_back True t s = Some s'"
  shows "emplace_inv fs s'"
proof -
  have t: "t < length fs" using step inv by (auto simp: emplace_back_def emplace_inv_def split: if_splits)
  have len: "length (emplacing s) = length fs" using inv by (simp add: emplace_inv_def)
  have at: "case emplacing s ! u of
        EmplaceLock f \<Rightarrow> f = fs ! u \<and> vec_lock s \<noteq> Some u
      | EmplaceRead f \<Rightarrow> f = fs ! u \<and> vec_lock s = Some u
      | EmplaceWrite f n \<Rightarrow> f = fs ! u \<and> n = length (vec_elems s) \<and> vec_lock s = Some u
      | EmplaceDone \<Rightarrow> fs ! u \<in> set (vec_elems s) \<and> vec_lock s \<noteq> Some u" if "u < length fs" for u
    using inv that by (simp add: emplace_inv_def)
  show ?thesis
    unfolding emplace_inv_def
  proof (intro conjI allI impI)
    show "length (emplacing s') = length fs"
      using step len by (auto simp: emplace_back_def Let_def split: if_splits emplace_pc.splits)
    fix u assume u: "u < length fs"
    show "case emplacing s' ! u of
        EmplaceLock f \<Rightarrow> f = fs ! u \<and> vec_lock s' \<noteq> Some u
      | EmplaceRead f \<Rightarrow> f = fs ! u \<and> vec_lock s' = Some u
      | EmplaceWrite f n \<Rightarrow> f = fs ! u \<and> n = length (vec_elems s') \<and> vec_lock s' = Some u
      | EmplaceDone \<Rightarrow> fs ! u \<in> set (vec_elems s') \<and> vec_lock s' \<noteq> Some u"
      using at [OF u] at [OF t] step t u len
      by (cases "u = t")
        (auto simp: emplace_back_def Let_def nth_list_update split: if_splits emplace_pc.splits)
  qed
qed

interpretation emplace: thread_invariant "emplace_back True" "emplace_start fs" "emplace_inv fs" for fs
proof unfold_locales
  show "emplace_inv fs (emplace_start fs)" by (simp add: emplace_inv_def emplace_start_def)
qed (fact emplace_inv_step)

lemma locked_queue_keeps_functors:
  assumes "reachable (emplace_back True) (emplace_start fs) s" and "t < length fs" and "emplacing s ! t = EmplaceDone"
  shows "fs ! t \<in> set (vec_elems s)"
  using emplace.always [OF assms(1)] assms(2,3) by (auto simp: emplace_inv_def dest: spec [of _ t])


section \<open>Properties\<close>


definition idle_loop :: "nat eventloop" where
  "idle_loop = \<lparr>looping = True, quit_flag = False, callingPendingFunctors = False, threadId = 1,
     pollReturnTime = 0, wakeupFd = 5, wakeupChannel = 0, wakeupCount = 0, activeChannels = [],
     pendingFunctors = []\<rparr>"

lemma idle_loop_queued:
  "loop_reachable idle_loop ((loop_start idle_loop)
     \<lparr>evl := queue_wakeup 2 (queue_emplace 7 idle_loop), inflight := [], queued := [7]\<rparr>)"
proof -
  let ?s = "loop_start idle_loop"
  let ?s1 = "?s\<lparr>evl := queue_emplace 7 (evl ?s), inflight := 2 # inflight ?s, queued := queued ?s @ [7]\<rparr>"
  have "loop_step ?s ?s1"
    by (rule loop_step.other_emplace) (simp add: loop_start_def idle_loop_def)
  moreover have "loop_step ?s1 (?s1\<lparr>evl := queue_wakeup 2 (evl ?s1), inflight := [] @ []\<rparr>)"
    by (rule loop_step.other_wakeup) (simp add: loop_start_def)
  ultimately have "loop_reachable idle_loop (?s1\<lparr>evl := queue_wakeup 2 (evl ?s1), inflight := [] @ []\<rparr>)"
    by (meson loop_reachable.intros)
  then show ?thesis by (simp add: loop_start_def)
qed




text \<open>
  Construction of a loop: a second loop on one thread ends the process; with \<open>USE_POLL\<close> set
  there is no poller and the constructor dereferences a null pointer; otherwise the loop starts
  with its wake-up descriptor watched for reading and nothing queued.
\<close>

theorem new_EventLoop_outcomes:
  "(loopInThisThread w cur \<noteq> None \<longrightarrow> new_EventLoop up cur l evtfd wc cb w = Inl Exited) \<and>
   (loopInThisThread w cur = None \<longrightarrow> new_EventLoop True cur l evtfd wc cb w = Inl NullDeref) \<and>
   (loopInThisThread w cur = None \<longrightarrow>
      (\<exists>w'. new_EventLoop False cur l evtfd wc cb w = Inr w' \<and>
        interests (pollers w' l) evtfd = Some (kReadEvent, wc) \<and> EventLoop_hasChannel l wc w' \<and>
        pendingFunctors (loops w' l) = [] \<and> loopInThisThread w' cur = Some l))"
  by (simp add: new_EventLoop_def newDefaultPoller_def switches switch_events_def change_events_defs
      new_Channel_def new_EpollPoller_def EventLoop_hasChannel_def hasChannel_def Let_def index_defs)

theorem new_EventLoop_outcomes_witness:
  "\<exists>w0 :: (nat, unit) reactor. loopInThisThread w0 1 = None \<and>
     new_EventLoop True 1 0 5 0 () w0 = Inl NullDeref"
proof -
  let ?w = "\<lparr>chans = (\<lambda>c. new_Channel 0 0), pollers = (\<lambda>l. new_EpollPoller), loops = (\<lambda>l. idle_loop),
      loopInThisThread = Map.empty\<rparr> :: (nat, unit) reactor"
  show ?thesis using new_EventLoop_outcomes [of ?w 1 True 0 5 0 "()"] by (intro exI [of _ ?w]) simp
qed

end
