(* ===== verification/CString.thy ===== *)
theory CString
  imports Prelude
begin

text \<open>
  The part of the C library the sources use on strings. A C string in an array is read by
  \<open>cstr_at\<close>, which fails when no terminator stands before the end of the array; the functions of
  \<^verbatim>\<open>string.h\<close> work on the string so read. Numbers are printed by \<open>show_nat\<close> and \<open>show_int\<close> (\<open>%d\<close>,
  \<open>%u\<close>) and read by \<open>atol\<close>; the printing is proved injective, which connection names rest on.
\<close>

section \<open>Decimal digits\<close>

definition digit :: "nat \<Rightarrow> char" where
  "digit d = char_of (48 + d)"

definition is_digit :: "char \<Rightarrow> bool" where
  "is_digit c = (48 \<le> (of_char c :: nat) \<and> (of_char c :: nat) \<le> 57)"

definition digit_val :: "char \<Rightarrow> nat" where
  "digit_val c = of_char c - 48"

fun show_nat :: "nat \<Rightarrow> string" where
  "show_nat n = (if n < 10 then [digit n] else show_nat (n div 10) @ [digit (n mod 10)])"

declare show_nat.simps [simp del]

definition show_int :: "int \<Rightarrow> string" where
  "show_int i = (if i < 0 then CHR ''-'' # show_nat (nat (- i)) else show_nat (nat i))"

fun digits_val :: "nat \<Rightarrow> string \<Rightarrow> nat" where
  "digits_val acc [] = acc"
| "digits_val acc (c # cs) = digits_val (10 * acc + digit_val c) cs"

lemma of_char_digit: "d < 10 \<Longrightarrow> (of_char (digit d) :: nat) = 48 + d"
  by (simp add: digit_def)

lemma digit_val_digit [simp]: "d < 10 \<Longrightarrow> digit_val (digit d) = d"
  by (simp add: digit_val_def of_char_digit)

lemma is_digit_digit [simp]: "d < 10 \<Longrightarrow> is_digit (digit d)"
  by (simp add: is_digit_def of_char_digit)

lemma digits_val_append: "digits_val acc (xs @ ys) = digits_val (digits_val acc xs) ys"
  by (induction xs arbitrary: acc) auto

lemma digits_val_show: "digits_val 0 (show_nat n) = n"
proof (induction n rule: show_nat.induct)
  case (1 n)
  show ?case
  proof (cases "n < 10")
    case False
    with 1 show ?thesis by (simp add: show_nat.simps [of n] digits_val_append)
  qed (simp add: show_nat.simps)
qed

lemma show_nat_inject [simp]: "show_nat m = show_nat n \<longleftrightarrow> m = n"
  by (metis digits_val_show)

lemma show_nat_nonempty [simp]: "show_nat n \<noteq> []"
  by (simp add: show_nat.simps)

lemma show_nat_digits: "c \<in> set (show_nat n) \<Longrightarrow> is_digit c"
proof (induction n rule: show_nat.induct)
  case (1 n)
  then show ?case by (auto simp: show_nat.simps [of n] split: if_splits)
qed

lemma length_show_nat: "n < 10 ^ k \<Longrightarrow> 0 < k \<Longrightarrow> length (show_nat n) \<le> k"
proof (induction k arbitrary: n)
  case (Suc k)
  show ?case
  proof (cases "n < 10")
    case False
    with Suc.prems have "0 < k" by (cases k) auto
    moreover have "n div 10 < 10 ^ k" using Suc.prems by (simp add: less_mult_imp_div_less mult.commute)
    ultimately have "length (show_nat (n div 10)) \<le> k" using Suc.IH by simp
    with False show ?thesis by (simp add: show_nat.simps [of n])
  qed (simp add: show_nat.simps [of n])
qed simp


section \<open>Strings in arrays\<close>

definition strlen :: "string \<Rightarrow> nat" where
  "strlen s = length (takeWhile (\<lambda>c. c \<noteq> NUL) s)"

text \<open>The C string that starts at index \<open>i\<close> of an array.\<close>

definition cstr_at :: "char list \<Rightarrow> nat \<Rightarrow> string result" where
  "cstr_at buf i =
     (if NUL \<in> set (drop i buf) then Inr (takeWhile (\<lambda>c. c \<noteq> NUL) (drop i buf)) else Inl OutOfBounds)"

lemma cstr_at_noNUL: "cstr_at buf i = Inr s \<Longrightarrow> NUL \<notin> set s"
  by (auto simp: cstr_at_def dest: set_takeWhileD split: if_splits)

lemma takeWhile_lt: "x \<in> set xs \<Longrightarrow> \<not> P x \<Longrightarrow> length (takeWhile P xs) < length xs"
  by (induction xs) auto

lemma cstr_at_bound: "cstr_at buf i = Inr s \<Longrightarrow> i + length s < length buf"
proof -
  assume a: "cstr_at buf i = Inr s"
  then have "NUL \<in> set (drop i buf)" and "s = takeWhile (\<lambda>c. c \<noteq> NUL) (drop i buf)"
    by (auto simp: cstr_at_def split: if_splits)
  then have "length s < length (drop i buf)"
    using takeWhile_lt [of NUL "drop i buf" "\<lambda>c. c \<noteq> NUL"] by (simp del: length_drop)
  then show ?thesis by simp
qed

lemma cstr_at_ok: "i \<le> k \<Longrightarrow> k < length buf \<Longrightarrow> buf ! k = NUL \<Longrightarrow> \<exists>s. cstr_at buf i = Inr s \<and> i + length s \<le> k"
proof -
  assume k: "i \<le> k" "k < length buf" "buf ! k = NUL"
  then have n: "drop i buf ! (k - i) = NUL" "k - i < length (drop i buf)" by auto
  then have "NUL \<in> set (drop i buf)" by (metis nth_mem)
  moreover have "length (takeWhile (\<lambda>c. c \<noteq> NUL) (drop i buf)) \<le> k - i"
    using n by (metis (mono_tags, lifting) length_takeWhile_le not_less nth_length_takeWhile nth_mem
        order_less_le set_takeWhileD takeWhile_nth)
  ultimately show ?thesis using k by (auto simp: cstr_at_def)
qed


text \<open>
  What \<open>fgets\<close> with an array of \<open>n\<close> bytes takes from its stream: up to the end of the line, and at most
  \<open>n - 1\<close> bytes.
\<close>

fun line_length :: "nat \<Rightarrow> string \<Rightarrow> nat" where
  "line_length 0 s = 0"
| "line_length (Suc n) [] = 0"
| "line_length (Suc n) (c # s) = (if c = CHR 0x0A then 1 else Suc (line_length n s))"

definition fgets_length :: "nat \<Rightarrow> string \<Rightarrow> nat" where
  "fgets_length n s = line_length (n - 1) s"

lemma line_length_le: "line_length n s \<le> n"
  by (induction n s rule: line_length.induct) auto

lemma fgets_length_less: "0 < n \<Longrightarrow> fgets_length n s < n"
  using line_length_le [of "n - 1" s] by (simp add: fgets_length_def)


section \<open>Case-insensitive comparison and searching\<close>

definition tolower :: "char \<Rightarrow> char" where
  "tolower c = (if 65 \<le> (of_char c :: nat) \<and> (of_char c :: nat) \<le> 90 then char_of ((of_char c :: nat) + 32) else c)"

definition lower :: "string \<Rightarrow> string" where
  "lower s = map tolower s"

text \<open>
  \<open>strcasecmp\<close> and \<open>strncasecmp\<close> return the difference of the first two characters that differ
  (lower case, as unsigned), as the GNU library does; the end of a string counts as 0.
\<close>

fun strcasecmp :: "string \<Rightarrow> string \<Rightarrow> int" where
  "strcasecmp [] [] = 0"
| "strcasecmp (a # as) [] = int (of_char (tolower a))"
| "strcasecmp [] (b # bs) = - int (of_char (tolower b))"
| "strcasecmp (a # as) (b # bs) =
     (if tolower a = tolower b then strcasecmp as bs
      else int (of_char (tolower a)) - int (of_char (tolower b)))"

definition strncasecmp :: "string \<Rightarrow> string \<Rightarrow> nat \<Rightarrow> int" where
  "strncasecmp s t n = strcasecmp (take n s) (take n t)"

text \<open>Offsets instead of pointers: \<open>strpbrk\<close> and \<open>strchr\<close> find the first match, \<open>strspn\<close> counts.\<close>

fun find_first :: "('a \<Rightarrow> bool) \<Rightarrow> 'a list \<Rightarrow> nat option" where
  "find_first P [] = None"
| "find_first P (x # xs) = (if P x then Some 0 else map_option Suc (find_first P xs))"

definition strpbrk :: "string \<Rightarrow> string \<Rightarrow> nat option" where
  "strpbrk s accept = find_first (\<lambda>c. c \<in> set accept) s"

definition strchr :: "string \<Rightarrow> char \<Rightarrow> nat option" where
  "strchr s c = find_first (\<lambda>x. x = c) s"

definition strspn :: "string \<Rightarrow> string \<Rightarrow> nat" where
  "strspn s accept = length (takeWhile (\<lambda>c. c \<in> set accept) s)"

text \<open>\<open>atol\<close>: optional white space and sign, then digits; no range check.\<close>

definition is_space :: "char \<Rightarrow> bool" where
  "is_space c = (c = CHR '' '' \<or> 9 \<le> (of_char c :: nat) \<and> (of_char c :: nat) \<le> 13)"

definition atol :: "string \<Rightarrow> int" where
  "atol s =
     (case dropWhile is_space s of
        [] \<Rightarrow> 0
      | c # cs \<Rightarrow>
          if c = CHR ''-'' then - int (digits_val 0 (takeWhile is_digit cs))
          else if c = CHR ''+'' then int (digits_val 0 (takeWhile is_digit cs))
          else int (digits_val 0 (takeWhile is_digit (c # cs))))"

lemma of_char_0: "(of_char c :: nat) = 0 \<longleftrightarrow> c = NUL"
  using of_char_eq_iff [of c NUL, where 'a = nat] by simp

lemma of_char_tolower_0: "(of_char (tolower c) :: nat) = 0 \<longleftrightarrow> c = NUL"
  by (cases "65 \<le> (of_char c :: nat) \<and> (of_char c :: nat) \<le> 90") (auto simp: tolower_def of_char_0 [symmetric])

lemma of_char_eq: "int (of_char a) = int (of_char b) \<longleftrightarrow> a = b"
  by (simp add: of_char_eq_iff)

lemma strcasecmp_eq_0: "NUL \<notin> set s \<Longrightarrow> NUL \<notin> set t \<Longrightarrow> strcasecmp s t = 0 \<longleftrightarrow> lower s = lower t"
  by (induction s t rule: strcasecmp.induct) (auto simp: lower_def of_char_tolower_0)

lemma find_first_Some: "find_first P xs = Some i \<Longrightarrow> i < length xs \<and> P (xs ! i) \<and> (\<forall>j < i. \<not> P (xs ! j))"
proof (induction xs arbitrary: i)
  case (Cons x xs)
  show ?case
  proof (cases "P x")
    case False
    with Cons.prems obtain k where "find_first P xs = Some k" "i = Suc k" by auto
    with Cons.IH False show ?thesis by (auto simp: nth_Cons split: nat.splits)
  qed (use Cons.prems in auto)
qed simp

lemma find_first_None: "find_first P xs = None \<longleftrightarrow> (\<forall>x \<in> set xs. \<not> P x)"
  by (induction xs) auto

lemma find_first_append:
  "(\<And>x. x \<in> set xs \<Longrightarrow> \<not> P x) \<Longrightarrow> P y \<Longrightarrow> find_first P (xs @ y # ys) = Some (length xs)"
  by (induction xs) auto

end
