(* ===== verification/InetAddress.thy ===== *)
theory InetAddress
  imports CString
begin

text \<open>
  \<^verbatim>\<open>src/src/InetAddress.h\<close> and \<^verbatim>\<open>src/src/InetAddress.cc\<close> with the library calls they make:
  \<open>htons\<close>/\<open>ntohs\<close> swap the two bytes (the program runs on little-endian machines), \<open>inet_addr\<close> reads
  one to four numbers in C notation, \<open>inet_ntop\<close> prints the four bytes as they lie in memory.
  Addresses survive the trip through the structure: that is what connection names are built from.
\<close>

unbundle bit_operations_syntax

record sockaddr_in =
  sin_family :: nat
  sin_port :: "16 word"
  sin_addr :: "32 word"

definition AF_INET :: nat where
  "AF_INET = 2"

definition htons :: "16 word \<Rightarrow> 16 word" where
  "htons x = push_bit 8 x OR drop_bit 8 x"

definition ntohs :: "16 word \<Rightarrow> 16 word" where
  "ntohs x = push_bit 8 x OR drop_bit 8 x"


section \<open>Reading and printing addresses\<close>

fun split_dots :: "string \<Rightarrow> string \<Rightarrow> string list" where
  "split_dots acc [] = [rev acc]"
| "split_dots acc (c # cs) = (if c = CHR ''.'' then rev acc # split_dots [] cs else split_dots (c # acc) cs)"

definition hex_val :: "char \<Rightarrow> nat option" where
  "hex_val c = (let n = of_char (tolower c) :: nat in
     if is_digit c then Some (digit_val c) else if 97 \<le> n \<and> n \<le> 102 then Some (n - 87) else None)"

fun number_in :: "nat \<Rightarrow> nat \<Rightarrow> string \<Rightarrow> nat option" where
  "number_in base acc [] = Some acc"
| "number_in base acc (c # cs) =
     (case hex_val c of None \<Rightarrow> None | Some d \<Rightarrow> if d < base then number_in base (base * acc + d) cs else None)"

text \<open>A number in C notation: hexadecimal after \<open>0x\<close>, octal after \<open>0\<close>, else decimal.\<close>

definition c_number :: "string \<Rightarrow> nat option" where
  "c_number s =
     (case s of
        [] \<Rightarrow> None
      | c # cs \<Rightarrow>
          if \<not> is_digit c then None
          else if c = CHR ''0'' \<and> cs \<noteq> [] then
            (if tolower (hd cs) = CHR ''x'' then (if tl cs = [] then None else number_in 16 0 (tl cs))
             else number_in 8 0 cs)
          else number_in 10 0 s)"

text \<open>Four bytes in memory order as the 32-bit value of a little-endian machine.\<close>

definition pack_bytes :: "nat \<Rightarrow> nat \<Rightarrow> nat \<Rightarrow> nat \<Rightarrow> 32 word" where
  "pack_bytes a b c d = of_nat (a + 2 ^ 8 * b + 2 ^ 16 * c + 2 ^ 24 * d)"

definition byte_of :: "nat \<Rightarrow> nat \<Rightarrow> nat" where
  "byte_of i v = (v div 2 ^ (8 * i)) mod 2 ^ 8"

definition INADDR_NONE :: "32 word" where
  "INADDR_NONE = 0xFFFFFFFF"

definition inet_addr :: "string \<Rightarrow> 32 word" where
  "inet_addr s =
     (case map c_number (split_dots [] (takeWhile (\<lambda>c. \<not> is_space c) s)) of
        [Some a] \<Rightarrow> if a < 2 ^ 32 then pack_bytes (byte_of 3 a) (byte_of 2 a) (byte_of 1 a) (byte_of 0 a)
                     else INADDR_NONE
      | [Some a, Some b] \<Rightarrow> if a < 2 ^ 8 \<and> b < 2 ^ 24 then pack_bytes a (byte_of 2 b) (byte_of 1 b) (byte_of 0 b)
                     else INADDR_NONE
      | [Some a, Some b, Some c] \<Rightarrow> if a < 2 ^ 8 \<and> b < 2 ^ 8 \<and> c < 2 ^ 16
                     then pack_bytes a b (byte_of 1 c) (byte_of 0 c) else INADDR_NONE
      | [Some a, Some b, Some c, Some d] \<Rightarrow> if a < 2 ^ 8 \<and> b < 2 ^ 8 \<and> c < 2 ^ 8 \<and> d < 2 ^ 8
                     then pack_bytes a b c d else INADDR_NONE
      | _ \<Rightarrow> INADDR_NONE)"

definition dotted :: "nat \<Rightarrow> nat \<Rightarrow> nat \<Rightarrow> nat \<Rightarrow> string" where
  "dotted a b c d = show_nat a @ ''.'' @ show_nat b @ ''.'' @ show_nat c @ ''.'' @ show_nat d"

definition inet_ntop :: "32 word \<Rightarrow> string" where
  "inet_ntop w = (let v = unat w in dotted (byte_of 0 v) (byte_of 1 v) (byte_of 2 v) (byte_of 3 v))"


section \<open>The class\<close>

definition new_InetAddress :: "16 word \<Rightarrow> string \<Rightarrow> sockaddr_in" where
  "new_InetAddress port ip = \<lparr>sin_family = AF_INET, sin_port = htons port, sin_addr = inet_addr ip\<rparr>"

definition toIp :: "sockaddr_in \<Rightarrow> string" where
  "toIp a = inet_ntop (sin_addr a)"

text \<open>
  \<open>toIpPort\<close> prints into \<open>char ip[64]\<close>: the \<open>sprintf\<close> behind the address must stay inside it.
\<close>

definition toIpPort :: "sockaddr_in \<Rightarrow> string result" where
  "toIpPort a =
     (let ip = inet_ntop (sin_addr a); port = ntohs (sin_port a);
          s = ip @ '':'' @ show_nat (unat port)
      in if length s < 64 then Inr s else Inl OutOfBounds)"

definition toPort :: "sockaddr_in \<Rightarrow> 16 word" where
  "toPort a = ntohs (sin_port a)"


section \<open>Facts\<close>

lemma ntohs_htons [simp]: "ntohs (htons x) = x"
  by (rule bit_word_eqI) (auto simp: ntohs_def htons_def bit_simps)

lemma byte_of_lt [simp]: "byte_of i v < 256"
  by (simp add: byte_of_def)

lemma split_dots_no_dot: "CHR ''.'' \<notin> set s \<Longrightarrow> split_dots acc s = [rev acc @ s]"
  by (induction s arbitrary: acc) auto

lemma split_dots_dot:
  "CHR ''.'' \<notin> set s \<Longrightarrow> split_dots acc (s @ CHR ''.'' # t) = (rev acc @ s) # split_dots [] t"
  by (induction s arbitrary: acc) auto

lemma show_nat_no_dot [simp]: "CHR ''.'' \<notin> set (show_nat n)"
  by (auto dest: show_nat_digits simp: is_digit_def)

lemma show_nat_no_space: "c \<in> set (show_nat n) \<Longrightarrow> \<not> is_space c"
  by (auto dest: show_nat_digits simp: is_digit_def is_space_def)

lemma number_in_digits: "(\<And>c. c \<in> set s \<Longrightarrow> is_digit c) \<Longrightarrow> number_in 10 acc s = Some (digits_val acc s)"
proof (induction s arbitrary: acc)
  case (Cons c s)
  then have "is_digit c" by simp
  then have "digit_val c < 10" by (auto simp: is_digit_def digit_val_def)
  with \<open>is_digit c\<close> Cons show ?case by (simp add: hex_val_def Let_def)
qed simp

lemma digit_eq_0: "d < 10 \<Longrightarrow> digit d = CHR ''0'' \<longleftrightarrow> d = 0"
proof
  assume "d < 10" "digit d = CHR ''0''"
  then have "digit_val (CHR ''0'') = d" using digit_val_digit [of d] by simp
  then show "d = 0" by (simp add: digit_val_def)
next
  assume "d = 0"
  moreover have "(of_char (digit 0) :: nat) = of_char (CHR ''0'')" by (simp add: of_char_digit)
  ultimately show "digit d = CHR ''0''" by (simp only: of_char_eq_iff)
qed

lemma hd_show_nat: "hd (show_nat n) = CHR ''0'' \<longleftrightarrow> n = 0"
proof (induction n rule: show_nat.induct)
  case (1 n)
  show ?case
    using 1 by (cases "n < 10") (simp_all add: show_nat.simps [of n] digit_eq_0)
qed

lemma c_number_show [simp]: "c_number (show_nat n) = Some n"
proof -
  obtain c cs where s: "show_nat n = c # cs" by (cases "show_nat n") auto
  have all: "\<And>x. x \<in> set (show_nat n) \<Longrightarrow> is_digit x" by (rule show_nat_digits)
  have "number_in 10 0 (show_nat n) = Some n"
    using number_in_digits [OF all] by (simp add: digits_val_show)
  moreover have "cs = []" if "c = CHR ''0''"
  proof -
    from that s have "n = 0" using hd_show_nat [of n] by simp
    with s show ?thesis by (simp add: show_nat.simps)
  qed
  moreover have "is_digit c" using all s by simp
  ultimately show ?thesis using s by (auto simp: c_number_def)
qed

lemma inet_addr_dotted:
  assumes "a < 256" "b < 256" "c < 256" "d < 256"
  shows "inet_addr (dotted a b c d) = pack_bytes a b c d"
proof -
  have t: "takeWhile (\<lambda>c. \<not> is_space c) (dotted a b c d) = dotted a b c d"
    by (auto simp: takeWhile_eq_all_conv dotted_def is_space_def dest: show_nat_no_space)
  have "split_dots [] (dotted a b c d) = [show_nat a, show_nat b, show_nat c, show_nat d]"
    by (simp add: dotted_def split_dots_dot split_dots_no_dot)
  then show ?thesis using assms unfolding inet_addr_def t by simp
qed

lemma byte_of_low: "a < 256 \<Longrightarrow> byte_of 0 (a + 256 * x) = a"
  by (simp add: byte_of_def)

lemma byte_of_high: "a < 256 \<Longrightarrow> byte_of (Suc i) (a + 256 * x) = byte_of i x"
  by (simp add: byte_of_def power_add div_mult2_eq)

lemma byte_of_top: "d < 256 \<Longrightarrow> byte_of 0 d = d"
  by (simp add: byte_of_def)

lemma unat_pack:
  assumes "a < 256" "b < 256" "c < 256" "d < 256"
  shows "unat (pack_bytes a b c d) = a + 256 * (b + 256 * (c + 256 * d))"
proof -
  have "a + 2 ^ 8 * b + 2 ^ 16 * c + 2 ^ 24 * d < 2 ^ 32" using assms by simp
  then have "unat (pack_bytes a b c d) = a + 2 ^ 8 * b + 2 ^ 16 * c + 2 ^ 24 * d"
    unfolding pack_bytes_def by (subst unat_of_nat) (rule mod_less, simp)
  then show ?thesis by simp
qed

lemma byte_of_pack:
  assumes "a < 256" "b < 256" "c < 256" "d < 256"
  shows "byte_of 0 (unat (pack_bytes a b c d)) = a" and "byte_of 1 (unat (pack_bytes a b c d)) = b"
    and "byte_of 2 (unat (pack_bytes a b c d)) = c" and "byte_of 3 (unat (pack_bytes a b c d)) = d"
  unfolding unat_pack [OF assms] using assms
  by (simp_all only: byte_of_low byte_of_high byte_of_top One_nat_def numeral_2_eq_2 numeral_3_eq_3)

lemma inet_roundtrip:
  "a < 256 \<Longrightarrow> b < 256 \<Longrightarrow> c < 256 \<Longrightarrow> d < 256 \<Longrightarrow> inet_ntop (inet_addr (dotted a b c d)) = dotted a b c d"
  by (simp only: inet_addr_dotted inet_ntop_def byte_of_pack Let_def)

lemma length_dotted:
  assumes "a < 256" "b < 256" "c < 256" "d < 256"
  shows "length (dotted a b c d) \<le> 15"
  using assms length_show_nat [of a 3] length_show_nat [of b 3] length_show_nat [of c 3] length_show_nat [of d 3]
  by (simp add: dotted_def)

lemma length_port: "length (show_nat (unat (p :: 16 word))) \<le> 5"
  using length_show_nat [of "unat p" 5] unsigned_less [of p, where 'a = nat] by simp

lemma toIpPort_ok:
  "\<exists>s. toIpPort a = Inr s \<and> s = toIp a @ '':'' @ show_nat (unat (toPort a)) \<and> length s \<le> 21"
proof -
  have "length (inet_ntop (sin_addr a)) \<le> 15" by (simp add: inet_ntop_def Let_def length_dotted)
  with length_port [of "ntohs (sin_port a)"] show ?thesis
    by (simp add: toIpPort_def toIp_def toPort_def Let_def)
qed


section \<open>Properties\<close>

text \<open>
  C8. An address made from four bytes in dotted notation and a port prints as exactly that address
  and port, through both byte orders: \<open>toIp\<close>, \<open>toPort\<close> and \<open>toIpPort\<close> undo the constructor.
\<close>

theorem address_roundtrip:
  assumes "a < 256" and "b < 256" and "c < 256" and "d < 256"
  shows "toIp (new_InetAddress port (dotted a b c d)) = dotted a b c d \<and>
    toPort (new_InetAddress port (dotted a b c d)) = port \<and>
    toIpPort (new_InetAddress port (dotted a b c d)) = Inr (dotted a b c d @ '':'' @ show_nat (unat port))"
proof -
  let ?x = "new_InetAddress port (dotted a b c d)"
  have ip: "toIp ?x = dotted a b c d"
    using inet_roundtrip [OF assms] by (simp add: toIp_def new_InetAddress_def)
  have port: "toPort ?x = port"
    by (simp add: toPort_def new_InetAddress_def)
  show ?thesis using toIpPort_ok [of ?x] by (auto simp only: ip port)
qed

theorem address_roundtrip_witness:
  "toIpPort (new_InetAddress 8000 (dotted 127 0 0 1)) = Inr (dotted 127 0 0 1 @ '':'' @ show_nat (unat (8000 :: 16 word)))"
  using address_roundtrip [of 127 0 0 1 8000] by simp

end
