(* ===== verification/TcpConnection.thy ===== *)
theory TcpConnection
  imports Buffer EventLoop InetAddress
begin

text \<open>
  One TCP connection: \<^verbatim>\<open>src/src/TcpConnection.h\<close> and \<^verbatim>\<open>src/src/TcpConnection.cc\<close>. Connections and
  channels are numbered like objects on the heap; \<open>conns\<close> is the store of connections. A bound
  call is a value of \<open>loop_functor\<close>, a channel callback a value of \<open>chan_cb\<close>. The callbacks of the
  application are numbers, run by the argument \<open>app\<close>, about which nothing is assumed; the close
  callback of the server is run by the argument \<open>clo\<close>. What \<open>readv\<close> and \<open>write\<close> did is an
  argument of the handler that calls them. The world also records what the kernel accepted on a
  descriptor (\<open>sent\<close>) and which descriptors were shut down for writing (\<open>shut_wr\<close>).
\<close>

datatype conn_state = kDisconnected | kConnecting | kConnected | kDisconnecting

text \<open>
  \<open>SendInLoop c mem len\<close> is \<open>bind(&TcpConnection::sendInLoop, this, buf.c_str(), buf.size())\<close>,
  with the memory the pointer leads to.
\<close>

datatype loop_functor =
    SendInLoop nat string size_t
  | ShutdownInLoop nat
  | ConnectionEstablished nat
  | ConnectionDestroyed nat
  | WriteComplete nat nat
  | HighWaterMark nat nat size_t
  | RemoveConnectionInLoop nat
  | AcceptorListen

datatype chan_cb = WakeupRead loop_id | ConnRead nat | ConnWrite nat | ConnClose nat | ConnError nat | AcceptRead

text \<open>Calls of the application's callbacks; the first number is the callback.\<close>

datatype ucall = OnConnection nat nat | OnMessage nat nat int | OnWriteComplete nat nat | OnHighWaterMark nat nat size_t

text \<open>The close callback a server sets.\<close>

datatype close_cb = RemoveConnection

record tcpconn =
  tc_loop :: loop_id
  tc_name :: string
  tc_state :: conn_state
  tc_reading :: bool
  tc_socket :: fd
  tc_channel :: nat
  localAddr :: sockaddr_in
  peerAddr :: sockaddr_in
  tc_connectionCallback :: "nat option"
  tc_messageCallback :: "nat option"
  tc_writeCompleteCallback :: "nat option"
  tc_highWaterMarkCallback :: "nat option"
  tc_closeCallback :: "close_cb option"
  highWaterMark :: size_t
  inputBuffer :: buffer
  outputBuffer :: buffer

record conn_world = "(loop_functor, chan_cb) reactor" +
  conns :: "nat \<Rightarrow> tcpconn"
  sent :: "fd \<Rightarrow> string"
  shut_wr :: "fd set"
  keepAlive :: "fd set"

type_synonym 'z handler = "'z conn_world_scheme \<Rightarrow> 'z conn_world_scheme result"

definition upd_conn :: "nat \<Rightarrow> (tcpconn \<Rightarrow> tcpconn) \<Rightarrow> 'z conn_world_scheme \<Rightarrow> 'z conn_world_scheme" where
  "upd_conn c g w = w\<lparr>conns := (conns w)(c := g (conns w c))\<rparr>"

definition setState :: "nat \<Rightarrow> conn_state \<Rightarrow> 'z conn_world_scheme \<Rightarrow> 'z conn_world_scheme" where
  "setState c s w = upd_conn c (\<lambda>x. x\<lparr>tc_state := s\<rparr>) w"

definition conn_chan :: "'z conn_world_scheme \<Rightarrow> nat \<Rightarrow> chan_cb channel" where
  "conn_chan w c = chans w (tc_channel (conns w c))"


section \<open>Construction\<close>

definition CheckLoopNotNull :: "loop_id option \<Rightarrow> loop_id result" where
  "CheckLoopNotNull loop = (case loop of None \<Rightarrow> Inl Exited | Some l \<Rightarrow> Inr l)"

definition setKeepAlive :: "fd \<Rightarrow> bool \<Rightarrow> 'z conn_world_scheme \<Rightarrow> 'z conn_world_scheme" where
  "setKeepAlive s on w = w\<lparr>keepAlive := (if on then insert s (keepAlive w) else keepAlive w - {s})\<rparr>"

text \<open>The connection \<open>c\<close> and its channel \<open>ch\<close> are the fresh objects the constructor makes.\<close>

definition new_TcpConnection :: "nat \<Rightarrow> nat \<Rightarrow> loop_id option \<Rightarrow> string \<Rightarrow> fd \<Rightarrow> sockaddr_in \<Rightarrow> sockaddr_in \<Rightarrow> 'z handler" where
  "new_TcpConnection c ch loop nameArg sockfd local peer w =
     (case CheckLoopNotNull loop of
        Inl e \<Rightarrow> Inl e
      | Inr l \<Rightarrow>
          let conn = \<lparr>tc_loop = l, tc_name = nameArg, tc_state = kConnecting, tc_reading = True,
                      tc_socket = sockfd, tc_channel = ch, localAddr = local, peerAddr = peer,
                      tc_connectionCallback = None, tc_messageCallback = None,
                      tc_writeCompleteCallback = None, tc_highWaterMarkCallback = None,
                      tc_closeCallback = None, highWaterMark = 64 * 1024 * 1024,
                      inputBuffer = new_Buffer kInitialSize, outputBuffer = new_Buffer kInitialSize\<rparr>;
              chan = (new_Channel l sockfd)\<lparr>readCallback := Some (ConnRead c), writeCallback := Some (ConnWrite c),
                      closeCallback := Some (ConnClose c), errorCallback := Some (ConnError c)\<rparr>
          in Inr (setKeepAlive sockfd True
                   (w\<lparr>conns := (conns w)(c := conn), chans := (chans w)(ch := chan)\<rparr>)))"

definition setConnectionCallback :: "nat \<Rightarrow> nat option \<Rightarrow> 'z conn_world_scheme \<Rightarrow> 'z conn_world_scheme" where
  "setConnectionCallback c cb = upd_conn c (\<lambda>x. x\<lparr>tc_connectionCallback := cb\<rparr>)"

definition setMessageCallback :: "nat \<Rightarrow> nat option \<Rightarrow> 'z conn_world_scheme \<Rightarrow> 'z conn_world_scheme" where
  "setMessageCallback c cb = upd_conn c (\<lambda>x. x\<lparr>tc_messageCallback := cb\<rparr>)"

definition setWriteCompleteCallback :: "nat \<Rightarrow> nat option \<Rightarrow> 'z conn_world_scheme \<Rightarrow> 'z conn_world_scheme" where
  "setWriteCompleteCallback c cb = upd_conn c (\<lambda>x. x\<lparr>tc_writeCompleteCallback := cb\<rparr>)"

definition setHighWaterMarkCallback :: "nat \<Rightarrow> nat option \<Rightarrow> size_t \<Rightarrow> 'z conn_world_scheme \<Rightarrow> 'z conn_world_scheme" where
  "setHighWaterMarkCallback c cb mark = upd_conn c (\<lambda>x. x\<lparr>tc_highWaterMarkCallback := cb, highWaterMark := mark\<rparr>)"

definition setCloseCallback :: "nat \<Rightarrow> close_cb option \<Rightarrow> 'z conn_world_scheme \<Rightarrow> 'z conn_world_scheme" where
  "setCloseCallback c cb = upd_conn c (\<lambda>x. x\<lparr>tc_closeCallback := cb\<rparr>)"

definition connected :: "'z conn_world_scheme \<Rightarrow> nat \<Rightarrow> bool" where
  "connected w c = (tc_state (conns w c) = kConnected)"


section \<open>Calling a callback\<close>

text \<open>An empty \<open>std::function\<close> throws when it is called.\<close>

definition call_connectionCallback :: "(ucall \<Rightarrow> 'z handler) \<Rightarrow> nat \<Rightarrow> 'z handler" where
  "call_connectionCallback app c w =
     (case tc_connectionCallback (conns w c) of None \<Rightarrow> Inl BadFunctionCall | Some f \<Rightarrow> app (OnConnection f c) w)"

definition call_messageCallback :: "(ucall \<Rightarrow> 'z handler) \<Rightarrow> nat \<Rightarrow> int \<Rightarrow> 'z handler" where
  "call_messageCallback app c t w =
     (case tc_messageCallback (conns w c) of None \<Rightarrow> Inl BadFunctionCall | Some f \<Rightarrow> app (OnMessage f c t) w)"

definition call_closeCallback :: "(close_cb \<Rightarrow> nat \<Rightarrow> 'z handler) \<Rightarrow> nat \<Rightarrow> 'z handler" where
  "call_closeCallback clo c w =
     (case tc_closeCallback (conns w c) of None \<Rightarrow> Inl BadFunctionCall | Some f \<Rightarrow> clo f c w)"


section \<open>The event handlers\<close>

definition handleClose :: "(ucall \<Rightarrow> 'z handler) \<Rightarrow> (close_cb \<Rightarrow> nat \<Rightarrow> 'z handler) \<Rightarrow> nat \<Rightarrow> 'z handler" where
  "handleClose app clo c w =
     (let w1 = setState c kDisconnected w; w2 = disableAll (tc_channel (conns w1 c)) w1
      in then_do (call_connectionCallback app c w2) (call_closeCallback clo c))"

definition Conn_handleRead :: "(ucall \<Rightarrow> 'z handler) \<Rightarrow> (close_cb \<Rightarrow> nat \<Rightarrow> 'z handler) \<Rightarrow>
    nat \<Rightarrow> int \<Rightarrow> read_result \<Rightarrow> 'z handler" where
  "Conn_handleRead app clo c receiveTime r w =
     (case readFd (inputBuffer (conns w c)) r of
        Inl e \<Rightarrow> Inl e
      | Inr (n, savedErrno, b) \<Rightarrow>
          let w1 = upd_conn c (\<lambda>x. x\<lparr>inputBuffer := b\<rparr>) w in
          if n > 0 then call_messageCallback app c receiveTime w1
          else if n = 0 then handleClose app clo c w1
          else Inr w1)"

text \<open>\<open>Socket::shutdownWrite\<close>; the branch for a failed \<open>shutdown\<close> is empty, and a socket that is not connected has no write side left.\<close>

definition shutdownWrite :: "fd \<Rightarrow> 'z conn_world_scheme \<Rightarrow> 'z conn_world_scheme" where
  [simp]: "shutdownWrite s w = w\<lparr>shut_wr := insert s (shut_wr w)\<rparr>"

definition shutdownInLoop :: "nat \<Rightarrow> 'z conn_world_scheme \<Rightarrow> 'z conn_world_scheme" where
  "shutdownInLoop c w =
     (if \<not> isWriting (conn_chan w c) then shutdownWrite (tc_socket (conns w c)) w else w)"

definition queue_writeComplete :: "tid \<Rightarrow> nat \<Rightarrow> 'z conn_world_scheme \<Rightarrow> 'z conn_world_scheme" where
  "queue_writeComplete cur c w =
     (case tc_writeCompleteCallback (conns w c) of
        Some f \<Rightarrow> queueInLoop cur (tc_loop (conns w c)) (WriteComplete f c) w
      | None \<Rightarrow> w)"

definition handleWrite :: "tid \<Rightarrow> nat \<Rightarrow> write_result \<Rightarrow> 'z handler" where
  "handleWrite cur c r w =
     (if isWriting (conn_chan w c) then
        (case writeFd (outputBuffer (conns w c)) r of
           Inl e \<Rightarrow> Inl e
         | Inr (n, saveErrno, out) \<Rightarrow>
             let fd = ch_fd (conn_chan w c); w0 = w\<lparr>sent := (sent w)(fd := sent w fd @ out)\<rparr> in
             if n > 0 then
               let w1 = upd_conn c (\<lambda>x. x\<lparr>outputBuffer := retrieve (outputBuffer x) (of_int n)\<rparr>) w0 in
               if readableBytes (outputBuffer (conns w1 c)) = 0 then
                 let w2 = disableWriting (tc_channel (conns w1 c)) w1;
                     w3 = queue_writeComplete cur c w2
                 in Inr (if tc_state (conns w3 c) = kDisconnecting then shutdownInLoop c w3 else w3)
               else Inr w1
             else Inr w0)
      else Inr w)"

text \<open>\<open>handleError\<close> reads \<open>SO_ERROR\<close> into a local variable and ends: it changes nothing of ours.\<close>

definition handleError :: "nat \<Rightarrow> 'z conn_world_scheme \<Rightarrow> 'z conn_world_scheme" where
  "handleError c w = w"


section \<open>Sending\<close>

text \<open>
  \<open>sendInLoop\<close> on the bytes \<open>mem\<close> at \<open>message\<close>. \<open>len - nwrote\<close> is a \<open>size_t\<close>, so an error
  (\<open>nwrote = -1\<close>) leaves \<open>remaining = len + 1\<close>.
\<close>

definition send_write :: "tid \<Rightarrow> nat \<Rightarrow> string \<Rightarrow> size_t \<Rightarrow> write_result \<Rightarrow> 'z conn_world_scheme \<Rightarrow>
    (nat \<times> size_t \<times> bool \<times> 'z conn_world_scheme)" where
  "send_write cur c mem len r w =
     (case r of
        Wrote n \<Rightarrow>
          let fd = ch_fd (conn_chan w c); w1 = w\<lparr>sent := (sent w)(fd := sent w fd @ take n mem)\<rparr>;
              remaining = len - of_nat n
          in (n, remaining, False, if remaining = 0 then queue_writeComplete cur c w1 else w1)
      | WriteErr e \<Rightarrow> (0, len - (-1), e \<noteq> EWOULDBLOCK \<and> (e = EPIPE \<or> e = ECONNRESET), w))"

definition sendInLoop :: "tid \<Rightarrow> nat \<Rightarrow> string \<Rightarrow> size_t \<Rightarrow> write_result \<Rightarrow> 'z handler" where
  "sendInLoop cur c mem len r w =
     (if tc_state (conns w c) = kDisconnected then Inr w
      else
        let (nwrote, remaining, faultError, w1) =
              (if \<not> isWriting (conn_chan w c) \<and> readableBytes (outputBuffer (conns w c)) = 0
               then send_write cur c mem len r w else (0, len, False, w))
        in if faultError \<and> remaining > 0 then
             let x = conns w1 c; old_len = readableBytes (outputBuffer x) in
             (case tc_highWaterMarkCallback x of
                Some f \<Rightarrow>
                  if old_len + remaining \<ge> highWaterMark x \<and> old_len < highWaterMark x then
                    let w2 = queueInLoop cur (tc_loop x) (HighWaterMark f c (old_len + remaining)) w1 in
                    (case Buffer_append (outputBuffer x) (drop nwrote mem) remaining of
                       Inl e \<Rightarrow> Inl e
                     | Inr b \<Rightarrow>
                         let w3 = upd_conn c (\<lambda>y. y\<lparr>outputBuffer := b\<rparr>) w2 in
                         Inr (if \<not> isWriting (conn_chan w3 c) then enableWriting (tc_channel (conns w3 c)) w3 else w3))
                  else Inr w1
              | None \<Rightarrow> Inr w1)
           else Inr w1)"

text \<open>A string's \<open>c_str()\<close> leads to its bytes and a terminator.\<close>

definition TcpConnection_send :: "tid \<Rightarrow> nat \<Rightarrow> string \<Rightarrow> write_result \<Rightarrow> 'z handler" where
  "TcpConnection_send cur c buf r w =
     (if tc_state (conns w c) = kConnected then
        (if isInLoopThread cur (loops w (tc_loop (conns w c)))
         then sendInLoop cur c (buf @ [NUL]) (of_nat (length buf)) r w
         else runInLoop (\<lambda>_. sendInLoop cur c (buf @ [NUL]) (of_nat (length buf)) r) cur (tc_loop (conns w c))
                (SendInLoop c (buf @ [NUL]) (of_nat (length buf))) w)
      else Inr w)"

definition TcpConnection_shutdown :: "tid \<Rightarrow> nat \<Rightarrow> 'z handler" where
  "TcpConnection_shutdown cur c w =
     (if tc_state (conns w c) = kConnected then
        let w1 = setState c kDisconnecting w in
        runInLoop (\<lambda>_ w. Inr (shutdownInLoop c w)) cur (tc_loop (conns w1 c)) (ShutdownInLoop c) w1
      else Inr w)"


section \<open>Establishing and destroying\<close>

definition connectionEstablished :: "(ucall \<Rightarrow> 'z handler) \<Rightarrow> nat \<Rightarrow> 'z handler" where
  "connectionEstablished app c w =
     (let w1 = setState c kConnected w; ch = tc_channel (conns w1 c);
          w2 = w1\<lparr>chans := (chans w1)(ch := tie c (chans w1 ch))\<rparr>
      in call_connectionCallback app c (enableReading ch w2))"

text \<open>
  The condition of \<open>connnectionDestroyed\<close> is the assignment \<open>state_ = kConnected\<close>; its value is
  the number of \<open>kConnected\<close>, which is not zero.
\<close>

definition state_number :: "conn_state \<Rightarrow> int" where
  "state_number s = (case s of kDisconnected \<Rightarrow> 0 | kConnecting \<Rightarrow> 1 | kConnected \<Rightarrow> 2 | kDisconnecting \<Rightarrow> 3)"

definition connnectionDestroyed :: "(close_cb \<Rightarrow> nat \<Rightarrow> 'z handler) \<Rightarrow> nat \<Rightarrow> 'z handler" where
  "connnectionDestroyed clo c w =
     (let w1 = setState c kConnected w in
      then_do
        (if state_number (tc_state (conns w1 c)) \<noteq> 0
         then call_closeCallback clo c (disableAll (tc_channel (conns w1 c)) (setState c kDisconnected w1))
         else Inr w1)
        (\<lambda>w2. Inr (Channel_remove (tc_channel (conns w2 c)) w2)))"


section \<open>Frame facts\<close>

lemma upd_conn_frame [simp]:
  "chans (upd_conn c g w) = chans w" "pollers (upd_conn c g w) = pollers w" "loops (upd_conn c g w) = loops w"
  "sent (upd_conn c g w) = sent w" "shut_wr (upd_conn c g w) = shut_wr w"
  "conns (upd_conn c g w) = (conns w)(c := g (conns w c))"
  by (simp_all add: upd_conn_def)

lemma setState_frame [simp]:
  "chans (setState c s w) = chans w" "pollers (setState c s w) = pollers w" "loops (setState c s w) = loops w"
  "sent (setState c s w) = sent w" "shut_wr (setState c s w) = shut_wr w"
  "conns (setState c s w) = (conns w)(c := (conns w c)\<lparr>tc_state := s\<rparr>)"
  by (simp_all add: setState_def)

lemma switch_events_frame [simp]:
  "conns (switch_events ch e w) = conns w" "sent (switch_events ch e w) = sent w"
  "shut_wr (switch_events ch e w) = shut_wr w"
  by (simp_all add: switch_events_def Let_def)

lemma loops_switch_events [simp]: "loops (switch_events ch e w) = loops w"
  by (simp add: switch_events_def Let_def)

lemma queueInLoop_conn_frame [simp]:
  "conns (queueInLoop cur l f w) = conns w" "sent (queueInLoop cur l f w) = sent w"
  "shut_wr (queueInLoop cur l f w) = shut_wr w"
  by (simp_all add: queueInLoop_def upd_loop_def)

lemma Channel_remove_conn_frame [simp]:
  "conns (Channel_remove ch w) = conns w" "sent (Channel_remove ch w) = sent w"
  "shut_wr (Channel_remove ch w) = shut_wr w"
  by (simp_all add: Channel_remove_def EventLoop_removeChannel_def split: prod.splits)

lemma ch_events_switch [simp]:
  "ch_events (chans (switch_events ch e w) ch') = (if ch' = ch then e else ch_events (chans w ch'))"
  by (simp add: switch_events_def change_events_defs Let_def)

lemma ch_fd_switch [simp]: "ch_fd (chans (switch_events ch e w) ch') = ch_fd (chans w ch')"
  by (simp add: switch_events_def change_events_defs Let_def)

lemma isWriting_events: "isWriting ch = (ch_events ch AND kWriteEvent \<noteq> 0)"
  by (fact isWriting_def)

lemma mask_out_writing [simp]: "((e :: events) AND NOT kWriteEvent) AND kWriteEvent = 0"
  by (auto simp: bit_eq_iff bit_simps)

lemma mask_in_writing [simp]: "((e :: events) OR kWriteEvent) AND kWriteEvent \<noteq> 0"
proof -
  have "(e OR kWriteEvent) AND kWriteEvent = kWriteEvent" by (auto simp: bit_eq_iff bit_simps)
  then show ?thesis by (simp add: event_masks)
qed

lemma kWriteEvent_neq_0 [simp]: "kWriteEvent \<noteq> 0"
  by (simp add: event_masks)

lemma queue_writeComplete_frame [simp]:
  "conns (queue_writeComplete cur c w) = conns w" "sent (queue_writeComplete cur c w) = sent w"
  "shut_wr (queue_writeComplete cur c w) = shut_wr w" "chans (queue_writeComplete cur c w) = chans w"
  "l = tc_loop (conns w c) \<Longrightarrow> pendingFunctors (loops (queue_writeComplete cur c w) l) =
     pendingFunctors (loops w l) @
       (case tc_writeCompleteCallback (conns w c) of Some f \<Rightarrow> [WriteComplete f c] | None \<Rightarrow> [])"
  by (simp_all add: queue_writeComplete_def split: option.splits)

lemma readableBytes_0_iff: "buffer_inv b \<Longrightarrow> readableBytes b = 0 \<longleftrightarrow> contents b = []"
  using length_contents [of b] by (metis length_0_conv unat_0 unat_eq_zero)


section \<open>The connection invariant\<close>

text \<open>
  Both buffers are sound, the channel and the socket have one descriptor, and the connection is
  interested in writing exactly while output is waiting.
\<close>

definition conn_inv :: "'z conn_world_scheme \<Rightarrow> nat \<Rightarrow> bool" where
  "conn_inv w c \<longleftrightarrow>
     buffer_inv (inputBuffer (conns w c)) \<and> buffer_inv (outputBuffer (conns w c)) \<and>
     ch_fd (conn_chan w c) = tc_socket (conns w c) \<and>
     (isWriting (conn_chan w c) \<longleftrightarrow> contents (outputBuffer (conns w c)) \<noteq> [])"

text \<open>What \<open>write(2)\<close> guarantees: it takes at most the bytes it was given.\<close>

fun wrote_ok :: "nat \<Rightarrow> write_result \<Rightarrow> bool" where
  "wrote_ok len (Wrote n) \<longleftrightarrow> n \<le> len"
| "wrote_ok len (WriteErr e) \<longleftrightarrow> True"

fun wrote :: "write_result \<Rightarrow> nat" where
  "wrote (Wrote n) = n"
| "wrote (WriteErr e) = 0"

definition out_pending :: "'z conn_world_scheme \<Rightarrow> nat \<Rightarrow> string" where
  "out_pending w c = contents (outputBuffer (conns w c))"

lemma conn_inv_new:
  "new_TcpConnection c ch l name s local peer w = Inr w' \<Longrightarrow>
     conn_inv w' c \<and> out_pending w' c = [] \<and> tc_state (conns w' c) = kConnecting"
  by (auto simp: new_TcpConnection_def CheckLoopNotNull_def Let_def setKeepAlive_def conn_inv_def conn_chan_def
      new_Channel_def isWriting_def out_pending_def kInitialSize_def intro!: new_Buffer_inv split: option.splits)

lemma handleWrite_ok:
  assumes inv: "conn_inv w c" and ok: "wrote_ok (length (out_pending w c)) r"
    and pend: "out_pending w c \<noteq> []"
  shows "\<exists>w'. handleWrite cur c r w = Inr w' \<and> conn_inv w' c \<and>
     out_pending w' c = drop (wrote r) (out_pending w c) \<and>
     sent w' (tc_socket (conns w c)) = sent w (tc_socket (conns w c)) @ take (wrote r) (out_pending w c) \<and>
     tc_state (conns w' c) = tc_state (conns w c) \<and> tc_socket (conns w' c) = tc_socket (conns w c) \<and>
     (tc_socket (conns w c) \<in> shut_wr w' \<longleftrightarrow>
        tc_socket (conns w c) \<in> shut_wr w \<or> (out_pending w' c = [] \<and> tc_state (conns w c) = kDisconnecting)) \<and>
     pendingFunctors (loops w' (tc_loop (conns w c))) = pendingFunctors (loops w (tc_loop (conns w c))) @
       (if out_pending w' c = []
        then (case tc_writeCompleteCallback (conns w c) of Some f \<Rightarrow> [WriteComplete f c] | None \<Rightarrow> []) else [])"
proof (cases r)
  case (WriteErr e)
  have "writeFd (outputBuffer (conns w c)) (WriteErr e) = Inr (-1, Some e, [])"
    using inv by (auto simp: conn_inv_def writeFd_def buffer_inv_def)
  with inv pend WriteErr show ?thesis
    by (auto simp: handleWrite_def conn_inv_def Let_def out_pending_def conn_chan_def)
next
  case (Wrote n)
  let ?x = "conns w c" and ?b = "outputBuffer (conns w c)"
  have b: "buffer_inv ?b" and fd: "ch_fd (chans w (tc_channel ?x)) = tc_socket ?x"
    and wr: "isWriting (chans w (tc_channel ?x))"
    using inv pend by (auto simp: conn_inv_def out_pending_def conn_chan_def)
  have n: "n \<le> unat (readableBytes ?b)"
    using ok Wrote b by (simp add: out_pending_def del: unat_readableBytes)
  note wf = writeFd_ok [OF b n]
  show ?thesis
  proof (cases "n = 0")
    case True
    with wf wr fd inv pend Wrote show ?thesis
      by (auto simp: handleWrite_def conn_inv_def Let_def out_pending_def conn_chan_def)
  next
    case False
    let ?b' = "retrieve ?b (of_int (int n))"
    have "n < 2 ^ 64" using n unsigned_less [of "readableBytes ?b", where 'a = nat] by (simp del: unat_readableBytes)
    then have "unat (of_int (int n) :: size_t) = n" by (simp add: unat_of_nat_size)
    then have c': "contents ?b' = drop n (contents ?b)" using retrieve_contents [OF b] by simp
    have b': "buffer_inv ?b'" using b by blast
    have e: "readableBytes ?b' = 0 \<longleftrightarrow> drop n (contents ?b) = []"
      using readableBytes_0_iff [OF b'] c' by simp
    have e2: "contents ?b \<noteq> []" using pend by (simp add: out_pending_def)
    show ?thesis
      using False wf wr fd Wrote c' b' e e2 inv
      by (cases "drop n (contents ?b) = []")
        (auto simp: handleWrite_def conn_inv_def Let_def out_pending_def conn_chan_def switches
           shutdownInLoop_def isWriting_def simp del: drop_eq_Nil)
  qed
qed


section \<open>Sending and reading, branch by branch\<close>

abbreviation sock :: "'z conn_world_scheme \<Rightarrow> nat \<Rightarrow> fd" where
  "sock w c \<equiv> tc_socket (conns w c)"

abbreviation send_string :: "tid \<Rightarrow> nat \<Rightarrow> string \<Rightarrow> write_result \<Rightarrow> 'z handler" where
  "send_string cur c buf \<equiv> sendInLoop cur c (buf @ [NUL]) (of_nat (length buf))"

lemma take_mem: "n \<le> length buf \<Longrightarrow> take n (buf @ [NUL]) = take n buf"
  by simp

lemma idle_iff:
  assumes "conn_inv w c"
  shows "(\<not> isWriting (conn_chan w c) \<and> readableBytes (outputBuffer (conns w c)) = 0) \<longleftrightarrow> out_pending w c = []"
  using assms readableBytes_0_iff [of "outputBuffer (conns w c)"] by (auto simp: conn_inv_def out_pending_def)

lemma remaining_0_iff:
  assumes "n \<le> length buf" and "length buf < 2 ^ 64"
  shows "(of_nat (length buf) - of_nat n :: size_t) = 0 \<longleftrightarrow> n = length buf"
proof -
  have "(of_nat (length buf) - of_nat n :: size_t) = of_nat (length buf - n)"
    using assms by (simp add: of_nat_diff)
  moreover have "unat (of_nat (length buf - n) :: size_t) = length buf - n"
    using assms by (intro unat_of_nat_size) simp
  ultimately show ?thesis using assms by (auto simp: unat_eq_zero [symmetric])
qed

lemma send_string_wrote:
  assumes "conn_inv w c" and "tc_state (conns w c) \<noteq> kDisconnected" and "out_pending w c = []"
    and "n \<le> length buf" and "length buf < 2 ^ 64"
  shows "\<exists>w'. send_string cur c buf (Wrote n) w = Inr w' \<and> conns w' = conns w \<and> chans w' = chans w \<and>
     sent w' (sock w c) = sent w (sock w c) @ take n buf \<and>
     pendingFunctors (loops w' (tc_loop (conns w c))) = pendingFunctors (loops w (tc_loop (conns w c))) @
       (if n = length buf
        then (case tc_writeCompleteCallback (conns w c) of Some f \<Rightarrow> [WriteComplete f c] | None \<Rightarrow> []) else [])"
proof -
  have fd: "ch_fd (conn_chan w c) = sock w c" using assms(1) by (simp add: conn_inv_def)
  note idle = idle_iff [OF assms(1)]
  show ?thesis
    using assms(2-4) fd idle remaining_0_iff [OF assms(4,5)]
    by (simp add: sendInLoop_def send_write_def Let_def)
qed

lemma send_string_error:
  assumes "conn_inv w c" and "tc_state (conns w c) \<noteq> kDisconnected" and "out_pending w c = []"
    and "e \<noteq> EPIPE" and "e \<noteq> ECONNRESET"
  shows "send_string cur c buf (WriteErr e) w = Inr w"
  using assms(2-5) idle_iff [OF assms(1)] by (simp add: sendInLoop_def send_write_def Let_def)

lemma send_string_busy:
  assumes "conn_inv w c" and "out_pending w c \<noteq> []"
  shows "send_string cur c buf r w = Inr w"
  using assms(2) idle_iff [OF assms(1)] by (auto simp: sendInLoop_def Let_def)

lemma send_string_fault:
  assumes inv: "conn_inv w c" and st: "tc_state (conns w c) \<noteq> kDisconnected" and pend: "out_pending w c = []"
    and e: "e = EPIPE \<or> e = ECONNRESET" and cb: "tc_highWaterMarkCallback (conns w c) = Some f"
    and mark: "0 < highWaterMark (conns w c)" "unat (highWaterMark (conns w c)) \<le> Suc (length buf)"
    and room: "room_for (outputBuffer (conns w c)) (Suc (length buf))"
  shows "\<exists>w'. send_string cur c buf (WriteErr e) w = Inr w' \<and> out_pending w' c = buf @ [NUL] \<and> conn_inv w' c"
proof -
  let ?x = "conns w c" and ?len = "of_nat (length buf) :: size_t"
  have len: "Suc (length buf) < 2 ^ 64" using room by (simp add: room_for_def)
  have rem: "?len - (-1) = of_nat (Suc (length buf))" by simp
  have u: "unat (of_nat (Suc (length buf)) :: size_t) = Suc (length buf)" using len by (rule unat_of_nat_size)
  have b: "buffer_inv (outputBuffer ?x)" using inv by (simp add: conn_inv_def)
  have fd: "ch_fd (chans w (tc_channel ?x)) = tc_socket ?x" using inv by (simp add: conn_inv_def conn_chan_def)
  have idle: "\<not> isWriting (chans w (tc_channel ?x))" "readableBytes (outputBuffer ?x) = 0"
    using idle_iff [OF inv] pend by (auto simp: conn_chan_def)
  from Buffer_append_ok [OF b, of "of_nat (Suc (length buf))" "buf @ [NUL]"] room u obtain b' where
    b': "Buffer_append (outputBuffer ?x) (buf @ [NUL]) (of_nat (Suc (length buf))) = Inr b'" "buffer_inv b'"
    "contents b' = contents (outputBuffer ?x) @ buf @ [NUL]" by auto
  have c0: "contents (outputBuffer ?x) = []" using pend by (simp add: out_pending_def)
  have pos: "(of_nat (Suc (length buf)) :: size_t) > 0" using u by (simp add: word_less_nat_alt del: of_nat_Suc)
  have m: "highWaterMark ?x \<le> of_nat (Suc (length buf))"
    using mark(2) u by (simp add: word_le_nat_alt del: of_nat_Suc)
  show ?thesis
    using st e cb mark(1) b' c0 idle pos m fd inv unfolding sendInLoop_def send_write_def rem
    by (auto simp: Let_def conn_chan_def switches conn_inv_def out_pending_def isWriting_def simp del: of_nat_Suc)
qed

lemma handleClose_closes:
  assumes "tc_connectionCallback (conns w c) = Some f"
  shows "\<exists>w2. tc_state (conns w2 c) = kDisconnected \<and> isNoneEvent (conn_chan w2 c) \<and>
     handleClose app clo c w = then_do (app (OnConnection f c) w2) (call_closeCallback clo c)"
proof (intro exI conjI)
  let ?w2 = "disableAll (tc_channel (conns w c)) (setState c kDisconnected w)"
  show "tc_state (conns ?w2 c) = kDisconnected" by (simp add: switches)
  show "isNoneEvent (conn_chan ?w2 c)" by (simp add: switches isNoneEvent_def conn_chan_def)
  show "handleClose app clo c w = then_do (app (OnConnection f c) ?w2) (call_closeCallback clo c)"
    using assms by (simp add: handleClose_def call_connectionCallback_def Let_def switches)
qed


section \<open>Draining the output buffer\<close>

text \<open>Any number of write events on connection \<open>c\<close> while output is waiting.\<close>

inductive write_run :: "tid \<Rightarrow> nat \<Rightarrow> 'z conn_world_scheme \<Rightarrow> 'z conn_world_scheme \<Rightarrow> bool" for cur c w where
  write_start: "write_run cur c w w"
| write_event: "write_run cur c w w1 \<Longrightarrow> out_pending w1 c \<noteq> [] \<Longrightarrow> wrote_ok (length (out_pending w1 c)) r \<Longrightarrow>
     handleWrite cur c r w1 = Inr w2 \<Longrightarrow> write_run cur c w w2"

text \<open>What a run keeps: the output stream, and that the write side is shut only when it is empty.\<close>

definition flushing :: "'z conn_world_scheme \<Rightarrow> nat \<Rightarrow> 'z conn_world_scheme \<Rightarrow> bool" where
  "flushing w c w' \<longleftrightarrow>
     conn_inv w' c \<and> tc_state (conns w' c) = kDisconnecting \<and> sock w' c = sock w c \<and>
     sent w' (sock w c) @ out_pending w' c = sent w (sock w c) @ out_pending w c \<and>
     (sock w c \<in> shut_wr w' \<longleftrightarrow> out_pending w' c = [])"

lemma flushing_step:
  assumes "flushing w c w1" and "out_pending w1 c \<noteq> []" and "wrote_ok (length (out_pending w1 c)) r"
    and "handleWrite cur c r w1 = Inr w2"
  shows "flushing w c w2"
proof -
  have inv: "conn_inv w1 c" using assms(1) by (simp add: flushing_def)
  from handleWrite_ok [OF inv assms(3,2), of cur] assms(4)
  have "conn_inv w2 c" "out_pending w2 c = drop (wrote r) (out_pending w1 c)"
    "sent w2 (sock w1 c) = sent w1 (sock w1 c) @ take (wrote r) (out_pending w1 c)"
    "tc_state (conns w2 c) = tc_state (conns w1 c)" "sock w2 c = sock w1 c"
    "sock w1 c \<in> shut_wr w2 \<longleftrightarrow> sock w1 c \<in> shut_wr w1 \<or>
       (out_pending w2 c = [] \<and> tc_state (conns w1 c) = kDisconnecting)"
    by simp_all
  with assms(1,2) show ?thesis
    unfolding flushing_def by (metis append.assoc append_take_drop_id)
qed

lemma flushing_run: "write_run cur c w w' \<Longrightarrow> flushing w c w \<Longrightarrow> flushing w c w'"
proof (induction rule: write_run.induct)
  case (write_event w1 r w2)
  from flushing_step [OF write_event.IH [OF write_event.prems] write_event.hyps(2-4)] show ?case .
qed simp

text \<open>\<open>shutdown\<close> with output waiting only changes the state.\<close>

lemma shutdown_waits:
  assumes "conn_inv w c" and "tc_state (conns w c) = kConnected" and "out_pending w c \<noteq> []"
    and "isInLoopThread cur (loops w (tc_loop (conns w c)))"
  shows "TcpConnection_shutdown cur c w = Inr (setState c kDisconnecting w)"
  using assms by (simp add: TcpConnection_shutdown_def runInLoop_def Let_def shutdownInLoop_def conn_inv_def
      out_pending_def conn_chan_def)

lemma shutdown_idle:
  assumes "conn_inv w c" and "tc_state (conns w c) = kConnected" and "out_pending w c = []"
    and "isInLoopThread cur (loops w (tc_loop (conns w c)))"
  shows "\<exists>w'. TcpConnection_shutdown cur c w = Inr w' \<and> sock w c \<in> shut_wr w'"
  using assms by (simp add: TcpConnection_shutdown_def runInLoop_def Let_def shutdownInLoop_def conn_inv_def
      out_pending_def conn_chan_def)


section \<open>Properties\<close>

text \<open>A connection just made, on a loop of thread 1; the application does nothing.\<close>

definition bare_loop :: "loop_functor eventloop" where
  "bare_loop = \<lparr>looping = True, quit_flag = False, callingPendingFunctors = False, threadId = 1,
     pollReturnTime = 0, wakeupFd = 5, wakeupChannel = 0, wakeupCount = 0, activeChannels = [],
     pendingFunctors = []\<rparr>"

definition bare_conn :: tcpconn where
  "bare_conn = \<lparr>tc_loop = 0, tc_name = ''c'', tc_state = kConnected, tc_reading = True, tc_socket = 9,
     tc_channel = 1, localAddr = new_InetAddress 1 ''127.0.0.1'', peerAddr = new_InetAddress 2 ''127.0.0.1'',
     tc_connectionCallback = Some 0, tc_messageCallback = Some 1, tc_writeCompleteCallback = Some 2,
     tc_highWaterMarkCallback = Some 3, tc_closeCallback = Some RemoveConnection, highWaterMark = 2,
     inputBuffer = new_Buffer 4, outputBuffer = new_Buffer 4\<rparr>"

definition bare_world :: conn_world where
  "bare_world = \<lparr>chans = (\<lambda>c. new_Channel 0 9), pollers = (\<lambda>l. new_EpollPoller), loops = (\<lambda>l. bare_loop),
     loopInThisThread = Map.empty, conns = (\<lambda>c. bare_conn), sent = (\<lambda>f. []), shut_wr = {}, keepAlive = {}\<rparr>"

lemma bare_world_inv: "conn_inv bare_world 0"
  using new_Buffer_inv [of 4]
  by (simp add: conn_inv_def bare_world_def bare_conn_def conn_chan_def new_Channel_def isWriting_def)

lemma bare_world_pending: "out_pending bare_world 0 = []"
  by (simp add: out_pending_def bare_world_def bare_conn_def)

lemma bare_world_room: "n < 1000 \<Longrightarrow> room_for (outputBuffer (conns bare_world 0)) n"
  "n < 1000 \<Longrightarrow> room_for (inputBuffer (conns bare_world 0)) n"
  by (simp_all add: room_for_def bare_world_def bare_conn_def length_new_Buffer)

text \<open>The same connection with two bytes waiting.\<close>

definition two_bytes :: buffer where
  "two_bytes = \<lparr>buffer_data = replicate 8 NUL @ ''ab'', readerIndex = 8, writerIndex = 10\<rparr>"

definition waiting_world :: conn_world where
  "waiting_world = bare_world\<lparr>chans := (\<lambda>c. (new_Channel 0 9)\<lparr>ch_events := kWriteEvent\<rparr>),
     conns := (\<lambda>c. bare_conn\<lparr>outputBuffer := two_bytes\<rparr>)\<rparr>"

lemma waiting_world_eq:
  "out_pending waiting_world 0 = ''ab''" "conn_inv waiting_world 0"
  "tc_state (conns waiting_world 0) = kConnected" "sock waiting_world 0 \<notin> shut_wr waiting_world"
  "isInLoopThread 1 (loops waiting_world (tc_loop (conns waiting_world 0)))"
  using new_Buffer_inv [of 4]
  by (simp_all add: out_pending_def waiting_world_def bare_world_def bare_conn_def bare_loop_def two_bytes_def
      contents_def seg_def conn_inv_def conn_chan_def buffer_inv_def kCheapPrepend_def new_Channel_def
      isWriting_def isInLoopThread_def)

text \<open>
  C9. A write event writes the oldest waiting bytes and keeps the rest: after \<open>handleWrite\<close> with
  any outcome of \<open>write\<close> the bytes the kernel has accepted followed by the bytes waiting are the
  same stream as before, the connection stays interested in writing exactly while bytes wait, and
  when the last byte is gone the write-complete callback is queued and, on a connection being shut
  down, the write side is closed.
\<close>

theorem handleWrite_spec:
  assumes "conn_inv w c" and "out_pending w c \<noteq> []" and "wrote_ok (length (out_pending w c)) r"
  shows "\<exists>w'. handleWrite cur c r w = Inr w' \<and> conn_inv w' c \<and>
     out_pending w' c = drop (wrote r) (out_pending w c) \<and>
     sent w' (sock w c) @ out_pending w' c = sent w (sock w c) @ out_pending w c \<and>
     (isWriting (conn_chan w' c) \<longleftrightarrow> out_pending w' c \<noteq> []) \<and>
     (sock w c \<in> shut_wr w' \<longleftrightarrow>
        sock w c \<in> shut_wr w \<or> (out_pending w' c = [] \<and> tc_state (conns w c) = kDisconnecting)) \<and>
     pendingFunctors (loops w' (tc_loop (conns w c))) = pendingFunctors (loops w (tc_loop (conns w c))) @
       (if out_pending w' c = []
        then (case tc_writeCompleteCallback (conns w c) of Some f \<Rightarrow> [WriteComplete f c] | None \<Rightarrow> []) else [])"
proof -
  from handleWrite_ok [OF assms(1,3,2), of cur] obtain w' where w':
    "handleWrite cur c r w = Inr w'" "conn_inv w' c" "out_pending w' c = drop (wrote r) (out_pending w c)"
    "sent w' (sock w c) = sent w (sock w c) @ take (wrote r) (out_pending w c)"
    "sock w c \<in> shut_wr w' \<longleftrightarrow> sock w c \<in> shut_wr w \<or> (out_pending w' c = [] \<and> tc_state (conns w c) = kDisconnecting)"
    "pendingFunctors (loops w' (tc_loop (conns w c))) = pendingFunctors (loops w (tc_loop (conns w c))) @
       (if out_pending w' c = []
        then (case tc_writeCompleteCallback (conns w c) of Some f \<Rightarrow> [WriteComplete f c] | None \<Rightarrow> []) else [])"
    by blast
  have "sent w' (sock w c) @ out_pending w' c = sent w (sock w c) @ out_pending w c" by (simp add: w'(3,4))
  moreover have "isWriting (conn_chan w' c) \<longleftrightarrow> out_pending w' c \<noteq> []"
    using w'(2) by (simp add: conn_inv_def out_pending_def)
  ultimately show ?thesis using w'(1,2,3,5,6) by blast
qed

theorem handleWrite_spec_witness:
  "\<exists>w'. handleWrite 1 0 (Wrote 1) waiting_world = Inr w' \<and> out_pending w' 0 = ''b''"
  using handleWrite_spec [of waiting_world 0 "Wrote 1" 1] waiting_world_eq by auto

text \<open>
  C10. Shutting down does not cut off output: when \<open>shutdown\<close> is called in the loop thread while
  bytes wait, then after any sequence of write events the write side of the socket is closed if
  and only if every byte that was waiting has been handed to the kernel, in order.
\<close>

theorem shutdown_flushes_first:
  assumes "conn_inv w c" and "tc_state (conns w c) = kConnected" and "out_pending w c \<noteq> []"
    and "isInLoopThread cur (loops w (tc_loop (conns w c)))" and "sock w c \<notin> shut_wr w"
    and "TcpConnection_shutdown cur c w = Inr w1" and "write_run cur c w1 w2"
  shows "(sock w c \<in> shut_wr w2 \<longleftrightarrow> sent w2 (sock w c) = sent w (sock w c) @ out_pending w c) \<and>
    sent w2 (sock w c) @ out_pending w2 c = sent w (sock w c) @ out_pending w c"
proof -
  have w1: "w1 = setState c kDisconnecting w" using shutdown_waits [OF assms(1-4)] assms(6) by simp
  have "flushing w1 c w1"
    using assms(1,3,5) by (simp add: w1 flushing_def conn_inv_def conn_chan_def out_pending_def)
  from flushing_run [OF assms(7) this] show ?thesis
    by (auto simp: flushing_def w1 out_pending_def)
qed

theorem shutdown_flushes_first_witness:
  "\<exists>w1 w2. TcpConnection_shutdown 1 0 waiting_world = Inr w1 \<and> handleWrite 1 0 (Wrote 2) w1 = Inr w2 \<and>
     sent w2 9 @ out_pending w2 0 = ''ab''"
proof -
  let ?w = waiting_world and ?w1 = "setState 0 kDisconnecting waiting_world"
  note w = waiting_world_eq
  have shut: "TcpConnection_shutdown 1 0 ?w = Inr ?w1"
    by (rule shutdown_waits [OF w(2,3) _ w(5)]) (simp add: w(1))
  have pend: "out_pending ?w1 0 = ''ab''" using w(1) by (simp add: out_pending_def)
  have "conn_inv ?w1 0" using w(2) by (simp add: conn_inv_def conn_chan_def)
  from handleWrite_ok [OF this, of "Wrote 2" 1] pend obtain w2 where
    w2: "handleWrite 1 0 (Wrote 2) ?w1 = Inr w2" by auto
  have "write_run 1 0 ?w1 w2"
    by (rule write_run.write_event [OF write_run.write_start _ _ w2]) (simp_all add: pend)
  from shutdown_flushes_first [OF w(2,3) _ w(5,4) shut this] w(1) shut w2 show ?thesis
    by (simp add: waiting_world_def bare_world_def bare_conn_def)
qed



text \<open>
  After \<open>EPIPE\<close> or \<open>ECONNRESET\<close>, with a high-water-mark callback and a mark that the message
  and one byte reach, \<open>sendInLoop\<close> queues the message for a peer that is gone, together with the
  byte behind it, the terminator of the string.
\<close>

theorem send_fault_appends_terminator:
  assumes "conn_inv w c" and "tc_state (conns w c) = kConnected" and "out_pending w c = []"
    and "e = EPIPE \<or> e = ECONNRESET" and "tc_highWaterMarkCallback (conns w c) = Some f"
    and "0 < highWaterMark (conns w c)" and "unat (highWaterMark (conns w c)) \<le> Suc (length buf)"
    and "room_for (outputBuffer (conns w c)) (Suc (length buf))"
  shows "\<exists>w'. send_string cur c buf (WriteErr e) w = Inr w' \<and> out_pending w' c = buf @ [NUL]"
  using send_string_fault [OF assms(1) _ assms(3-8), of cur] assms(2) by auto

theorem send_fault_appends_terminator_witness:
  "\<exists>w'. send_string 1 0 ''ab'' (WriteErr EPIPE) bare_world = Inr w' \<and> out_pending w' 0 = ''ab'' @ [NUL]"
  by (rule send_fault_appends_terminator [OF bare_world_inv _ bare_world_pending, where f = 3])
    (simp_all add: bare_world_room, simp_all add: bare_world_def bare_conn_def)

text \<open>
  C12. A read event: data is appended to the input buffer and then the message callback runs; end
  of file marks the connection disconnected and removes every interest before the connection
  callback and then the close callback run; an error changes nothing.
\<close>

theorem conn_handleRead_outcomes:
  assumes "conn_inv w c" and "tc_connectionCallback (conns w c) = Some f" and "tc_messageCallback (conns w c) = Some g"
    and "room_for (inputBuffer (conns w c)) (length data)" and "data \<noteq> []"
  shows "(\<exists>w1. contents (inputBuffer (conns w1 c)) = contents (inputBuffer (conns w c)) @ data \<and> conn_inv w1 c \<and>
      Conn_handleRead app clo c t (ReadData data) w = app (OnMessage g c t) w1) \<and>
    (\<exists>w2. tc_state (conns w2 c) = kDisconnected \<and> isNoneEvent (conn_chan w2 c) \<and>
      Conn_handleRead app clo c t (ReadData []) w = then_do (app (OnConnection f c) w2) (call_closeCallback clo c)) \<and>
    Conn_handleRead app clo c t (ReadErr e) w = Inr w"
proof (intro conjI)
  have b: "buffer_inv (inputBuffer (conns w c))" using assms(1) by (simp add: conn_inv_def)
  from readFd_data [OF b assms(4)] obtain b' where
    b': "readFd (inputBuffer (conns w c)) (ReadData data) = Inr (int (length data), None, b')" "buffer_inv b'"
    "contents b' = contents (inputBuffer (conns w c)) @ data" by blast
  show "\<exists>w1. contents (inputBuffer (conns w1 c)) = contents (inputBuffer (conns w c)) @ data \<and> conn_inv w1 c \<and>
      Conn_handleRead app clo c t (ReadData data) w = app (OnMessage g c t) w1"
    using b' assms(1,3,5)
    by (intro exI [of _ "upd_conn c (\<lambda>x. x\<lparr>inputBuffer := b'\<rparr>) w"])
      (simp add: Conn_handleRead_def call_messageCallback_def conn_inv_def conn_chan_def)
  have "room_for (inputBuffer (conns w c)) (length ([] :: string))" using assms(4) by (simp add: room_for_def)
  from readFd_data [OF b this] obtain b0 where
    b0: "readFd (inputBuffer (conns w c)) (ReadData []) = Inr (0, None, b0)" by auto
  have "tc_connectionCallback (conns (upd_conn c (\<lambda>x. x\<lparr>inputBuffer := b0\<rparr>) w) c) = Some f"
    using assms(2) by simp
  from handleClose_closes [OF this, of app clo]
  show "\<exists>w2. tc_state (conns w2 c) = kDisconnected \<and> isNoneEvent (conn_chan w2 c) \<and>
      Conn_handleRead app clo c t (ReadData []) w = then_do (app (OnConnection f c) w2) (call_closeCallback clo c)"
    using b0 by (simp add: Conn_handleRead_def)
  show "Conn_handleRead app clo c t (ReadErr e) w = Inr w"
    by (simp add: Conn_handleRead_def readFd_def upd_conn_def)
qed

theorem conn_handleRead_outcomes_witness:
  "\<exists>w1. contents (inputBuffer (conns w1 0)) = ''hi'' \<and>
     Conn_handleRead (\<lambda>u w. Inr w) (\<lambda>f c w. Inr w) 0 7 (ReadData ''hi'') bare_world = Inr w1"
proof -
  have "tc_connectionCallback (conns bare_world 0) = Some 0" "tc_messageCallback (conns bare_world 0) = Some 1"
    "contents (inputBuffer (conns bare_world 0)) = []"
    by (simp_all add: bare_world_def bare_conn_def)
  with conn_handleRead_outcomes [OF bare_world_inv this(1,2) bare_world_room(2), of "''hi''" "\<lambda>u w. Inr w" "\<lambda>f c w. Inr w" 7]
  show ?thesis by auto
qed

end
