(* ===== verification/EventLoopThread.thy ===== *)
theory EventLoopThread
  imports CString Interleaving
begin

text \<open>
  Threads that run a loop: \<^verbatim>\<open>src/src/CurrentThread.cc\<close>, \<^verbatim>\<open>Thread.cc\<close>, \<^verbatim>\<open>EventLoopThread.cc\<close> and
  \<^verbatim>\<open>EventLoopThreadPool.cc\<close>. The start of a loop thread is a hand-over between two threads, by a
  semaphore and by a mutex with a condition variable; it is a step relation, one step per atomic
  operation. The pool is sequential code.
\<close>

section \<open>CurrentThread and Thread\<close>

text \<open>\<open>cacheTid\<close> and \<open>tid\<close>: the cached number, zero while unknown; \<open>gettid\<close> is the system's answer.\<close>

definition cacheTid :: "int \<Rightarrow> int \<Rightarrow> int" where
  "cacheTid gettid cached = (if cached = 0 then gettid else cached)"

definition CurrentThread_tid :: "int \<Rightarrow> int \<Rightarrow> int \<times> int" where
  "CurrentThread_tid gettid cached = (let c = (if cached = 0 then cacheTid gettid cached else cached) in (c, c))"

record thread =
  th_started :: bool
  th_joined :: bool
  th_detached :: bool
  th_tid :: int
  th_name :: string

text \<open>\<open>snprintf(buf, n, ...)\<close>: at most \<open>n - 1\<close> characters and a terminator.\<close>

definition snprintf :: "nat \<Rightarrow> string \<Rightarrow> string" where
  "snprintf n s = take (n - 1) s"

definition setDefaultName :: "int \<Rightarrow> thread \<Rightarrow> int \<times> thread" where
  "setDefaultName numCreated t =
     (let num = numCreated + 1 in
      (num, if th_name t = [] then t\<lparr>th_name := snprintf 32 (''Thread'' @ show_int num)\<rparr> else t))"

definition new_Thread :: "int \<Rightarrow> string \<Rightarrow> int \<times> thread" where
  "new_Thread numCreated name =
     setDefaultName numCreated
       \<lparr>th_started = False, th_joined = False, th_detached = False, th_tid = 0, th_name = name\<rparr>"

text \<open>\<open>join\<close> on a thread never started dereferences the null \<open>thread_\<close>.\<close>

definition Thread_join :: "thread \<Rightarrow> thread result" where
  "Thread_join t = (if th_started t then Inr (t\<lparr>th_joined := True\<rparr>) else Inl NullDeref)"

definition delete_Thread :: "thread \<Rightarrow> thread" where
  "delete_Thread t = (if th_started t \<and> \<not> th_joined t then t\<lparr>th_detached := True\<rparr> else t)"


section \<open>Starting a loop thread\<close>

text \<open>
  Where the calling thread is: in \<open>Thread::start\<close> waiting for the semaphore, about to lock the
  mutex, holding it before the test of \<open>loop_\<close>, waiting on the condition variable, back from
  \<open>startLoop\<close> with a loop.
\<close>

datatype caller_pc = SemWait | LockMutex | TestLoop | CondWait | Relock | Returned loop_id

text \<open>
  Where the new thread is: storing its id and posting the semaphore, constructing the loop,
  running the callback, locking the mutex, inside the critical section, notified, in
  \<open>loop.loop()\<close>, after it, done.
\<close>

datatype worker_pc = StoreTid | Construct | InitCallback | Lock | Publish | Notify | Looping | LockEnd | Clear | Ended

datatype party = Caller | Worker

record handover =
  caller :: caller_pc
  worker :: worker_pc
  sem :: nat
  mutex :: "party option"
  elt_loop :: "loop_id option"   \<comment> \<open>\<open>loop_\<close>\<close>
  elt_tid :: int                 \<comment> \<open>\<open>tid_\<close> of the \<open>Thread\<close>\<close>
  constructed :: bool
  cb_called :: bool
  quit_asked :: bool

text \<open>
  \<open>EventLoopThread::startLoop\<close> and \<open>threadFunc_\<close>: \<open>t\<close> is the new thread's id, \<open>l\<close> its loop, \<open>cb\<close>
  whether there is an init callback. A waiting thread may wake up without notice. The loop is
  left only when somebody has called \<open>quit\<close>, which is allowed at any time once it runs.
\<close>

inductive startLoop_step :: "int \<Rightarrow> loop_id \<Rightarrow> bool \<Rightarrow> handover \<Rightarrow> handover \<Rightarrow> bool" for t l cb where
  worker_tid: "worker s = StoreTid \<Longrightarrow>
     startLoop_step t l cb s (s\<lparr>elt_tid := t, sem := sem s + 1, worker := Construct\<rparr>)"
| worker_construct: "worker s = Construct \<Longrightarrow>
     startLoop_step t l cb s (s\<lparr>constructed := True, worker := InitCallback\<rparr>)"
| worker_callback: "worker s = InitCallback \<Longrightarrow>
     startLoop_step t l cb s (s\<lparr>cb_called := cb, worker := Lock\<rparr>)"
| worker_lock: "worker s = Lock \<Longrightarrow> mutex s = None \<Longrightarrow>
     startLoop_step t l cb s (s\<lparr>mutex := Some Worker, worker := Publish\<rparr>)"
| worker_publish: "worker s = Publish \<Longrightarrow>
     startLoop_step t l cb s (s\<lparr>elt_loop := Some l, worker := Notify\<rparr>)"
| worker_notify: "worker s = Notify \<Longrightarrow>
     startLoop_step t l cb s (s\<lparr>caller := (if caller s = CondWait then Relock else caller s),
                                mutex := None, worker := Looping\<rparr>)"
| loop_quit: "worker s = Looping \<Longrightarrow> startLoop_step t l cb s (s\<lparr>quit_asked := True\<rparr>)"
| loop_left: "worker s = Looping \<Longrightarrow> quit_asked s \<Longrightarrow> startLoop_step t l cb s (s\<lparr>worker := LockEnd\<rparr>)"
| worker_lock_end: "worker s = LockEnd \<Longrightarrow> mutex s = None \<Longrightarrow>
     startLoop_step t l cb s (s\<lparr>mutex := Some Worker, worker := Clear\<rparr>)"
| worker_clear: "worker s = Clear \<Longrightarrow>
     startLoop_step t l cb s (s\<lparr>elt_loop := None, mutex := None, worker := Ended\<rparr>)"
| caller_sem: "caller s = SemWait \<Longrightarrow> 0 < sem s \<Longrightarrow>
     startLoop_step t l cb s (s\<lparr>sem := sem s - 1, caller := LockMutex\<rparr>)"
| caller_lock: "caller s = LockMutex \<or> caller s = Relock \<Longrightarrow> mutex s = None \<Longrightarrow>
     startLoop_step t l cb s (s\<lparr>mutex := Some Caller, caller := TestLoop\<rparr>)"
| caller_wait: "caller s = TestLoop \<Longrightarrow> elt_loop s = None \<Longrightarrow>
     startLoop_step t l cb s (s\<lparr>mutex := None, caller := CondWait\<rparr>)"
| caller_spurious: "caller s = CondWait \<Longrightarrow> startLoop_step t l cb s (s\<lparr>caller := Relock\<rparr>)"
| caller_return: "caller s = TestLoop \<Longrightarrow> elt_loop s = Some x \<Longrightarrow>
     startLoop_step t l cb s (s\<lparr>mutex := None, caller := Returned x\<rparr>)"

definition handover_start :: handover where
  "handover_start = \<lparr>caller = SemWait, worker = StoreTid, sem = 0, mutex = None, elt_loop = None,
     elt_tid = 0, constructed = False, cb_called = False, quit_asked = False\<rparr>"

inductive startLoop_reachable :: "int \<Rightarrow> loop_id \<Rightarrow> bool \<Rightarrow> handover \<Rightarrow> bool" for t l cb where
  handover_begin: "startLoop_reachable t l cb handover_start"
| handover_step: "startLoop_reachable t l cb s \<Longrightarrow> startLoop_step t l cb s s' \<Longrightarrow> startLoop_reachable t l cb s'"

text \<open>What each point of \<open>threadFunc_\<close> implies of the shared state.\<close>

fun has_tid :: "worker_pc \<Rightarrow> bool" where
  "has_tid StoreTid = False" | "has_tid _ = True"

fun has_loop :: "worker_pc \<Rightarrow> bool" where
  "has_loop StoreTid = False" | "has_loop Construct = False" | "has_loop _ = True"

fun after_callback :: "worker_pc \<Rightarrow> bool" where
  "after_callback StoreTid = False" | "after_callback Construct = False" | "after_callback InitCallback = False"
| "after_callback _ = True"

fun in_section :: "worker_pc \<Rightarrow> bool" where
  "in_section Publish = True" | "in_section Notify = True" | "in_section Clear = True" | "in_section _ = False"

fun published :: "worker_pc \<Rightarrow> bool" where
  "published Notify = True" | "published Looping = True" | "published LockEnd = True" | "published Clear = True"
| "published _ = False"

fun after_notify :: "worker_pc \<Rightarrow> bool" where
  "after_notify Looping = True" | "after_notify LockEnd = True" | "after_notify Clear = True"
| "after_notify Ended = True" | "after_notify _ = False"

fun after_loop :: "worker_pc \<Rightarrow> bool" where
  "after_loop LockEnd = True" | "after_loop Clear = True" | "after_loop Ended = True" | "after_loop _ = False"

definition handover_inv :: "int \<Rightarrow> loop_id \<Rightarrow> bool \<Rightarrow> handover \<Rightarrow> bool" where
  "handover_inv t l cb s \<longleftrightarrow>
     (mutex s = Some Worker) = in_section (worker s) \<and>
     (mutex s = Some Caller) = (caller s = TestLoop) \<and>
     (has_loop (worker s) \<longrightarrow> constructed s) \<and>
     (after_callback (worker s) \<longrightarrow> cb_called s = cb) \<and>
     (has_tid (worker s) \<longrightarrow> elt_tid s = t) \<and>
     elt_loop s = (if published (worker s) then Some l else None) \<and>
     sem s = (if has_tid (worker s) \<and> caller s = SemWait then 1 else 0) \<and>
     (caller s \<noteq> SemWait \<longrightarrow> has_tid (worker s)) \<and>
     (caller s = CondWait \<and> after_notify (worker s) \<longrightarrow> worker s = Ended) \<and>
     (after_loop (worker s) \<longrightarrow> quit_asked s) \<and>
     (\<forall>x. caller s = Returned x \<longrightarrow> x = l \<and> after_notify (worker s))"

lemma handover_inv_start: "handover_inv t l cb handover_start"
  by (simp add: handover_inv_def handover_start_def)

lemma after_notify_cases: "after_notify x \<Longrightarrow> \<not> published x \<Longrightarrow> x = Ended"
  by (cases x) simp_all

lemma published_free: "published x \<Longrightarrow> \<not> in_section x \<Longrightarrow> after_notify x"
  by (cases x) simp_all

lemma handover_inv_step: "startLoop_step t l cb s s' \<Longrightarrow> handover_inv t l cb s \<Longrightarrow> handover_inv t l cb s'"
  by (induction rule: startLoop_step.induct) (auto simp: handover_inv_def split: if_splits intro: after_notify_cases published_free)

lemma handover_inv: "startLoop_reachable t l cb s \<Longrightarrow> handover_inv t l cb s"
  by (induction rule: startLoop_reachable.induct) (auto intro: handover_inv_start handover_inv_step)


text \<open>The thread's way to \<open>loop.loop()\<close>, and the caller's way out after it.\<close>

abbreviation startLoop_run :: "int \<Rightarrow> loop_id \<Rightarrow> bool \<Rightarrow> handover \<Rightarrow> handover \<Rightarrow> bool" where
  "startLoop_run t l cb \<equiv> (startLoop_step t l cb)\<^sup>*\<^sup>*"

fun to_loop :: "worker_pc \<Rightarrow> nat" where
  "to_loop StoreTid = 6" | "to_loop Construct = 5" | "to_loop InitCallback = 4" | "to_loop Lock = 3"
| "to_loop Publish = 2" | "to_loop Notify = 1" | "to_loop _ = 0"

fun to_return :: "caller_pc \<Rightarrow> nat" where
  "to_return SemWait = 3" | "to_return LockMutex = 2" | "to_return Relock = 2" | "to_return TestLoop = 1"
| "to_return _ = 0"

fun returned :: "caller_pc \<Rightarrow> bool" where
  "returned (Returned x) = True"
| "returned _ = False"

definition running :: "int \<Rightarrow> loop_id \<Rightarrow> bool \<Rightarrow> handover \<Rightarrow> bool" where
  "running t l cb s \<longleftrightarrow> handover_inv t l cb s \<and> \<not> quit_asked s"

lemma running_not_ended: "running t l cb s \<Longrightarrow> \<not> after_loop (worker s)"
  by (auto simp: running_def handover_inv_def)

lemma running_step:
  "running t l cb s \<Longrightarrow> startLoop_step t l cb s s' \<Longrightarrow> \<not> quit_asked s' \<Longrightarrow> running t l cb s'"
  by (auto simp: running_def intro: handover_inv_step)

lemma worker_advances:
  assumes "running t l cb s" and "worker s \<noteq> Looping"
  shows "\<exists>s'. startLoop_run t l cb s s' \<and> running t l cb s' \<and> to_loop (worker s') < to_loop (worker s)"
proof -
  have one: ?thesis if "startLoop_step t l cb s s'" "\<not> quit_asked s'" "to_loop (worker s') < to_loop (worker s)" for s'
    using that running_step [OF assms(1)] by blast
  have q: "\<not> quit_asked s" using assms(1) by (simp add: running_def)
  show ?thesis
  proof (cases "worker s")
    case Lock
    show ?thesis
    proof (cases "mutex s")
      case None
      from one [OF worker_lock [OF Lock None]] Lock q show ?thesis by simp
    next
      case (Some p)
      then have c: "caller s = TestLoop" "elt_loop s = None"
        using assms(1) Lock by (cases p; auto simp: running_def handover_inv_def)+
      let ?s1 = "s\<lparr>mutex := None, caller := CondWait\<rparr>"
      have s1: "startLoop_step t l cb s ?s1" by (rule caller_wait [OF c])
      have s2: "startLoop_step t l cb ?s1 (?s1\<lparr>mutex := Some Worker, worker := Publish\<rparr>)"
        by (rule worker_lock) (simp_all add: Lock)
      have "running t l cb (?s1\<lparr>mutex := Some Worker, worker := Publish\<rparr>)"
        using running_step [OF running_step [OF assms(1) s1] s2] q by simp
      with s1 s2 Lock show ?thesis
        by (intro exI [of _ "?s1\<lparr>mutex := Some Worker, worker := Publish\<rparr>"]) auto
    qed
  qed (use one [OF worker_tid] one [OF worker_construct] one [OF worker_callback] one [OF worker_publish]
      one [OF worker_notify] q assms(2) running_not_ended [OF assms(1)] in simp_all)
qed

lemma reaches_looping:
  assumes "running t l cb s"
  shows "\<exists>s'. startLoop_run t l cb s s' \<and> running t l cb s' \<and> worker s' = Looping"
  using assms
proof (induction "to_loop (worker s)" arbitrary: s rule: less_induct)
  case less
  show ?case
  proof (cases "worker s = Looping")
    case False
    from worker_advances [OF less.prems False] obtain s1 where
      "startLoop_run t l cb s s1" "running t l cb s1" "to_loop (worker s1) < to_loop (worker s)" by blast
    with less.hyps [of s1] show ?thesis by (meson rtranclp_trans)
  qed (use less.prems in blast)
qed

lemma caller_advances:
  assumes "running t l cb s" and "worker s = Looping" and "\<not> returned (caller s)"
  shows "\<exists>s'. startLoop_step t l cb s s' \<and> running t l cb s' \<and> worker s' = Looping \<and>
     to_return (caller s') < to_return (caller s)"
proof -
  have i: "elt_loop s = Some l" "mutex s \<noteq> Some Worker" "(mutex s = Some Caller) = (caller s = TestLoop)"
    "caller s = SemWait \<Longrightarrow> sem s = 1" "caller s \<noteq> CondWait" "\<not> quit_asked s"
    using assms(1,2) by (auto simp: running_def handover_inv_def)
  have free: "mutex s = None" if "caller s \<noteq> TestLoop"
  proof (cases "mutex s")
    case (Some p)
    with i(2,3) that show ?thesis by (cases p) auto
  qed
  have one: ?thesis if "startLoop_step t l cb s s'" "\<not> quit_asked s'" "worker s' = Looping"
      "to_return (caller s') < to_return (caller s)" for s'
    using that running_step [OF assms(1)] by blast
  show ?thesis
  proof (cases "caller s")
    case SemWait
    from one [OF caller_sem [OF SemWait]] i(4) [OF SemWait] i(6) SemWait assms(2) show ?thesis by simp
  next
    case LockMutex
    then have "mutex s = None" using free by simp
    from one [OF caller_lock [OF disjI1 [OF LockMutex] this]] i(6) LockMutex assms(2) show ?thesis by simp
  next
    case Relock
    then have "mutex s = None" using free by simp
    from one [OF caller_lock [OF disjI2 [OF Relock] this]] i(6) Relock assms(2) show ?thesis by simp
  next
    case TestLoop
    from one [OF caller_return [OF TestLoop i(1)]] i(6) TestLoop assms(2) show ?thesis by simp
  qed (use i(5) assms(3) in simp_all)
qed

lemma reaches_return:
  assumes "running t l cb s" and "worker s = Looping"
  shows "\<exists>s'. startLoop_run t l cb s s' \<and> running t l cb s' \<and> returned (caller s')"
  using assms
proof (induction "to_return (caller s)" arbitrary: s rule: less_induct)
  case less
  show ?case
  proof (cases "returned (caller s)")
    case False
    from caller_advances [OF less.prems False] obtain s1 where
      "startLoop_step t l cb s s1" "running t l cb s1" "worker s1 = Looping"
      "to_return (caller s1) < to_return (caller s)" by blast
    with less.hyps [of s1] show ?thesis by (meson converse_rtranclp_into_rtranclp)
  qed (use less.prems in blast)
qed


section \<open>The pool\<close>

text \<open>
  \<open>start_loop name w\<close> makes an \<open>EventLoopThread\<close> of that name and starts it: the new loop and the
  changed world. \<open>cb\<close> is the init callback, applied to the base loop when there are no threads.
\<close>

record elt_pool =
  baseloop :: loop_id
  pool_name :: string
  pool_started :: bool
  numThreads :: int
  pool_next :: int
  pool_loops :: "loop_id list"

definition new_EventLoopThreadPool :: "loop_id \<Rightarrow> string \<Rightarrow> elt_pool" where
  "new_EventLoopThreadPool base nameArg =
     \<lparr>baseloop = base, pool_name = nameArg, pool_started = False, numThreads = 0, pool_next = 0, pool_loops = []\<rparr>"

definition setThreadNums :: "int \<Rightarrow> elt_pool \<Rightarrow> elt_pool" where
  "setThreadNums n p = p\<lparr>numThreads := n\<rparr>"

definition pool_thread_name :: "elt_pool \<Rightarrow> nat \<Rightarrow> string" where
  "pool_thread_name p i = snprintf (length (pool_name p) + 32) (pool_name p @ show_nat i)"

fun start_threads :: "(string \<Rightarrow> 'w \<Rightarrow> (loop_id \<times> 'w) result) \<Rightarrow> nat list \<Rightarrow> elt_pool \<times> 'w \<Rightarrow> (elt_pool \<times> 'w) result" where
  "start_threads start_loop [] s = Inr s"
| "start_threads start_loop (i # is) s =
     (case start_loop (pool_thread_name (fst s) i) (snd s) of
        Inl e \<Rightarrow> Inl e
      | Inr (l, w) \<Rightarrow> start_threads start_loop is ((fst s)\<lparr>pool_loops := pool_loops (fst s) @ [l]\<rparr>, w))"

definition pool_start :: "(string \<Rightarrow> 'w \<Rightarrow> (loop_id \<times> 'w) result) \<Rightarrow> (loop_id \<Rightarrow> 'w \<Rightarrow> 'w result) option \<Rightarrow>
    elt_pool \<times> 'w \<Rightarrow> (elt_pool \<times> 'w) result" where
  "pool_start start_loop cb s =
     (case start_threads start_loop [0..<nat (numThreads (fst s))] ((fst s)\<lparr>pool_started := True\<rparr>, snd s) of
        Inl e \<Rightarrow> Inl e
      | Inr (p, w) \<Rightarrow>
          (case cb of
             Some f \<Rightarrow> if numThreads p = 0
                        then (case f (baseloop p) w of Inl e \<Rightarrow> Inl e | Inr w' \<Rightarrow> Inr (p, w')) else Inr (p, w)
           | None \<Rightarrow> Inr (p, w)))"

text \<open>\<open>getNextLoop\<close>; indexing a vector out of its range is undefined.\<close>

definition getNextLoop :: "elt_pool \<Rightarrow> (loop_id \<times> elt_pool) result" where
  "getNextLoop p =
     (if pool_loops p \<noteq> [] then
        (if 0 \<le> pool_next p \<and> nat (pool_next p) < length (pool_loops p) then
           let loop = pool_loops p ! nat (pool_next p); n = pool_next p + 1
           in Inr (loop, p\<lparr>pool_next := (if int (length (pool_loops p)) \<le> n then 0 else n)\<rparr>)
         else Inl OutOfBounds)
      else Inr (baseloop p, p))"

definition getAllLoops :: "elt_pool \<Rightarrow> loop_id list" where
  "getAllLoops p = (if pool_loops p = [] then [baseloop p] else pool_loops p)"

fun next_loops :: "nat \<Rightarrow> elt_pool \<Rightarrow> (loop_id list \<times> elt_pool) result" where
  "next_loops 0 p = Inr ([], p)"
| "next_loops (Suc k) p =
     (case getNextLoop p of
        Inl e \<Rightarrow> Inl e
      | Inr (l, p') \<Rightarrow> (case next_loops k p' of Inl e \<Rightarrow> Inl e | Inr (ls, q) \<Rightarrow> Inr (l # ls, q)))"

definition pool_inv :: "elt_pool \<Rightarrow> bool" where
  "pool_inv p \<longleftrightarrow> 0 \<le> pool_next p \<and> (if pool_loops p = [] then pool_next p = 0 else pool_next p < int (length (pool_loops p)))"

lemma new_pool_inv: "pool_inv (new_EventLoopThreadPool base nameArg)"
  by (simp add: pool_inv_def new_EventLoopThreadPool_def)

lemma start_threads_inv:
  "start_threads sl is s = Inr s' \<Longrightarrow> pool_inv (fst s) \<Longrightarrow>
     pool_inv (fst s') \<and> length (pool_loops (fst s')) = length (pool_loops (fst s)) + length is \<and>
     baseloop (fst s') = baseloop (fst s) \<and> pool_next (fst s') = pool_next (fst s)"
proof (induction sl "is" s rule: start_threads.induct)
  case (2 sl i "is" s)
  from 2(2) obtain l w where sl: "sl (pool_thread_name (fst s) i) (snd s) = Inr (l, w)"
    and rest: "start_threads sl is ((fst s)\<lparr>pool_loops := pool_loops (fst s) @ [l]\<rparr>, w) = Inr s'"
    by (auto split: sum.splits)
  have "pool_inv ((fst s)\<lparr>pool_loops := pool_loops (fst s) @ [l]\<rparr>)"
    using 2(3) by (auto simp: pool_inv_def split: if_splits)
  with 2(1) [OF sl refl] rest show ?case by simp
qed simp

lemma getNextLoop_inv:
  assumes "pool_inv p" and "pool_loops p \<noteq> []"
  shows "\<exists>p'. getNextLoop p = Inr (pool_loops p ! nat (pool_next p), p') \<and> pool_inv p' \<and> pool_loops p' = pool_loops p \<and>
     pool_next p' = (pool_next p + 1) mod int (length (pool_loops p))"
proof -
  have "(pool_next p + 1) mod int (length (pool_loops p)) =
      (if int (length (pool_loops p)) \<le> pool_next p + 1 then 0 else pool_next p + 1)"
  proof (cases "int (length (pool_loops p)) \<le> pool_next p + 1")
    case True
    with assms have "pool_next p + 1 = int (length (pool_loops p))" by (simp add: pool_inv_def)
    then show ?thesis by simp
  qed (use assms in \<open>simp add: pool_inv_def\<close>)
  with assms show ?thesis by (auto simp: getNextLoop_def pool_inv_def Let_def)
qed

lemma next_loops_cyclic:
  assumes "pool_inv p" and "pool_loops p \<noteq> []"
  shows "\<exists>p'. next_loops k p = Inr (map (\<lambda>i. pool_loops p ! ((nat (pool_next p) + i) mod length (pool_loops p))) [0..<k], p')"
  using assms
proof (induction k arbitrary: p)
  case (Suc k)
  let ?n = "length (pool_loops p)" and ?i = "nat (pool_next p)"
  from getNextLoop_inv [OF Suc.prems] obtain p' where
    p': "getNextLoop p = Inr (pool_loops p ! ?i, p')" "pool_inv p'" "pool_loops p' = pool_loops p"
    "pool_next p' = (pool_next p + 1) mod int ?n" by blast
  have lt: "?i < ?n" using Suc.prems by (auto simp: pool_inv_def)
  have "nat (pool_next p') = Suc ?i mod ?n"
    using Suc.prems p'(4) by (simp add: pool_inv_def nat_mod_distrib Suc_nat_eq_nat_zadd1 add.commute)
  then have "(nat (pool_next p') + i) mod ?n = (?i + Suc i) mod ?n" for i by (simp add: mod_simps)
  moreover from Suc.IH [OF p'(2)] p'(3) Suc.prems(2) obtain q where
    "next_loops k p' = Inr (map (\<lambda>i. pool_loops p ! ((nat (pool_next p') + i) mod ?n)) [0..<k], q)" by auto
  ultimately have "next_loops (Suc k) p =
      Inr (pool_loops p ! ?i # map (\<lambda>i. pool_loops p ! ((?i + Suc i) mod ?n)) [0..<k], q)"
    using p'(1) by simp
  moreover have "map (\<lambda>i. pool_loops p ! ((?i + i) mod ?n)) [0..<Suc k] =
      pool_loops p ! ?i # map (\<lambda>i. pool_loops p ! ((?i + Suc i) mod ?n)) [0..<k]"
    using lt by (simp add: map_upt_Suc del: upt_Suc)
  ultimately show ?case by auto
qed simp


section \<open>Properties\<close>

text \<open>
  C13. \<open>startLoop\<close> hands over a finished loop. In every interleaving, when it has returned, it has
  returned the new thread's own loop, fully constructed, with the init callback already run and
  the thread's id stored; and as long as nobody has asked the new loop to quit, from every reachable
  state the two threads can run on until \<open>startLoop\<close> has returned (no wake-up is lost, no lock is
  kept).
\<close>

theorem startLoop_hands_over:
  assumes "startLoop_reachable t l cb s"
  shows "(caller s = Returned x \<longrightarrow> x = l \<and> constructed s \<and> cb_called s = cb \<and> elt_tid s = t) \<and>
    (\<not> quit_asked s \<longrightarrow> (\<exists>s'. (startLoop_step t l cb)\<^sup>*\<^sup>* s s' \<and> caller s' = Returned l))"
proof (intro conjI impI)
  have inv: "handover_inv t l cb s" using assms by (rule handover_inv)
  show "x = l" "constructed s" "cb_called s = cb" "elt_tid s = t" if "caller s = Returned x"
    using inv that by (cases "worker s"; simp add: handover_inv_def)+
  assume "\<not> quit_asked s"
  with inv have "running t l cb s" by (simp add: running_def)
  from reaches_looping [OF this] reaches_return obtain s' where
    s': "startLoop_run t l cb s s'" "running t l cb s'" "returned (caller s')" by (meson rtranclp_trans)
  then have "caller s' = Returned l"
    by (cases "caller s'") (auto simp: running_def handover_inv_def)
  with s'(1) show "\<exists>s'. (startLoop_step t l cb)\<^sup>*\<^sup>* s s' \<and> caller s' = Returned l" by blast
qed

theorem startLoop_hands_over_witness:
  "\<exists>s'. (startLoop_step 7 3 True)\<^sup>*\<^sup>* handover_start s' \<and> caller s' = Returned 3"
  using startLoop_hands_over [OF handover_begin, of 7 3 True] by (simp add: handover_start_def)




section \<open>Ending a loop thread\<close>

text \<open>
  \<open>~EventLoopThread\<close> after \<open>startLoop\<close> has returned: it tests \<open>loop_\<close>, reads it again to call
  \<open>quit\<close>, and joins, while the loop thread leaves \<open>loop.loop()\<close> once it is asked to, clears \<open>loop_\<close>
  under the mutex and ends.  The destructor does not take the mutex.
\<close>

datatype dtor_pc = DTest | DQuit | DJoin | DDone | DFault

datatype loop_end_pc = InLoop | ClearLoop | LoopEnded

datatype dtor_actor = Destructor | LoopThread | SomeoneElse

record dtor_state =
  dtor_at :: dtor_pc
  loop_at :: loop_end_pc
  loop_set :: bool
  loop_quit_flag :: bool
  exiting :: bool

definition dtor_start :: dtor_state where
  "dtor_start = \<lparr>dtor_at = DTest, loop_at = InLoop, loop_set = True, loop_quit_flag = False, exiting = False\<rparr>"

definition delete_EventLoopThread :: "dtor_state \<Rightarrow> dtor_state option" where
  "delete_EventLoopThread s =
     (case dtor_at s of
        DTest \<Rightarrow> Some (s\<lparr>exiting := True, dtor_at := (if loop_set s then DQuit else DDone)\<rparr>)
      | DQuit \<Rightarrow>
          Some (if loop_set s then s\<lparr>loop_quit_flag := True, dtor_at := DJoin\<rparr> else s\<lparr>dtor_at := DFault\<rparr>)
      | DJoin \<Rightarrow> (if loop_at s = LoopEnded then Some (s\<lparr>dtor_at := DDone\<rparr>) else None)
      | _ \<Rightarrow> None)"

definition threadFunc_end :: "dtor_state \<Rightarrow> dtor_state option" where
  "threadFunc_end s =
     (case loop_at s of
        InLoop \<Rightarrow> (if loop_quit_flag s then Some (s\<lparr>loop_at := ClearLoop\<rparr>) else None)
      | ClearLoop \<Rightarrow> Some (s\<lparr>loop_set := False, loop_at := LoopEnded\<rparr>)
      | LoopEnded \<Rightarrow> None)"

text \<open>\<open>others\<close>: whether other code calls \<open>quit\<close> on the loop.\<close>

definition dtor_step :: "bool \<Rightarrow> dtor_actor \<Rightarrow> dtor_state \<Rightarrow> dtor_state option" where
  "dtor_step others a s =
     (case a of
        Destructor \<Rightarrow> delete_EventLoopThread s
      | LoopThread \<Rightarrow> threadFunc_end s
      | SomeoneElse \<Rightarrow>
          (if others \<and> \<not> loop_quit_flag s then Some (s\<lparr>loop_quit_flag := True\<rparr>) else None))"

definition dtor_inv :: "dtor_state \<Rightarrow> bool" where
  "dtor_inv s \<longleftrightarrow>
     (loop_quit_flag s \<longleftrightarrow> dtor_at s = DJoin \<or> dtor_at s = DDone)
   \<and> (loop_at s \<noteq> InLoop \<longrightarrow> loop_quit_flag s)
   \<and> (loop_set s \<longleftrightarrow> loop_at s \<noteq> LoopEnded)
   \<and> dtor_at s \<noteq> DFault \<and> (dtor_at s = DDone \<longrightarrow> loop_at s = LoopEnded)"

definition dtor_work :: "dtor_state \<Rightarrow> nat" where
  "dtor_work s =
     (case dtor_at s of DTest \<Rightarrow> 3 | DQuit \<Rightarrow> 2 | DJoin \<Rightarrow> 1 | _ \<Rightarrow> 0)
   + (case loop_at s of InLoop \<Rightarrow> 2 | ClearLoop \<Rightarrow> 1 | LoopEnded \<Rightarrow> 0)"

lemmas dtor_defs = dtor_step_def delete_EventLoopThread_def threadFunc_end_def

interpretation dtor: bounded_threads "dtor_step False" dtor_start dtor_inv dtor_work
proof unfold_locales
  show "dtor_inv dtor_start" by (simp add: dtor_inv_def dtor_start_def)
  show "dtor_inv s'" if "dtor_inv s" "dtor_step False t s = Some s'" for s t s'
    using that
    by (auto simp: dtor_defs dtor_inv_def split: dtor_actor.splits dtor_pc.splits loop_end_pc.splits if_splits)
  show "dtor_work s' < dtor_work s" if "dtor_inv s" "dtor_step False t s = Some s'" for s t s'
    using that
    by (auto simp: dtor_defs dtor_inv_def dtor_work_def
        split: dtor_actor.splits dtor_pc.splits loop_end_pc.splits if_splits)
qed

text \<open>
  As long as nobody but the destructor ends the loop it never touches a null \<open>loop_\<close>, always comes to
  its end, and then the loop thread has ended.
\<close>

theorem dtor_joins:
  assumes "run_schedule (dtor_step False) sched dtor_start = Some s"
  shows "dtor_at s \<noteq> DFault \<and> length sched \<le> 5
       \<and> (at_rest (dtor_step False) s \<longrightarrow> dtor_at s = DDone \<and> loop_at s = LoopEnded)"
proof -
  have inv: "dtor_inv s" using assms dtor.always by (auto simp: reachable_iff_run)
  have "length sched \<le> 5"
    using dtor.schedule_bounded [OF assms] by (simp add: dtor_work_def dtor_start_def)
  moreover have "dtor_at s = DDone \<and> loop_at s = LoopEnded" if "at_rest (dtor_step False) s"
  proof -
    from that have "delete_EventLoopThread s = None" "threadFunc_end s = None"
      by (auto simp: at_rest_def dtor_step_def dest: spec [of _ Destructor] spec [of _ LoopThread])
    with inv show ?thesis
      by (auto simp: delete_EventLoopThread_def threadFunc_end_def dtor_inv_def
          split: dtor_pc.splits loop_end_pc.splits if_splits)
  qed
  ultimately show ?thesis using inv by (auto simp: dtor_inv_def)
qed

text \<open>If other code has asked the loop to quit, the loop can end between the test and the call.\<close>

theorem dtor_races_with_quit: "\<exists>s. reachable (dtor_step True) dtor_start s \<and> dtor_at s = DFault"
proof -
  have "\<exists>s. run_schedule (dtor_step True) [Destructor, SomeoneElse, LoopThread, LoopThread, Destructor] dtor_start = Some s
      \<and> dtor_at s = DFault"
    by (simp add: dtor_defs dtor_start_def)
  then show ?thesis by (blast intro: run_schedule_reachable [OF reachable_init])
qed

end
