(* ===== verification/TcpServer.thy ===== *)
theory TcpServer
  imports TcpConnection EventLoopThread
begin

text \<open>
  The listening side and the server: \<^verbatim>\<open>src/src/Socket.cc\<close>, \<^verbatim>\<open>Acceptor.cc\<close> and \<^verbatim>\<open>TcpServer.cc\<close>, and the
  two interpreters that close the loop between the components: \<open>exec\<close> runs a channel callback and
  \<open>run_functor\<close> a queued call. System calls answer from scripts in the world (\<open>sys_read\<close>,
  \<open>sys_write\<close>, \<open>sys_accept\<close>, indexed by the number of calls made), so that a theorem for every
  world is a theorem for every behaviour of the kernel.
\<close>

text \<open>
  What \<open>accept\<close> did: failed, or gave a descriptor with the peer's address and, from
  \<open>getsockname\<close>, the local one. \<open>Socket::accept\<close> passes a length it never set, so the
  peer address may be cut or the call may fail; both are outcomes here.
\<close>

datatype accept_result = AcceptErr errno | Accepted fd sockaddr_in sockaddr_in

record acceptor =
  acc_loop :: loop_id
  acceptSocket :: fd
  acceptChannel :: nat
  newConnectionCallback :: bool
  listenning :: bool

record server_world = conn_world +
  srv_loop :: loop_id
  ipPort :: string
  srv_name :: string
  srv_acceptor :: acceptor
  threadPool :: elt_pool
  srv_connectionCallback :: "nat option"
  srv_messageCallback :: "nat option"
  srv_writeCompleteCallback :: "nat option"
  srv_started :: int
  nextConnId :: "32 word"
  connections :: "string \<rightharpoonup> nat"
  listening :: "(fd \<times> int) set"         \<comment> \<open>descriptors and backlogs given to \<open>listen\<close>\<close>
  bound :: "fd \<rightharpoonup> sockaddr_in"
  reuse :: "(fd \<times> string) set"          \<comment> \<open>options set on a descriptor\<close>
  fresh_conn :: nat                      \<comment> \<open>numbers of the next objects made\<close>
  fresh_chan :: nat
  sys_read :: "nat \<Rightarrow> read_result"
  sys_write :: "nat \<Rightarrow> write_result"
  sys_accept :: "nat \<Rightarrow> accept_result"
  sys_bind :: "fd \<Rightarrow> sockaddr_in \<Rightarrow> bool"     \<comment> \<open>whether \<open>bind\<close> and \<open>listen\<close> succeed\<close>
  sys_listen :: "fd \<Rightarrow> bool"
  ncalls :: nat

type_synonym srv_handler = "server_world \<Rightarrow> server_world result"
type_synonym app_fun = "ucall \<Rightarrow> srv_handler"

definition tick :: "server_world \<Rightarrow> server_world" where
  "tick w = w\<lparr>ncalls := ncalls w + 1\<rparr>"


section \<open>Socket and Acceptor\<close>

text \<open>A failure of \<open>bind\<close> or \<open>listen\<close> is tested for, but the branch is empty.\<close>

definition bindAddress :: "fd \<Rightarrow> sockaddr_in \<Rightarrow> server_world \<Rightarrow> server_world" where
  "bindAddress s addr w = (if sys_bind w s addr then w\<lparr>bound := (bound w)(s \<mapsto> addr)\<rparr> else w)"

definition Socket_listen :: "fd \<Rightarrow> server_world \<Rightarrow> server_world" where
  "Socket_listen s w = (if sys_listen w s then w\<lparr>listening := insert (s, 1024) (listening w)\<rparr> else w)"

definition setReuseAddr :: "fd \<Rightarrow> bool \<Rightarrow> server_world \<Rightarrow> server_world" where
  "setReuseAddr s on w = w\<lparr>reuse := (if on then insert (s, ''SO_REUSEADDR'') (reuse w) else reuse w - {(s, ''SO_REUSEADDR'')})\<rparr>"

definition setReusePort :: "fd \<Rightarrow> bool \<Rightarrow> server_world \<Rightarrow> server_world" where
  "setReusePort s on w = w\<lparr>reuse := (if on then insert (s, ''SO_REUSEPORT'') (reuse w) else reuse w - {(s, ''SO_REUSEPORT'')})\<rparr>"

definition setTcpNoDelay :: "fd \<Rightarrow> bool \<Rightarrow> server_world \<Rightarrow> server_world" where
  "setTcpNoDelay s on w = w\<lparr>reuse := (if on then insert (s, ''TCP_NODELAY'') (reuse w) else reuse w - {(s, ''TCP_NODELAY'')})\<rparr>"

text \<open>\<open>sockfd\<close> is what \<open>createNonblocking\<close> returned, \<open>ch\<close> the channel object inside the acceptor.\<close>

definition new_Acceptor :: "loop_id \<Rightarrow> sockaddr_in \<Rightarrow> bool \<Rightarrow> fd \<Rightarrow> nat \<Rightarrow> server_world \<Rightarrow> acceptor \<times> server_world" where
  "new_Acceptor l listenAddr reuseport sockfd ch w =
     (let a = \<lparr>acc_loop = l, acceptSocket = sockfd, acceptChannel = ch, newConnectionCallback = False, listenning = False\<rparr>;
          w1 = bindAddress sockfd listenAddr (setReusePort sockfd True (setReuseAddr sockfd True w))
      in (a, w1\<lparr>chans := (chans w1)(ch := (new_Channel l sockfd)\<lparr>readCallback := Some AcceptRead\<rparr>)\<rparr>))"

definition Acceptor_listen :: "server_world \<Rightarrow> server_world" where
  "Acceptor_listen w =
     (let w1 = w\<lparr>srv_acceptor := (srv_acceptor w)\<lparr>listenning := True\<rparr>\<rparr>;
          w2 = Socket_listen (acceptSocket (srv_acceptor w1)) w1
      in enableReading (acceptChannel (srv_acceptor w2)) w2)"

definition delete_Acceptor :: "server_world \<Rightarrow> server_world" where
  "delete_Acceptor w = (let ch = acceptChannel (srv_acceptor w) in Channel_remove ch (disableAll ch w))"


section \<open>TcpServer\<close>

definition new_TcpServer :: "loop_id option \<Rightarrow> sockaddr_in \<Rightarrow> string \<Rightarrow> bool \<Rightarrow> fd \<Rightarrow> nat \<Rightarrow> srv_handler" where
  "new_TcpServer loop listenAddr nameArg reuseport sockfd ch w =
     (case CheckLoopNotNull loop of
        Inl e \<Rightarrow> Inl e
      | Inr l \<Rightarrow>
          (case toIpPort listenAddr of
             Inl e \<Rightarrow> Inl e
           | Inr ip \<Rightarrow>
               let (a, w1) = new_Acceptor l listenAddr reuseport sockfd ch w in
               Inr (w1\<lparr>srv_loop := l, ipPort := ip, srv_name := nameArg,
                       srv_acceptor := a\<lparr>newConnectionCallback := True\<rparr>,
                       threadPool := new_EventLoopThreadPool l nameArg, srv_started := 0, nextConnId := 1,
                       connections := Map.empty, srv_connectionCallback := None, srv_messageCallback := None,
                       srv_writeCompleteCallback := None\<rparr>)))"

definition setThreadNum :: "int \<Rightarrow> server_world \<Rightarrow> server_world" where
  "setThreadNum n w = w\<lparr>threadPool := setThreadNums n (threadPool w)\<rparr>"

definition TcpServer_setConnectionCallback :: "nat option \<Rightarrow> server_world \<Rightarrow> server_world" where
  "TcpServer_setConnectionCallback cb w = w\<lparr>srv_connectionCallback := cb\<rparr>"

definition TcpServer_setMessageCallback :: "nat option \<Rightarrow> server_world \<Rightarrow> server_world" where
  "TcpServer_setMessageCallback cb w = w\<lparr>srv_messageCallback := cb\<rparr>"

definition TcpServer_setWriteCompleteCallback :: "nat option \<Rightarrow> server_world \<Rightarrow> server_world" where
  "TcpServer_setWriteCompleteCallback cb w = w\<lparr>srv_writeCompleteCallback := cb\<rparr>"

text \<open>\<open>started_++ == 0\<close> lets only the first call through.\<close>

definition TcpServer_start :: "(string \<Rightarrow> server_world \<Rightarrow> (loop_id \<times> server_world) result) \<Rightarrow>
    (loop_id \<Rightarrow> srv_handler) option \<Rightarrow> tid \<Rightarrow> srv_handler" where
  "TcpServer_start start_loop threadInitCallback cur w =
     (let w0 = w\<lparr>srv_started := srv_started w + 1\<rparr> in
      if srv_started w = 0 then
        (case pool_start start_loop threadInitCallback (threadPool w0, w0) of
           Inl e \<Rightarrow> Inl e
         | Inr (p, w1) \<Rightarrow>
             runInLoop (\<lambda>_ w. Inr (Acceptor_listen w)) cur (srv_loop w1) AcceptorListen (w1\<lparr>threadPool := p\<rparr>))
      else Inr w0)"

definition connName :: "server_world \<Rightarrow> string" where
  "connName w = srv_name w @ snprintf 64 (''~'' @ ipPort w @ ''#'' @ show_int (sint (nextConnId w)))"

definition newConnection :: "app_fun \<Rightarrow> tid \<Rightarrow> fd \<Rightarrow> sockaddr_in \<Rightarrow> sockaddr_in \<Rightarrow> srv_handler" where
  "newConnection app cur sockfd peer local w =
     (case getNextLoop (threadPool w) of
        Inl e \<Rightarrow> Inl e
      | Inr (ioloop, p) \<Rightarrow>
          let name = connName w; c = fresh_conn w; ch = fresh_chan w;
              w1 = w\<lparr>threadPool := p, nextConnId := nextConnId w + 1, fresh_conn := c + 1, fresh_chan := ch + 1\<rparr>
          in (case new_TcpConnection c ch (Some ioloop) name sockfd local peer w1 of
                Inl e \<Rightarrow> Inl e
              | Inr w2 \<Rightarrow>
                  let w3 = w2\<lparr>connections := (connections w2)(name \<mapsto> c)\<rparr>;
                      w4 = setCloseCallback c (Some RemoveConnection)
                            (setWriteCompleteCallback c (srv_writeCompleteCallback w3)
                              (setMessageCallback c (srv_messageCallback w3)
                                (setConnectionCallback c (srv_connectionCallback w3) w3)))
                  in runInLoop (\<lambda>_. connectionEstablished app c) cur ioloop (ConnectionEstablished c) w4))"

definition removeConnectionInLoop :: "tid \<Rightarrow> nat \<Rightarrow> server_world \<Rightarrow> server_world" where
  "removeConnectionInLoop cur c w =
     (let w1 = w\<lparr>connections := (connections w)(tc_name (conns w c) := None)\<rparr>
      in queueInLoop cur (tc_loop (conns w1 c)) (ConnectionDestroyed c) w1)"

definition removeConnection :: "tid \<Rightarrow> nat \<Rightarrow> srv_handler" where
  "removeConnection cur c w =
     runInLoop (\<lambda>_ w. Inr (removeConnectionInLoop cur c w)) cur (srv_loop w) (RemoveConnectionInLoop c) w"

text \<open>The close callback \<open>newConnection\<close> sets.\<close>

definition server_close :: "tid \<Rightarrow> close_cb \<Rightarrow> nat \<Rightarrow> srv_handler" where
  "server_close cur cb c w = (case cb of RemoveConnection \<Rightarrow> removeConnection cur c w)"

text \<open>\<open>Acceptor::handleRead\<close>, on the answer of the next \<open>accept\<close>. The error branches only log.\<close>

definition Acceptor_handleRead :: "app_fun \<Rightarrow> tid \<Rightarrow> srv_handler" where
  "Acceptor_handleRead app cur w =
     (case sys_accept w (ncalls w) of
        AcceptErr e \<Rightarrow> Inr (tick w)
      | Accepted connfd peer local \<Rightarrow>
          if newConnectionCallback (srv_acceptor w) then newConnection app cur connfd peer local (tick w)
          else Inr (tick w))"


section \<open>Running callbacks and functors\<close>

definition run_functor :: "app_fun \<Rightarrow> tid \<Rightarrow> loop_functor \<Rightarrow> srv_handler" where
  "run_functor app cur f w =
     (case f of
        SendInLoop c mem len \<Rightarrow> sendInLoop cur c mem len (sys_write w (ncalls w)) (tick w)
      | ShutdownInLoop c \<Rightarrow> Inr (shutdownInLoop c w)
      | ConnectionEstablished c \<Rightarrow> connectionEstablished app c w
      | ConnectionDestroyed c \<Rightarrow> connnectionDestroyed (server_close cur) c w
      | WriteComplete g c \<Rightarrow> app (OnWriteComplete g c) w
      | HighWaterMark g c n \<Rightarrow> app (OnHighWaterMark g c n) w
      | RemoveConnectionInLoop c \<Rightarrow> Inr (removeConnectionInLoop cur c w)
      | AcceptorListen \<Rightarrow> Inr (Acceptor_listen w))"

fun exec :: "app_fun \<Rightarrow> tid \<Rightarrow> chan_cb call \<Rightarrow> srv_handler" where
  "exec app cur (CallRead (ConnRead c) t) w = Conn_handleRead app (server_close cur) c t (sys_read w (ncalls w)) (tick w)"
| "exec app cur (CallRead AcceptRead t) w = Acceptor_handleRead app cur w"
| "exec app cur (CallRead (WakeupRead l) t) w = Inr (upd_loop l EventLoop_handleRead w)"
| "exec app cur (Call (ConnWrite c)) w = handleWrite cur c (sys_write w (ncalls w)) (tick w)"
| "exec app cur (Call (ConnClose c)) w = handleClose app (server_close cur) c w"
| "exec app cur (Call (ConnError c)) w = Inr (handleError c w)"
| "exec app cur _ w = Inl BadFunctionCall"

text \<open>
  A connection object lives while the server's map or a queued functor holds it; the weak pointer
  of its channel can be locked just then.
\<close>

fun holds :: "loop_functor \<Rightarrow> nat \<Rightarrow> bool" where
  "holds (ConnectionEstablished c) d \<longleftrightarrow> c = d"
| "holds (ConnectionDestroyed c) d \<longleftrightarrow> c = d"
| "holds (WriteComplete g c) d \<longleftrightarrow> c = d"
| "holds (HighWaterMark g c n) d \<longleftrightarrow> c = d"
| "holds (RemoveConnectionInLoop c) d \<longleftrightarrow> c = d"
| "holds _ d \<longleftrightarrow> False"

definition conn_alive :: "server_world \<Rightarrow> nat \<Rightarrow> bool" where
  "conn_alive w c \<longleftrightarrow>
     c \<in> ran (connections w) \<or> (\<exists>l f. f \<in> set (pendingFunctors (loops w l)) \<and> holds f c)"

text \<open>One turn of loop \<open>l\<close>, on its own thread.\<close>

definition server_turn :: "app_fun \<Rightarrow> loop_id \<Rightarrow> int \<times> wait_result \<Rightarrow> srv_handler" where
  "server_turn app l polled w =
     (let cur = threadId (loops w l) in
      loop_body conn_alive (exec app cur) (run_functor app cur) l polled w)"

text \<open>
  \<open>TcpServer::~TcpServer\<close>: every connection of the map, in the order \<open>names\<close> of the traversal, is
  handed to its loop to be destroyed. A call made in place erases the entry the traversal stands on,
  and its next step uses a dead iterator. (The entry's pointer is reset before; nothing reads it.)
\<close>

definition destroy_entry :: "tid \<Rightarrow> string \<Rightarrow> srv_handler" where
  "destroy_entry cur name w =
     (case connections w name of
        None \<Rightarrow> Inl UseAfterFree
      | Some c \<Rightarrow>
          then_do
            (runInLoop (\<lambda>_. connnectionDestroyed (server_close cur) c) cur (tc_loop (conns w c)) (ConnectionDestroyed c) w)
            (\<lambda>w'. if connections w' name = None then Inl UseAfterFree else Inr w'))"

definition delete_TcpServer :: "tid \<Rightarrow> string list \<Rightarrow> srv_handler" where
  "delete_TcpServer cur names w = then_do (fold_result (destroy_entry cur) names w) (\<lambda>w'. Inr (delete_Acceptor w'))"


section \<open>Queues only grow\<close>

text \<open>
  No operation takes a functor out of a queue (only the loop does), changes the loop or the close
  callback of a connection already made, or moves the server to another loop. The same is asked of
  the application's callbacks, which have no access to these private members.
\<close>

definition keeps :: "nat \<Rightarrow> server_world \<Rightarrow> server_world \<Rightarrow> bool" where
  "keeps c w w' \<longleftrightarrow>
     (\<forall>l. set (pendingFunctors (loops w l)) \<subseteq> set (pendingFunctors (loops w' l))) \<and>
     srv_loop w' = srv_loop w \<and> fresh_conn w \<le> fresh_conn w' \<and>
     (c < fresh_conn w \<longrightarrow> tc_loop (conns w' c) = tc_loop (conns w c) \<and>
        tc_closeCallback (conns w' c) = tc_closeCallback (conns w c))"

definition app_ok :: "app_fun \<Rightarrow> bool" where
  "app_ok app \<longleftrightarrow> (\<forall>u w w' c. app u w = Inr w' \<longrightarrow> keeps c w w')"

lemma keeps_refl [simp]: "keeps c w w"
  by (simp add: keeps_def)

lemma keeps_trans: "keeps c w w1 \<Longrightarrow> keeps c w1 w2 \<Longrightarrow> keeps c w w2"
  unfolding keeps_def by (metis order_trans less_le_trans)

lemma server_frame [simp]:
  "srv_loop (upd_conn d g w) = srv_loop w" "fresh_conn (upd_conn d g w) = fresh_conn w"
  "srv_loop (setState d st w) = srv_loop w" "fresh_conn (setState d st w) = fresh_conn w"
  "srv_loop (switch_events ch e w) = srv_loop w" "fresh_conn (switch_events ch e w) = fresh_conn w"
  "srv_loop (queueInLoop cur l f w) = srv_loop w" "fresh_conn (queueInLoop cur l f w) = fresh_conn w"
  "srv_loop (Channel_remove ch w) = srv_loop w" "fresh_conn (Channel_remove ch w) = fresh_conn w"
  by (simp_all add: upd_conn_def setState_def switch_events_def queueInLoop_def upd_loop_def Let_def
      Channel_remove_def EventLoop_removeChannel_def split: prod.splits)

lemma connections_frame [simp]:
  "connections (setState d st w) = connections w" "connections (switch_events ch e w) = connections w"
  "connections (queueInLoop cur l f w) = connections w" "connections (Channel_remove ch w) = connections w"
  by (simp_all add: upd_conn_def setState_def switch_events_def queueInLoop_def upd_loop_def Let_def
      Channel_remove_def EventLoop_removeChannel_def split: prod.splits)

lemma tick_frame [simp]:
  "loops (tick w) = loops w" "conns (tick w) = conns w" "srv_loop (tick w) = srv_loop w"
  "fresh_conn (tick w) = fresh_conn w" "chans (tick w) = chans w" "connections (tick w) = connections w"
  "threadPool (tick w) = threadPool w" "pollers (tick w) = pollers w"
  by (simp_all add: tick_def)

lemma keeps_tick [simp]: "keeps c (tick w) w' = keeps c w w'" "keeps c w (tick w') = keeps c w w'"
  by (simp_all add: keeps_def)

lemma keeps_basic [simp]:
  "keeps c w (setState d st w)" "keeps c w (switch_events ch e w)" "keeps c w (queueInLoop cur l f w)"
  "keeps c w (Channel_remove ch w)"
  by (auto simp: keeps_def)

lemma keeps_upd_conn:
  "(\<And>x. tc_loop (g x) = tc_loop x \<and> tc_closeCallback (g x) = tc_closeCallback x) \<Longrightarrow> keeps c w (upd_conn d g w)"
  by (auto simp: keeps_def)

lemma keeps_then_do:
  assumes "then_do r g = Inr w'" and "\<And>w1. r = Inr w1 \<Longrightarrow> keeps c w w1" and "\<And>w1. g w1 = Inr w' \<Longrightarrow> keeps c w1 w'"
  shows "keeps c w w'"
  using assms by (cases r) (auto intro: keeps_trans)

lemma keeps_runInLoop:
  assumes "runInLoop run cur l f w = Inr w'" and "\<And>w'. run f w = Inr w' \<Longrightarrow> keeps c w w'"
  shows "keeps c w w'"
  using assms by (auto simp: runInLoop_def split: if_splits)

lemma keeps_removeConnectionInLoop: "keeps c w (removeConnectionInLoop cur d w)"
  by (auto simp: keeps_def removeConnectionInLoop_def Let_def)

lemma keeps_removeConnection: "removeConnection cur d w = Inr w' \<Longrightarrow> keeps c w w'"
  unfolding removeConnection_def by (erule keeps_runInLoop) (auto intro: keeps_removeConnectionInLoop)

lemma keeps_close: "call_closeCallback (server_close cur) d w = Inr w' \<Longrightarrow> keeps c w w'"
  by (auto simp: call_closeCallback_def server_close_def split: option.splits close_cb.splits
      intro: keeps_removeConnection)

lemma keeps_connectionCallback:
  "app_ok app \<Longrightarrow> call_connectionCallback app d w = Inr w' \<Longrightarrow> keeps c w w'"
  by (auto simp: call_connectionCallback_def app_ok_def split: option.splits)

lemma keeps_handleClose:
  assumes "app_ok app" and "handleClose app (server_close cur) d w = Inr w'"
  shows "keeps c w w'"
proof -
  let ?w2 = "switch_events (tc_channel (conns w d)) kNoneEvent (setState d kDisconnected w)"
  have "then_do (call_connectionCallback app d ?w2) (call_closeCallback (server_close cur) d) = Inr w'"
    using assms(2) by (simp add: handleClose_def Let_def switches)
  then have "keeps c ?w2 w'"
    by (rule keeps_then_do) (auto intro: keeps_connectionCallback [OF assms(1)] keeps_close)
  then show ?thesis by (meson keeps_basic keeps_trans)
qed

lemma keeps_handleRead:
  assumes "app_ok app" and "Conn_handleRead app (server_close cur) d t r w = Inr w'"
  shows "keeps c w w'"
proof -
  from assms(2) obtain n se b where rd: "readFd (inputBuffer (conns w d)) r = Inr (n, se, b)"
    by (auto simp: Conn_handleRead_def split: sum.splits)
  let ?w1 = "upd_conn d (\<lambda>x. x\<lparr>inputBuffer := b\<rparr>) w"
  have "keeps c ?w1 w'"
    using assms rd keeps_handleClose [OF assms(1), of cur d ?w1 w' c]
    by (auto simp: Conn_handleRead_def call_messageCallback_def app_ok_def Let_def split: if_splits option.splits)
  moreover have "keeps c w ?w1" by (rule keeps_upd_conn) simp
  ultimately show ?thesis by (rule keeps_trans [rotated])
qed

lemma keeps_queue_writeComplete [simp]: "keeps c w (queue_writeComplete cur d w)"
  by (simp add: queue_writeComplete_def split: option.splits)

lemma keeps_shutdownInLoop [simp]: "keeps c w (shutdownInLoop d w)"
  by (simp add: shutdownInLoop_def keeps_def)

lemma keeps_sent [simp]: "keeps c (w\<lparr>sent := x\<rparr>) w' = keeps c w w'" "keeps c w (w'\<lparr>sent := x\<rparr>) = keeps c w w'"
  by (simp_all add: keeps_def)

lemma keeps_handleWrite:
  assumes "handleWrite cur d r w = Inr w'"
  shows "keeps c w w'"
proof (cases "isWriting (conn_chan w d)")
  case True
  then obtain n se out where wf: "writeFd (outputBuffer (conns w d)) r = Inr (n, se, out)"
    using assms by (auto simp: handleWrite_def split: sum.splits)
  define w0 where "w0 = w\<lparr>sent := (sent w)(ch_fd (conn_chan w d) := sent w (ch_fd (conn_chan w d)) @ out)\<rparr>"
  define w1 where "w1 = upd_conn d (\<lambda>x. x\<lparr>outputBuffer := retrieve (outputBuffer x) (of_int n)\<rparr>) w0"
  define w2 where "w2 = disableWriting (tc_channel (conns w1 d)) w1"
  have k1: "keeps c w w1"
    unfolding w1_def by (rule keeps_trans [OF _ keeps_upd_conn]) (simp_all add: w0_def)
  have "keeps c w1 w2" by (simp add: w2_def switches)
  with k1 have k2: "keeps c w w2" by (rule keeps_trans)
  have k3: "keeps c w (queue_writeComplete cur d w2)"
    by (rule keeps_trans [OF k2]) simp
  have "keeps c w w0" by (simp add: w0_def)
  moreover have "w' \<in> {w0, w1, queue_writeComplete cur d w2, shutdownInLoop d (queue_writeComplete cur d w2)}"
    using assms True wf by (auto simp: handleWrite_def Let_def w0_def w1_def w2_def split: if_splits)
  ultimately show ?thesis using k1 k3 keeps_trans [OF k3 keeps_shutdownInLoop] by auto
qed (use assms in \<open>simp add: handleWrite_def\<close>)

lemma keeps_send_write: "keeps c w (snd (snd (snd (send_write cur d mem len r w))))"
proof (cases r)
  case (Wrote n)
  then show ?thesis by (auto simp: send_write_def Let_def intro: keeps_trans [OF _ keeps_queue_writeComplete])
qed (simp add: send_write_def)

lemma keeps_sendInLoop:
  assumes "sendInLoop cur d mem len r w = Inr w'"
  shows "keeps c w w'"
proof (cases "tc_state (conns w d) = kDisconnected")
  case False
  obtain nwrote remaining faultError w1 where st:
    "(if \<not> isWriting (conn_chan w d) \<and> readableBytes (outputBuffer (conns w d)) = 0
      then send_write cur d mem len r w else (0, len, False, w)) = (nwrote, remaining, faultError, w1)"
    using prod_cases4 by blast
  have k1: "keeps c w w1"
    using keeps_send_write [of c w cur d mem len r] st by (auto split: if_splits)
  have "w' = w1 \<or> (\<exists>f n b. let w3 = upd_conn d (\<lambda>y. y\<lparr>outputBuffer := b\<rparr>) (queueInLoop cur (tc_loop (conns w1 d)) (HighWaterMark f d n) w1)
      in w' = w3 \<or> w' = enableWriting (tc_channel (conns w3 d)) w3)"
    using assms False unfolding sendInLoop_def st by (auto simp: Let_def split: if_splits option.splits sum.splits)
  then show ?thesis
  proof (elim disjE exE)
    fix f n b
    define w2 where "w2 = queueInLoop cur (tc_loop (conns w1 d)) (HighWaterMark f d n) w1"
    define w3 where "w3 = upd_conn d (\<lambda>y. y\<lparr>outputBuffer := b\<rparr>) w2"
    assume "let w3 = upd_conn d (\<lambda>y. y\<lparr>outputBuffer := b\<rparr>) (queueInLoop cur (tc_loop (conns w1 d)) (HighWaterMark f d n) w1)
      in w' = w3 \<or> w' = enableWriting (tc_channel (conns w3 d)) w3"
    then have w': "w' = w3 \<or> w' = enableWriting (tc_channel (conns w3 d)) w3"
      by (simp add: w3_def w2_def Let_def)
    have "keeps c w w2" using keeps_trans [OF k1] by (simp add: w2_def)
    moreover have "keeps c w2 w3" unfolding w3_def by (rule keeps_upd_conn) simp
    ultimately have k3: "keeps c w w3" by (rule keeps_trans)
    with w' keeps_trans [OF k3] show ?thesis by (auto simp: switches)
  qed (use k1 in simp)
qed (use assms in \<open>simp add: sendInLoop_def\<close>)

lemma keeps_chans [simp]:
  "keeps c (w\<lparr>chans := x\<rparr>) w' = keeps c w w'" "keeps c w (w'\<lparr>chans := x\<rparr>) = keeps c w w'"
  "keeps c (w\<lparr>pollers := y\<rparr>) w' = keeps c w w'" "keeps c w (w'\<lparr>pollers := y\<rparr>) = keeps c w w'"
  by (simp_all add: keeps_def)

lemma keeps_connectionEstablished:
  assumes "app_ok app" and "connectionEstablished app d w = Inr w'"
  shows "keeps c w w'"
proof -
  define w1 where "w1 = setState d kConnected w"
  define ch where "ch = tc_channel (conns w1 d)"
  define w2 where "w2 = w1\<lparr>chans := (chans w1)(ch := tie d (chans w1 ch))\<rparr>"
  have "keeps c w w2" by (simp add: w2_def w1_def)
  then have "keeps c w (enableReading ch w2)" by (rule keeps_trans) (simp add: switches)
  moreover have "call_connectionCallback app d (enableReading ch w2) = Inr w'"
    using assms(2) by (simp add: connectionEstablished_def Let_def w1_def ch_def w2_def)
  ultimately show ?thesis by (blast intro: keeps_trans keeps_connectionCallback [OF assms(1)])
qed

lemma keeps_connnectionDestroyed:
  assumes "connnectionDestroyed (server_close cur) d w = Inr w'"
  shows "keeps c w w'"
proof -
  define w2 where "w2 = disableAll (tc_channel (conns w d)) (setState d kDisconnected (setState d kConnected w))"
  have "keeps c w w2"
    unfolding w2_def switches by (rule keeps_trans [OF keeps_trans]) (rule keeps_basic)+
  moreover have "then_do (call_closeCallback (server_close cur) d w2) (\<lambda>w3. Inr (Channel_remove (tc_channel (conns w3 d)) w3)) = Inr w'"
    using assms by (simp add: connnectionDestroyed_def Let_def state_number_def w2_def)
  then have "keeps c w2 w'"
    by (rule keeps_then_do) (auto intro: keeps_close)
  ultimately show ?thesis by (rule keeps_trans)
qed

lemma keeps_newConnection:
  assumes "app_ok app" and "newConnection app cur sockfd peer local w = Inr w'"
  shows "keeps c w w'"
proof -
  from assms(2) obtain ioloop p w4 where w4:
    "runInLoop (\<lambda>_. connectionEstablished app (fresh_conn w)) cur ioloop (ConnectionEstablished (fresh_conn w)) w4 = Inr w'"
    "loops w4 = loops w" "srv_loop w4 = srv_loop w" "fresh_conn w4 = fresh_conn w + 1"
    "\<And>d. d \<noteq> fresh_conn w \<Longrightarrow> conns w4 d = conns w d"
    by (auto simp: newConnection_def new_TcpConnection_def CheckLoopNotNull_def setKeepAlive_def Let_def
        setCloseCallback_def setWriteCompleteCallback_def setMessageCallback_def setConnectionCallback_def
        upd_conn_def split: sum.splits)
  have "keeps c w w4" using w4(2-5) by (simp add: keeps_def)
  moreover have "keeps c w4 w'"
    using w4(1) by (rule keeps_runInLoop) (rule keeps_connectionEstablished [OF assms(1)])
  ultimately show ?thesis by (rule keeps_trans)
qed

lemma keeps_Acceptor_listen [simp]: "keeps c w (Acceptor_listen w)"
  by (simp add: Acceptor_listen_def Socket_listen_def Let_def switches keeps_def)

lemma keeps_run_functor:
  assumes "app_ok app" and "run_functor app cur f w = Inr w'"
  shows "keeps c w w'"
  using assms keeps_sendInLoop [of cur _ _ _ _ "tick w" w'] keeps_connectionEstablished [OF assms(1)]
    keeps_connnectionDestroyed keeps_removeConnectionInLoop
  by (cases f) (auto simp: run_functor_def app_ok_def)

lemma keeps_upd_loop:
  "(\<And>lp. set (pendingFunctors lp) \<subseteq> set (pendingFunctors (g lp))) \<Longrightarrow> keeps c w (upd_loop l g w)"
  by (auto simp: keeps_def upd_loop_def)

lemma keeps_exec:
  assumes "app_ok app" and "exec app cur call w = Inr w'"
  shows "keeps c w w'"
  using assms keeps_handleRead [OF assms(1), of cur _ _ _ "tick w" w'] keeps_handleWrite [of cur _ _ "tick w" w']
    keeps_handleClose [OF assms(1), of cur _ w w'] keeps_newConnection [OF assms(1), of cur _ _ _ "tick w" w']
  by (induction app cur call w rule: exec.induct)
    (auto simp: Acceptor_handleRead_def handleError_def EventLoop_handleRead_def intro!: keeps_upd_loop
      split: accept_result.splits if_splits)


section \<open>A closed connection is never freed\<close>

text \<open>
  \<open>doomed c w\<close>: the connection is on its way out, with a call queued that will destroy it or pass
  it on to be destroyed.
\<close>

definition doomed :: "nat \<Rightarrow> server_world \<Rightarrow> bool" where
  "doomed c w \<longleftrightarrow>
     c < fresh_conn w \<and> tc_closeCallback (conns w c) = Some RemoveConnection \<and>
     (ConnectionDestroyed c \<in> set (pendingFunctors (loops w (tc_loop (conns w c)))) \<or>
      RemoveConnectionInLoop c \<in> set (pendingFunctors (loops w (srv_loop w))))"

definition closing :: "nat \<Rightarrow> server_world \<Rightarrow> bool" where
  "closing c w \<longleftrightarrow> c < fresh_conn w \<and> tc_closeCallback (conns w c) = Some RemoveConnection"

lemma doomed_keeps: "keeps c w w' \<Longrightarrow> doomed c w \<Longrightarrow> doomed c w'"
  by (auto simp: keeps_def doomed_def)

lemma closing_keeps: "keeps c w w' \<Longrightarrow> closing c w \<Longrightarrow> closing c w'"
  by (auto simp: keeps_def closing_def)

lemma doomed_closing: "doomed c w \<Longrightarrow> closing c w"
  by (simp add: doomed_def closing_def)

lemma doomed_alive: "doomed c w \<Longrightarrow> conn_alive w c"
  unfolding doomed_def conn_alive_def by (metis holds.simps(2,5))

lemma removeConnectionInLoop_doomed: "closing c w \<Longrightarrow> doomed c (removeConnectionInLoop cur c w)"
  by (simp add: doomed_def closing_def removeConnectionInLoop_def Let_def)

lemma removeConnection_doomed:
  "closing c w \<Longrightarrow> removeConnection cur c w = Inr w' \<Longrightarrow> doomed c w'"
  by (auto simp: removeConnection_def runInLoop_def removeConnectionInLoop_doomed split: if_splits)
    (simp add: doomed_def closing_def)

lemma close_doomed: "closing c w \<Longrightarrow> call_closeCallback (server_close cur) c w = Inr w' \<Longrightarrow> doomed c w'"
  using removeConnection_doomed [of c w cur w'] by (simp add: call_closeCallback_def server_close_def closing_def)

lemma destroyed_doomed:
  assumes "closing c w" and "connnectionDestroyed (server_close cur) c w = Inr w'"
  shows "doomed c w'"
proof -
  let ?w2 = "disableAll (tc_channel (conns w c)) (setState c kDisconnected (setState c kConnected w))"
  have "closing c ?w2" using assms(1) by (simp add: closing_def switches)
  moreover from assms(2) obtain w3 where w3: "call_closeCallback (server_close cur) c ?w2 = Inr w3"
      "w' = Channel_remove (tc_channel (conns w3 c)) w3"
    by (auto simp: connnectionDestroyed_def Let_def state_number_def then_do_def split: sum.splits)
  ultimately have "doomed c w3" by (blast intro: close_doomed)
  then show ?thesis using doomed_keeps [OF keeps_basic(4)] w3(2) by simp
qed

lemma run_doomed:
  assumes "app_ok app" and "closing c w" and "run_functor app cur f w = Inr w'"
    and "f = ConnectionDestroyed c \<or> f = RemoveConnectionInLoop c \<or> doomed c w"
  shows "doomed c w'"
  using assms destroyed_doomed [OF assms(2)] removeConnectionInLoop_doomed [OF assms(2)]
    doomed_keeps [OF keeps_run_functor [OF assms(1,3)]]
  by (auto simp: run_functor_def)

lemma run_all_doomed:
  assumes "app_ok app" and "fold_result (run_functor app cur) fs w = Inr w'" and "closing c w"
    and "ConnectionDestroyed c \<in> set fs \<or> RemoveConnectionInLoop c \<in> set fs \<or> doomed c w"
  shows "doomed c w'"
  using assms(2-4)
proof (induction fs arbitrary: w)
  case (Cons f fs)
  from Cons.prems(1) obtain w1 where w1: "run_functor app cur f w = Inr w1"
    and rest: "fold_result (run_functor app cur) fs w1 = Inr w'" by (auto split: sum.splits)
  have "closing c w1" using closing_keeps [OF keeps_run_functor [OF assms(1) w1]] Cons.prems(2) by blast
  moreover have "ConnectionDestroyed c \<in> set fs \<or> RemoveConnectionInLoop c \<in> set fs \<or> doomed c w1"
    using run_doomed [OF assms(1) Cons.prems(2) w1] Cons.prems(3) by auto
  ultimately show ?case using Cons.IH [OF rest] by blast
qed simp

lemma keeps_fold:
  assumes "\<And>x w w'. g x w = Inr w' \<Longrightarrow> keeps c w w'" and "fold_result g xs w = Inr w'"
  shows "keeps c w w'"
  using assms(2)
proof (induction xs arbitrary: w)
  case (Cons x xs)
  then show ?case by (auto split: sum.splits intro: keeps_trans assms(1))
qed simp

lemma doPending_doomed:
  assumes "app_ok app" and "doomed c w" and "doPendingFunctors (run_functor app cur) l w = Inr w'"
  shows "doomed c w'"
proof -
  let ?w0 = "upd_loop l swap_pending w"
  from assms(3) obtain w1 where w1: "fold_result (run_functor app cur) (pendingFunctors (loops w l)) ?w0 = Inr w1"
      "w' = upd_loop l end_pending w1"
    by (auto simp: doPendingFunctors_def Let_def split: sum.splits)
  have frame: "conns ?w0 = conns w" "fresh_conn ?w0 = fresh_conn w" "srv_loop ?w0 = srv_loop w"
    by (simp_all add: upd_loop_def)
  have "closing c ?w0" using assms(2) frame by (simp add: closing_def doomed_def)
  moreover have "ConnectionDestroyed c \<in> set (pendingFunctors (loops w l)) \<or>
      RemoveConnectionInLoop c \<in> set (pendingFunctors (loops w l)) \<or> doomed c ?w0"
    using assms(2) frame by (auto simp: doomed_def)
  ultimately have "doomed c w1" using run_all_doomed [OF assms(1) w1(1)] by blast
  then show ?thesis
    unfolding w1(2) by (rule doomed_keeps [rotated]) (rule keeps_upd_loop, simp)
qed

lemma turn_doomed:
  assumes "app_ok app" and "doomed c w" and "server_turn app l polled w = Inr w'"
  shows "doomed c w'"
proof -
  obtain chs p active where po: "poll (snd polled) (chans w) (pollers w l) [] = (chs, p, active)"
    using prod_cases3 by blast
  define w1 where "w1 = upd_loop l (\<lambda>lp. lp\<lparr>activeChannels := active, pollReturnTime := fst polled\<rparr>)
      (w\<lparr>chans := chs, pollers := (pollers w)(l := p)\<rparr>)"
  define cur where "cur = threadId (loops w l)"
  from assms(3) obtain w2 where w2: "fold_result (handle_channel conn_alive (exec app cur) l) active w1 = Inr w2"
      "doPendingFunctors (run_functor app cur) l w2 = Inr w'"
    by (auto simp: server_turn_def loop_body_def po Let_def w1_def cur_def split: sum.splits)
  have "keeps c w w1" unfolding w1_def by (rule keeps_trans [OF _ keeps_upd_loop]) simp_all
  moreover have "keeps c w1 w2"
    using w2(1) by (rule keeps_fold [rotated]) (auto simp: handle_channel_def intro: keeps_fold keeps_exec [OF assms(1)])
  ultimately have "doomed c w2" using assms(2) by (blast intro: doomed_keeps)
  with assms(1) show ?thesis using w2(2) by (rule doPending_doomed)
qed


section \<open>Names of connections\<close>

lemma show_int_inject [simp]: "show_int i = show_int j \<longleftrightarrow> i = j"
proof -
  have "hd (show_nat n) \<noteq> CHR ''-''" for n
  proof -
    have "hd (show_nat n) \<in> set (show_nat n)" by simp
    then have "is_digit (hd (show_nat n))" by (rule show_nat_digits)
    then show ?thesis by (auto simp: is_digit_def)
  qed
  then have "CHR ''-'' # s \<noteq> show_nat n" "show_nat n \<noteq> CHR ''-'' # s" for n s by (metis list.sel(1))+
  then show ?thesis by (auto simp: show_int_def)
qed

lemma length_show_int: "length (show_int (sint (i :: 32 word))) \<le> 11"
proof -
  have "- (2 ^ 31) \<le> sint i" "sint i < 2 ^ 31"
    using sint_ge [of i] sint_lt [of i] by simp_all
  then have "nat \<bar>sint i\<bar> < 10 ^ 10" by simp
  then have "length (show_nat (nat \<bar>sint i\<bar>)) \<le> 10" by (rule length_show_nat) simp
  then show ?thesis by (cases "sint i < 0") (simp_all add: show_int_def)
qed

text \<open>With an address as \<open>toIpPort\<close> prints it, the 64 bytes hold the whole suffix.\<close>

lemma connName_whole:
  assumes "length (ipPort w) \<le> 21"
  shows "connName w = srv_name w @ ''~'' @ ipPort w @ ''#'' @ show_int (sint (nextConnId w))"
  using assms length_show_int [of "nextConnId w"] by (simp add: connName_def snprintf_def)


section \<open>Properties\<close>

text \<open>A server on one loop of thread 1, with one connection, and an application that does nothing.\<close>

definition demo_app :: app_fun where
  "demo_app u w = Inr w"

definition demo_conn :: tcpconn where
  "demo_conn = bare_conn\<lparr>tc_name := ''s~#1''\<rparr>"

definition demo_server :: "int \<Rightarrow> loop_id list \<Rightarrow> server_world" where
  "demo_server next_id ls = \<lparr>chans = (\<lambda>c. new_Channel 0 9), pollers = (\<lambda>l. new_EpollPoller),
     loops = (\<lambda>l. bare_loop\<lparr>threadId := Suc l\<rparr>), loopInThisThread = Map.empty, conns = (\<lambda>c. demo_conn),
     sent = (\<lambda>f. []), shut_wr = {}, keepAlive = {}, srv_loop = 0, ipPort = ''127.0.0.1:80'', srv_name = ''s'',
     srv_acceptor = \<lparr>acc_loop = 0, acceptSocket = 4, acceptChannel = 0, newConnectionCallback = True, listenning = True\<rparr>,
     threadPool = \<lparr>baseloop = 0, pool_name = ''s'', pool_started = True, numThreads = int (length ls), pool_next = 0, pool_loops = ls\<rparr>,
     srv_connectionCallback = Some 0, srv_messageCallback = Some 1, srv_writeCompleteCallback = None, srv_started = 1,
     nextConnId = of_int next_id, connections = [''s~#1'' \<mapsto> 0], listening = {}, bound = Map.empty, reuse = {}, fresh_conn = 1,
     fresh_chan = 2, sys_read = (\<lambda>n. ReadData []), sys_write = (\<lambda>n. WriteErr EAGAIN), sys_accept = (\<lambda>n. AcceptErr EAGAIN),
     sys_bind = (\<lambda>s addr. True), sys_listen = (\<lambda>s. True), ncalls = 0\<rparr>"

lemma demo_app_ok: "app_ok demo_app"
  by (simp add: app_ok_def demo_app_def)

text \<open>
  C15. A connection that has been closed is never freed. \<open>connnectionDestroyed\<close> tests
  \<open>state_ = kConnected\<close>, an assignment, so it always calls the close callback again, which makes
  the server queue \<open>connnectionDestroyed\<close> again: from the moment the peer's close has been
  handled, after any number of turns of any loops, a call that holds the connection is queued, and
  the object (and with it its socket) stays.
\<close>

theorem closed_connection_never_freed:
  assumes "app_ok app" and "c < fresh_conn w" and "tc_closeCallback (conns w c) = Some RemoveConnection"
    and "handleClose app (server_close cur) c w = Inr w0"
    and "fold_result (\<lambda>(l, polled). server_turn app l polled) turns w0 = Inr w'"
  shows "conn_alive w' c \<and>
    (ConnectionDestroyed c \<in> set (pendingFunctors (loops w' (tc_loop (conns w' c)))) \<or>
     RemoveConnectionInLoop c \<in> set (pendingFunctors (loops w' (srv_loop w'))))"
proof -
  let ?w2 = "disableAll (tc_channel (conns w c)) (setState c kDisconnected w)"
  from assms(4) obtain w3 where w3: "call_connectionCallback app c ?w2 = Inr w3"
      "call_closeCallback (server_close cur) c w3 = Inr w0"
    by (auto simp: handleClose_def Let_def then_do_def split: sum.splits)
  have "closing c ?w2" using assms(2,3) by (simp add: closing_def switches)
  then have "closing c w3" using closing_keeps [OF keeps_connectionCallback [OF assms(1) w3(1)]] by blast
  then have "doomed c w0" using w3(2) by (rule close_doomed)
  with assms(5) have "doomed c w'"
  proof (induction turns arbitrary: w0)
    case (Cons t ts)
    then show ?case by (auto split: prod.splits sum.splits intro: turn_doomed [OF assms(1)])
  qed simp
  then show ?thesis using doomed_alive by (simp add: doomed_def)
qed

text \<open>The peer of connection 0 closes; then loop 0 makes one turn.\<close>

definition demo_closed :: server_world where
  "demo_closed = queueInLoop 1 0 (ConnectionDestroyed 0)
     ((disableAll 1 (setState 0 kDisconnected (demo_server 2 [])))\<lparr>connections := Map.empty\<rparr>)"

lemma demo_close: "handleClose demo_app (server_close 1) 0 (demo_server 2 []) = Inr demo_closed"
  by (simp add: handleClose_def demo_closed_def Let_def call_connectionCallback_def demo_app_def call_closeCallback_def
      server_close_def removeConnection_def runInLoop_def isInLoopThread_def removeConnectionInLoop_def switches
      demo_server_def demo_conn_def bare_conn_def)

lemma destroy_total:
  "tc_closeCallback (conns w c) = Some RemoveConnection \<Longrightarrow> \<exists>w'. run_functor app cur (ConnectionDestroyed c) w = Inr w'"
  by (simp add: run_functor_def connnectionDestroyed_def state_number_def call_closeCallback_def server_close_def
      removeConnection_def runInLoop_def Let_def switches)

lemma demo_turn: "\<exists>w'. server_turn demo_app 0 (5, WaitEvents []) demo_closed = Inr w'"
proof -
  let ?w0 = "upd_loop 0 swap_pending (upd_loop 0 (\<lambda>lp. lp\<lparr>activeChannels := [], pollReturnTime := 5\<rparr>) demo_closed)"
  have "tc_closeCallback (conns ?w0 0) = Some RemoveConnection"
    by (simp add: upd_loop_def demo_closed_def switches) (simp add: demo_server_def demo_conn_def bare_conn_def)
  from destroy_total [OF this] obtain w1 where
    "run_functor demo_app (threadId (loops demo_closed 0)) (ConnectionDestroyed 0) ?w0 = Inr w1" by blast
  moreover have "pendingFunctors (loops demo_closed 0) = [ConnectionDestroyed 0]"
    by (simp add: demo_closed_def switches) (simp add: demo_server_def bare_loop_def)
  ultimately show ?thesis by (simp add: server_turn_def loop_body_def poll_def doPendingFunctors_def Let_def)
qed

theorem closed_connection_never_freed_witness:
  "\<exists>w'. fold_result (\<lambda>(l, polled). server_turn demo_app l polled) [(0, 5, WaitEvents [])] demo_closed = Inr w' \<and>
     conn_alive w' 0"
proof -
  obtain w' where w': "fold_result (\<lambda>(l, polled). server_turn demo_app l polled) [(0, 5, WaitEvents [])] demo_closed = Inr w'"
    using demo_turn by auto
  have "0 < fresh_conn (demo_server 2 [])" "tc_closeCallback (conns (demo_server 2 []) 0) = Some RemoveConnection"
    by (simp_all add: demo_server_def demo_conn_def bare_conn_def)
  from closed_connection_never_freed [OF demo_app_ok this demo_close w'] w' show ?thesis by blast
qed

text \<open>
  C16. Every connection of a server has its own name: with the address as \<open>toIpPort\<close> prints it,
  the 64-byte array never cuts the suffix, and two names are equal only if the connection
  counters are.
\<close>

theorem connection_names_unique:
  assumes "toIpPort addr = Inr (ipPort w)" and "ipPort w' = ipPort w" and "srv_name w' = srv_name w"
  shows "connName w = srv_name w @ ''~'' @ ipPort w @ ''#'' @ show_int (sint (nextConnId w)) \<and>
    (connName w' = connName w \<longleftrightarrow> nextConnId w' = nextConnId w)"
proof -
  have "length (ipPort w) \<le> 21" using toIpPort_ok [of addr] assms(1) by auto
  then show ?thesis
    using connName_whole [of w] connName_whole [of w'] assms(2,3) by (auto dest: signed_word_eqI)
qed

theorem connection_names_unique_witness:
  "\<exists>w w'. toIpPort (new_InetAddress 80 (dotted 127 0 0 1)) = Inr (ipPort w) \<and> connName w' \<noteq> connName w"
proof -
  let ?a = "new_InetAddress 80 (dotted 127 0 0 1)"
  obtain ip where ip: "toIpPort ?a = Inr ip" using toIpPort_ok [of ?a] by blast
  let ?w1 = "(demo_server 1 [])\<lparr>ipPort := ip\<rparr>" and ?w2 = "(demo_server 2 [])\<lparr>ipPort := ip\<rparr>"
  have "nextConnId ?w2 \<noteq> nextConnId ?w1" "srv_name ?w2 = srv_name ?w1" by (simp_all add: demo_server_def)
  with connection_names_unique [of ?a ?w1 ?w2] ip have "toIpPort ?a = Inr (ipPort ?w1) \<and> connName ?w2 \<noteq> connName ?w1"
    by auto
  then show ?thesis by blast
qed

text \<open>
  A new connection goes to the pool's next loop. When that loop runs on another thread, the
  connection is in the server's map under its name, is still connecting, has the server's
  callbacks, and its establishment is queued in that loop with a wake-up; no other entry changes.
\<close>

theorem new_connection_registered:
  assumes "pool_inv (threadPool w)" and "pool_loops (threadPool w) \<noteq> []"
    and "io = pool_loops (threadPool w) ! nat (pool_next (threadPool w))" and "threadId (loops w io) \<noteq> cur"
  shows "\<exists>w'. newConnection app cur s peer local w = Inr w' \<and>
    connections w' = (connections w)(connName w \<mapsto> fresh_conn w) \<and>
    tc_loop (conns w' (fresh_conn w)) = io \<and> tc_state (conns w' (fresh_conn w)) = kConnecting \<and>
    tc_socket (conns w' (fresh_conn w)) = s \<and> conn_inv w' (fresh_conn w) \<and>
    tc_closeCallback (conns w' (fresh_conn w)) = Some RemoveConnection \<and>
    tc_messageCallback (conns w' (fresh_conn w)) = srv_messageCallback w \<and>
    pendingFunctors (loops w' io) = pendingFunctors (loops w io) @ [ConnectionEstablished (fresh_conn w)] \<and>
    0 < wakeupCount (loops w' io) \<and> nextConnId w' = nextConnId w + 1"
proof -
  from getNextLoop_inv [OF assms(1,2)] assms(3) obtain p where p: "getNextLoop (threadPool w) = Inr (io, p)" by blast
  have "0 < wakeupCount (queue_wakeup cur (queue_emplace f (loops w io)))" for f
    using assms(4) by (intro queue_wakeup_count(2)) simp
  then show ?thesis
    using p assms(4) new_Buffer_inv [of kInitialSize]
    by (auto simp: newConnection_def new_TcpConnection_def CheckLoopNotNull_def setKeepAlive_def Let_def
        setCloseCallback_def setWriteCompleteCallback_def setMessageCallback_def setConnectionCallback_def
        upd_conn_def runInLoop_def isInLoopThread_def queueInLoop_def upd_loop_def conn_inv_def conn_chan_def
        new_Channel_def isWriting_def kInitialSize_def)
qed

theorem new_connection_registered_witness:
  "\<exists>w'. newConnection demo_app 1 12 (new_InetAddress 1 ''1.2.3.4'') (new_InetAddress 2 ''1.2.3.4'') (demo_server 2 [5, 6]) = Inr w' \<and>
     tc_loop (conns w' 1) = 5"
  using new_connection_registered [of "demo_server 2 [5, 6]" 5 1 demo_app 12]
  by (force simp: demo_server_def pool_inv_def)

text \<open>
  Destroying the server on the thread of its loop, with a connection that lives on the same
  thread, uses a dead iterator: the connection is destroyed in place and its close callback erases
  the entry the destructor's traversal stands on.
\<close>

theorem server_destructor_dead_iterator:
  assumes "connections w name = Some c" and "tc_name (conns w c) = name"
    and "tc_closeCallback (conns w c) = Some RemoveConnection"
    and "threadId (loops w (tc_loop (conns w c))) = cur" and "threadId (loops w (srv_loop w)) = cur"
  shows "delete_TcpServer cur (name # names) w = Inl UseAfterFree"
  using assms by (simp add: delete_TcpServer_def destroy_entry_def runInLoop_def isInLoopThread_def connnectionDestroyed_def
        state_number_def Let_def call_closeCallback_def server_close_def removeConnection_def
        removeConnectionInLoop_def switches)

theorem server_destructor_dead_iterator_witness:
  "delete_TcpServer 1 [''s~#1''] (demo_server 2 []) = Inl UseAfterFree"
  by (rule server_destructor_dead_iterator [where c = 0])
    (simp_all add: demo_server_def demo_conn_def bare_conn_def)

text \<open>
  Establishing a connection: it becomes connected, its channel is tied to it and the kernel
  watches its descriptor for reading, all before the connection callback runs.
\<close>

theorem established_is_watched:
  assumes "tc_connectionCallback (conns w c) = Some f" and "ch = tc_channel (conns w c)"
    and "ch_index (chans w ch) = kNew" and "ch_events (chans w ch) = 0" and "l = ch_loop (chans w ch)"
    and "interests (pollers w l) (ch_fd (chans w ch)) = None"
  shows "\<exists>w1. connectionEstablished app c w = app (OnConnection f c) w1 \<and> tc_state (conns w1 c) = kConnected \<and>
    interests (pollers w1 l) (ch_fd (chans w ch)) = Some (kReadEvent, ch) \<and>
    ch_tied (chans w1 ch) \<and> ch_tie (chans w1 ch) = Some c \<and> EventLoop_hasChannel l ch w1"
  using assms
  by (auto simp: connectionEstablished_def Let_def call_connectionCallback_def switches switch_events_def
      change_events_defs tie_def EventLoop_hasChannel_def hasChannel_def index_defs)


theorem established_is_watched_witness:
  "\<exists>w1. connectionEstablished demo_app 0 (demo_server 2 []) = Inr w1 \<and> interests (pollers w1 0) 9 = Some (kReadEvent, 1)"
  using established_is_watched [of "demo_server 2 []" 0 0 1 0 demo_app]
  by (auto simp: demo_server_def demo_conn_def bare_conn_def demo_app_def new_Channel_def new_EpollPoller_def index_defs)

end
