(* ===== verification/Reactor.thy ===== *)
theory Reactor
  imports TcpServer
begin

text \<open>
  The reactor library as a whole: a client from its arrival at the listening socket to the bytes it sent
  in the hands of the application.  Three turns of two loops on two threads do it: the base loop accepts
  and hands the connection to a loop of the pool; that loop, woken up, establishes it; and, when the
  connection's descriptor becomes readable, the loop reads and calls the message callback.
\<close>

section \<open>A turn in which one channel is ready\<close>

text \<open>The world after \<open>poll\<close> has reported \<open>ev\<close> for channel \<open>ch\<close>.\<close>

definition polled_one :: "loop_id \<Rightarrow> int \<Rightarrow> events \<Rightarrow> nat \<Rightarrow> server_world \<Rightarrow> server_world" where
  "polled_one l t ev ch w =
     (case poll (WaitEvents [(ev, ch)]) (chans w) (pollers w l) [] of
        (chs, p, active) \<Rightarrow>
          upd_loop l (\<lambda>lp. lp\<lparr>activeChannels := active, pollReturnTime := t\<rparr>)
            (w\<lparr>chans := chs, pollers := (pollers w)(l := p)\<rparr>))"

lemma polled_one_frame [simp]:
  "conns (polled_one l t ev ch w) = conns w" "connections (polled_one l t ev ch w) = connections w"
  "chans (polled_one l t ev ch w) = (chans w)(ch := (chans w ch)\<lparr>ch_revents := ev\<rparr>)"
  "interests (pollers (polled_one l t ev ch w) l') = interests (pollers w l')"
  "pendingFunctors (loops (polled_one l t ev ch w) l') = pendingFunctors (loops w l')"
  "threadId (loops (polled_one l t ev ch w) l') = threadId (loops w l')"
  "wakeupCount (loops (polled_one l t ev ch w) l') = wakeupCount (loops w l')"
  "ncalls (polled_one l t ev ch w) = ncalls w" "sys_read (polled_one l t ev ch w) = sys_read w"
  "sys_accept (polled_one l t ev ch w) = sys_accept w" "srv_acceptor (polled_one l t ev ch w) = srv_acceptor w"
  "threadPool (polled_one l t ev ch w) = threadPool w" "fresh_conn (polled_one l t ev ch w) = fresh_conn w"
  "fresh_chan (polled_one l t ev ch w) = fresh_chan w" "connName (polled_one l t ev ch w) = connName w"
  "srv_messageCallback (polled_one l t ev ch w) = srv_messageCallback w"
  "srv_connectionCallback (polled_one l t ev ch w) = srv_connectionCallback w"
  by (auto simp: polled_one_def poll_def upd_loop_def connName_def Let_def)

lemma conn_alive_polled_one [simp]: "conn_alive (polled_one l t ev ch w) = conn_alive w"
  by (rule ext) (simp add: conn_alive_def)

lemma fold_result_one: "fold_result f [x] s = f x s"
  by (cases "f x s") simp_all

lemma server_turn_one:
  "server_turn app l (t, WaitEvents [(ev, ch)]) w =
     then_do (fold_result (exec app (threadId (loops w l)))
                (handlelEvent (conn_alive (polled_one l t ev ch w)) t (chans (polled_one l t ev ch w) ch))
                (polled_one l t ev ch w))
       (doPendingFunctors (run_functor app (threadId (loops w l))) l)"
  by (auto simp: server_turn_def loop_body_def polled_one_def poll_def handle_channel_def Let_def then_do_def
      split: sum.splits)

text \<open>A readable channel that is not tied, or whose owner lives, gets its read callback called.\<close>

lemma handle_readable:
  assumes "readCallback ch = Some f" and "ch_tied ch \<longrightarrow> (\<exists>c. ch_tie ch = Some c \<and> alive c)"
  shows "handlelEvent alive t (ch\<lparr>ch_revents := EPOLLIN\<rparr>) = [CallRead f t]"
proof -
  have "EPOLLIN AND EPOLLHUP = 0" "EPOLLIN AND EPOLLERR = 0" "EPOLLIN AND EPOLLOUT = 0"
    "EPOLLIN AND (EPOLLIN OR EPOLLPRI) \<noteq> 0"
    by (simp_all add: epoll_bits)
  with assms show ?thesis by (auto simp: handlelEvent_def handleEventWithGuand_def call_if_def)
qed

lemma turn_readable:
  assumes "readCallback (chans w ch) = Some f"
    and "ch_tied (chans w ch) \<longrightarrow> (\<exists>c. ch_tie (chans w ch) = Some c \<and> conn_alive w c)"
  shows "server_turn app l (t, WaitEvents [(EPOLLIN, ch)]) w =
     then_do (exec app (threadId (loops w l)) (CallRead f t) (polled_one l t EPOLLIN ch w))
       (doPendingFunctors (run_functor app (threadId (loops w l))) l)"
proof -
  have "handlelEvent (conn_alive w) t ((chans w ch)\<lparr>ch_revents := EPOLLIN\<rparr>) = [CallRead f t]"
    by (rule handle_readable) (use assms in auto)
  then show ?thesis unfolding server_turn_one by (simp add: fold_result_one del: fold_result.simps)
qed

lemma doPending_none:
  assumes "pendingFunctors (loops w l) = []"
  shows "\<exists>w'. doPendingFunctors run l w = Inr w' \<and> w' = upd_loop l end_pending (upd_loop l swap_pending w)"
  using assms by (simp add: doPendingFunctors_def)

lemma end_turn_frame [simp]:
  "pendingFunctors (loops (upd_loop l end_pending (upd_loop l swap_pending w)) l') =
     (if l' = l then [] else pendingFunctors (loops w l'))"
  "threadId (loops (upd_loop l end_pending w) l') = threadId (loops w l')"
  "wakeupCount (loops (upd_loop l end_pending w) l') = wakeupCount (loops w l')"
  "threadId (loops (upd_loop l swap_pending w) l') = threadId (loops w l')"
  "wakeupCount (loops (upd_loop l swap_pending w) l') = wakeupCount (loops w l')"
  by simp_all

lemma upd_loop_world [simp]:
  "conns (upd_loop l g w) = conns w" "connections (upd_loop l g w) = connections w" "ncalls (upd_loop l g w) = ncalls w"
  "sys_read (upd_loop l g w) = sys_read w"
  by (simp_all add: upd_loop_def)


section \<open>The three turns\<close>

definition fresh_channel :: "loop_id \<Rightarrow> fd \<Rightarrow> nat \<Rightarrow> chan_cb channel" where
  "fresh_channel l s c =
     (new_Channel l s)\<lparr>readCallback := Some (ConnRead c), writeCallback := Some (ConnWrite c),
        closeCallback := Some (ConnClose c), errorCallback := Some (ConnError c)\<rparr>"

text \<open>The connection \<open>c\<close> with channel \<open>ch\<close>, made for loop \<open>io\<close> and waiting there to be established.\<close>

definition handed_over :: "loop_id \<Rightarrow> fd \<Rightarrow> nat \<Rightarrow> nat \<Rightarrow> nat \<Rightarrow> nat \<Rightarrow> server_world \<Rightarrow> bool" where
  "handed_over io s c ch g f w \<longleftrightarrow>
     tc_channel (conns w c) = ch \<and> tc_loop (conns w c) = io \<and> tc_state (conns w c) = kConnecting \<and>
     tc_connectionCallback (conns w c) = Some g \<and> tc_messageCallback (conns w c) = Some f \<and>
     inputBuffer (conns w c) = new_Buffer kInitialSize \<and> chans w ch = fresh_channel io s c \<and>
     pendingFunctors (loops w io) = [ConnectionEstablished c] \<and> c \<in> ran (connections w)"

lemma newConnection_to_pool:
  assumes "getNextLoop (threadPool w) = Inr (io, p)" and "threadId (loops w io) \<noteq> cur"
    and "pendingFunctors (loops w io) = []"
    and "srv_connectionCallback w = Some g" and "srv_messageCallback w = Some f"
  shows "\<exists>w'. newConnection app cur s peer local w = Inr w' \<and>
    handed_over io s (fresh_conn w) (fresh_chan w) g f w' \<and> 0 < wakeupCount (loops w' io) \<and>
    connections w' = (connections w)(connName w \<mapsto> fresh_conn w) \<and> pollers w' = pollers w \<and>
    (\<forall>d. d \<noteq> fresh_chan w \<longrightarrow> chans w' d = chans w d) \<and> (\<forall>l. l \<noteq> io \<longrightarrow> loops w' l = loops w l) \<and>
    threadId (loops w' io) = threadId (loops w io) \<and> ncalls w' = ncalls w \<and> sys_read w' = sys_read w"
proof -
  have "0 < wakeupCount (queue_wakeup cur (queue_emplace x (loops w io)))" for x
    using assms(2) by (intro queue_wakeup_count(2)) simp
  moreover have "fresh_conn w \<in> ran ((connections w)(connName w \<mapsto> fresh_conn w))"
    by (rule ranI [of _ "connName w"]) simp
  ultimately show ?thesis
    using assms
    by (simp add: newConnection_def new_TcpConnection_def CheckLoopNotNull_def setKeepAlive_def Let_def
        setCloseCallback_def setWriteCompleteCallback_def setMessageCallback_def setConnectionCallback_def
        upd_conn_def runInLoop_def isInLoopThread_def queueInLoop_def upd_loop_def handed_over_def fresh_channel_def)
qed

lemma accept_turn:
  assumes ach: "readCallback (chans w ach) = Some AcceptRead" "\<not> ch_tied (chans w ach)"
    and acc: "newConnectionCallback (srv_acceptor w)" "sys_accept w (ncalls w) = Accepted s peer local"
    and pool: "getNextLoop (threadPool w) = Inr (io, p)" "io \<noteq> b" "threadId (loops w io) \<noteq> threadId (loops w b)"
    and idle: "pendingFunctors (loops w io) = []" "pendingFunctors (loops w b) = []"
    and cbs: "srv_connectionCallback w = Some g" "srv_messageCallback w = Some f"
  shows "\<exists>w1. server_turn app b (t, WaitEvents [(EPOLLIN, ach)]) w = Inr w1 \<and>
    handed_over io s (fresh_conn w) (fresh_chan w) g f w1 \<and> 0 < wakeupCount (loops w1 io) \<and>
    connections w1 = (connections w)(connName w \<mapsto> fresh_conn w) \<and>
    (\<forall>l. interests (pollers w1 l) = interests (pollers w l)) \<and>
    (\<forall>d. d \<noteq> fresh_chan w \<and> d \<noteq> ach \<longrightarrow> chans w1 d = chans w d) \<and>
    threadId (loops w1 io) = threadId (loops w io) \<and> ncalls w1 = ncalls w + 1 \<and> sys_read w1 = sys_read w"
proof -
  define x where "x = tick (polled_one b t EPOLLIN ach w)"
  have "getNextLoop (threadPool x) = Inr (io, p)" "threadId (loops x io) \<noteq> threadId (loops w b)"
    "pendingFunctors (loops x io) = []" "srv_connectionCallback x = Some g" "srv_messageCallback x = Some f"
    using pool idle cbs by (simp_all add: x_def, simp_all add: tick_def)
  from newConnection_to_pool [OF this, of app s peer local] obtain y where
    y: "newConnection app (threadId (loops w b)) s peer local x = Inr y"
      "handed_over io s (fresh_conn x) (fresh_chan x) g f y" "0 < wakeupCount (loops y io)"
      "connections y = (connections x)(connName x \<mapsto> fresh_conn x)" "pollers y = pollers x"
      "\<forall>d. d \<noteq> fresh_chan x \<longrightarrow> chans y d = chans x d" "\<forall>l. l \<noteq> io \<longrightarrow> loops y l = loops x l"
      "threadId (loops y io) = threadId (loops x io)" "ncalls y = ncalls x" "sys_read y = sys_read x" by blast
  define w1 where "w1 = upd_loop b end_pending (upd_loop b swap_pending y)"
  have "pendingFunctors (loops y b) = []" using y(7) pool(2) idle(2) by (simp add: x_def)
  then have "doPendingFunctors run b y = Inr w1" for run using doPending_none [of y b run] by (simp add: w1_def)
  moreover have "exec app (threadId (loops w b)) (CallRead AcceptRead t) (polled_one b t EPOLLIN ach w) = Inr y"
    using acc y(1) by (simp add: Acceptor_handleRead_def x_def)
  ultimately have "server_turn app b (t, WaitEvents [(EPOLLIN, ach)]) w = Inr w1"
    using turn_readable [of w ach AcceptRead app b t] ach by simp
  moreover have "fresh_conn x = fresh_conn w" "fresh_chan x = fresh_chan w" "connName x = connName w"
    by (simp_all add: x_def, simp_all add: tick_def connName_def polled_one_def poll_def Let_def upd_loop_def)
  ultimately show ?thesis
    using y pool(2)
    by (intro exI [of _ w1]) (auto simp: w1_def handed_over_def x_def, auto simp: tick_def)
qed

text \<open>
  What the connection callback of the application may change here: anything but this connection, its
  channel, the loop that serves it and the answers of the system still to come.
\<close>

definition undisturbed :: "loop_id \<Rightarrow> nat \<Rightarrow> nat \<Rightarrow> server_world \<Rightarrow> server_world \<Rightarrow> bool" where
  "undisturbed io c ch w w' \<longleftrightarrow>
     conns w' c = conns w c \<and> chans w' ch = chans w ch \<and> interests (pollers w' io) = interests (pollers w io) \<and>
     loops w' io = loops w io \<and> connections w' = connections w \<and> sys_read w' = sys_read w \<and> ncalls w' = ncalls w"

text \<open>The connection is up: connected, tied to its channel, alive, and watched for reading.\<close>

definition established :: "loop_id \<Rightarrow> fd \<Rightarrow> nat \<Rightarrow> nat \<Rightarrow> nat \<Rightarrow> server_world \<Rightarrow> bool" where
  "established io s c ch f w \<longleftrightarrow>
     tc_state (conns w c) = kConnected \<and> tc_messageCallback (conns w c) = Some f \<and>
     inputBuffer (conns w c) = new_Buffer kInitialSize \<and>
     readCallback (chans w ch) = Some (ConnRead c) \<and> ch_tied (chans w ch) \<and> ch_tie (chans w ch) = Some c \<and>
     interests (pollers w io) s = Some (kReadEvent, ch) \<and> pendingFunctors (loops w io) = [] \<and> c \<in> ran (connections w)"

lemma establishes:
  assumes "handed_over io s c ch g f w" and "interests (pollers w io) s = None"
    and "pendingFunctors (loops w' io) = []" and "w' = upd_loop io h w"
  shows "\<exists>w1. connectionEstablished app c w' = app (OnConnection g c) w1 \<and> established io s c ch f w1 \<and>
    loops w1 = loops w' \<and> connections w1 = connections w \<and> ncalls w1 = ncalls w \<and> sys_read w1 = sys_read w"
proof -
  let ?w1 = "enableReading ch ((setState c kConnected w')\<lparr>chans := (chans w')(ch := tie c (chans w' ch))\<rparr>)"
  have "connectionEstablished app c w' = app (OnConnection g c) ?w1"
    using assms by (simp add: handed_over_def connectionEstablished_def Let_def call_connectionCallback_def switches)
  moreover have "ncalls ?w1 = ncalls w" "sys_read ?w1 = sys_read w"
    unfolding switches switch_events_def assms(4) by (simp_all add: Let_def setState_def upd_conn_def upd_loop_def)
  ultimately show ?thesis
    using assms
    by (intro exI [of _ ?w1])
      (simp add: handed_over_def established_def fresh_channel_def new_Channel_def switches switch_events_def
        change_events_defs tie_def index_defs Let_def)
qed

lemma establish_turn:
  assumes h: "handed_over io s c ch g f w" and free: "interests (pollers w io) s = None"
    and wch: "readCallback (chans w wch) = Some (WakeupRead io)" "\<not> ch_tied (chans w wch)" "wch \<noteq> ch"
    and app: "\<And>x. \<exists>y. app (OnConnection g c) x = Inr y \<and> undisturbed io c ch x y"
  shows "\<exists>w2. server_turn app io (t, WaitEvents [(EPOLLIN, wch)]) w = Inr w2 \<and> established io s c ch f w2 \<and>
    connections w2 = connections w \<and> ncalls w2 = ncalls w \<and> sys_read w2 = sys_read w \<and>
    wakeupCount (loops w2 io) = 0 \<and> threadId (loops w2 io) = threadId (loops w io)"
proof -
  let ?cur = "threadId (loops w io)"
  define x where "x = upd_loop io EventLoop_handleRead (polled_one io t EPOLLIN wch w)"
  define y where "y = upd_loop io swap_pending x"
  have hx: "handed_over io s c ch g f x" using h wch(3) by (simp add: handed_over_def x_def)
  moreover have "interests (pollers x io) s = None" using free by (simp add: x_def)
  ultimately obtain z where z: "connectionEstablished app c y = app (OnConnection g c) z" "established io s c ch f z"
      "loops z = loops y" "connections z = connections x" "ncalls z = ncalls x" "sys_read z = sys_read x"
    using establishes [of io s c ch g f x y swap_pending app] by (auto simp: y_def)
  from app obtain z' where z': "app (OnConnection g c) z = Inr z'" "undisturbed io c ch z z'" by blast
  have "pendingFunctors (loops x io) = [ConnectionEstablished c]" using hx by (simp add: handed_over_def)
  then have "doPendingFunctors (run_functor app ?cur) io x = Inr (upd_loop io end_pending z')"
    using z(1) z'(1) by (simp add: doPendingFunctors_def run_functor_def y_def [symmetric])
  then have "server_turn app io (t, WaitEvents [(EPOLLIN, wch)]) w = Inr (upd_loop io end_pending z')"
    using turn_readable [of w wch "WakeupRead io" app io t] wch(1,2) by (simp add: x_def)
  moreover have "established io s c ch f (upd_loop io end_pending z')"
    using z(2) z'(2) by (simp add: established_def undisturbed_def)
  ultimately show ?thesis
    using z z'(2) by (auto simp: undisturbed_def y_def x_def EventLoop_handleRead_def)
qed

lemma message_turn:
  assumes e: "established io s c ch f w"
    and d: "sys_read w (ncalls w) = ReadData d" "d \<noteq> []" "room_for (new_Buffer kInitialSize) (length d)"
  shows "\<exists>w3. server_turn app io (t, WaitEvents [(EPOLLIN, ch)]) w =
      then_do (app (OnMessage f c t) w3) (doPendingFunctors (run_functor app (threadId (loops w io))) io) \<and>
    contents (inputBuffer (conns w3 c)) = d \<and> buffer_inv (inputBuffer (conns w3 c)) \<and>
    tc_state (conns w3 c) = kConnected \<and> connections w3 = connections w \<and> ncalls w3 = ncalls w + 1"
proof -
  have inv: "buffer_inv (new_Buffer kInitialSize)" by (rule new_Buffer_inv) (simp add: kInitialSize_def)
  from readFd_data [OF inv d(3)] obtain b where
    b: "readFd (new_Buffer kInitialSize) (ReadData d) = Inr (int (length d), None, b)" "buffer_inv b" "contents b = d" by auto
  let ?x = "polled_one io t EPOLLIN ch w"
  define w3 where "w3 = upd_conn c (\<lambda>z. z\<lparr>inputBuffer := b\<rparr>) (tick ?x)"
  have "exec app (threadId (loops w io)) (CallRead (ConnRead c) t) ?x = app (OnMessage f c t) w3"
    using e d(1,2) b(1)
    by (simp add: established_def Conn_handleRead_def call_messageCallback_def w3_def)
  moreover have "conn_alive w c" using e by (simp add: established_def conn_alive_def)
  ultimately have "server_turn app io (t, WaitEvents [(EPOLLIN, ch)]) w =
      then_do (app (OnMessage f c t) w3) (doPendingFunctors (run_functor app (threadId (loops w io))) io)"
    using turn_readable [of w ch "ConnRead c" app io t] e by (simp add: established_def)
  moreover have "connections w3 = connections w" "ncalls w3 = ncalls w + 1"
    by (simp_all add: w3_def upd_conn_def tick_def)
  ultimately show ?thesis using b(2,3) e by (intro exI [of _ w3]) (auto simp: w3_def established_def)
qed

section \<open>From the listening socket to the application\<close>

text \<open>
  A running server: \<open>ach\<close> is the channel of its listening socket, \<open>io\<close> the loop whose turn it is in the
  pool, on a thread of its own, and \<open>wch\<close> the wake-up channel of that loop.  Neither loop has work left.
\<close>

definition ready_to_accept :: "nat \<Rightarrow> nat \<Rightarrow> loop_id \<Rightarrow> server_world \<Rightarrow> bool" where
  "ready_to_accept ach wch io w \<longleftrightarrow>
     readCallback (chans w ach) = Some AcceptRead \<and> \<not> ch_tied (chans w ach) \<and> newConnectionCallback (srv_acceptor w) \<and>
     pool_inv (threadPool w) \<and> pool_loops (threadPool w) \<noteq> [] \<and>
     io = pool_loops (threadPool w) ! nat (pool_next (threadPool w)) \<and>
     io \<noteq> srv_loop w \<and> threadId (loops w io) \<noteq> threadId (loops w (srv_loop w)) \<and>
     pendingFunctors (loops w io) = [] \<and> pendingFunctors (loops w (srv_loop w)) = [] \<and>
     readCallback (chans w wch) = Some (WakeupRead io) \<and> \<not> ch_tied (chans w wch) \<and>
     wch \<noteq> ach \<and> wch \<noteq> fresh_chan w"

lemma new_TcpServer_acceptor:
  assumes "new_TcpServer (Some b) addr name reuseport sockfd ach w = Inr w'"
  shows "readCallback (chans w' ach) = Some AcceptRead \<and> \<not> ch_tied (chans w' ach) \<and>
    newConnectionCallback (srv_acceptor w') \<and> pool_inv (threadPool w') \<and> srv_loop w' = b \<and> connections w' = Map.empty"
  using assms new_pool_inv [of b name]
  by (auto simp: new_TcpServer_def CheckLoopNotNull_def new_Acceptor_def Let_def new_Channel_def split: sum.splits prod.splits)

text \<open>
  C7. A client is served.  When the listening socket of a running server becomes readable, the base loop
  accepts the client, enters the connection in the server's map and wakes the next loop of the pool; that
  loop's turn connects and registers the connection, so that the kernel watches its descriptor for
  reading; and the turn in which the client's first bytes arrive calls the message callback, once, on the
  thread of that loop, with exactly these bytes in the input buffer of the connected connection.
\<close>

theorem client_served_end_to_end:
  assumes ready: "ready_to_accept ach wch io w" and acc: "sys_accept w (ncalls w) = Accepted s peer local"
    and free: "interests (pollers w io) s = None"
    and cbs: "srv_connectionCallback w = Some g" "srv_messageCallback w = Some f"
    and new: "c = fresh_conn w" "ch = fresh_chan w"
    and app: "\<And>x. \<exists>y. app (OnConnection g c) x = Inr y \<and> undisturbed io c ch x y"
    and data: "sys_read w (ncalls w + 1) = ReadData d" "d \<noteq> []" "room_for (new_Buffer kInitialSize) (length d)"
  shows "\<exists>w1 w2 w3.
    server_turn app (srv_loop w) (t1, WaitEvents [(EPOLLIN, ach)]) w = Inr w1 \<and> 0 < wakeupCount (loops w1 io) \<and>
    server_turn app io (t2, WaitEvents [(EPOLLIN, wch)]) w1 = Inr w2 \<and> interests (pollers w2 io) s = Some (kReadEvent, ch) \<and>
    server_turn app io (t3, WaitEvents [(EPOLLIN, ch)]) w2 =
      then_do (app (OnMessage f c t3) w3) (doPendingFunctors (run_functor app (threadId (loops w io))) io) \<and>
    contents (inputBuffer (conns w3 c)) = d \<and> tc_state (conns w3 c) = kConnected \<and>
    connections w3 = (connections w)(connName w \<mapsto> c)"
proof -
  from ready getNextLoop_inv [of "threadPool w"] obtain p where p: "getNextLoop (threadPool w) = Inr (io, p)"
    by (auto simp: ready_to_accept_def)
  from accept_turn [of w ach s peer local io p "srv_loop w" g f app t1, OF _ _ _ acc p _ _ _ _ cbs] ready obtain w1 where
    w1: "server_turn app (srv_loop w) (t1, WaitEvents [(EPOLLIN, ach)]) w = Inr w1"
      "handed_over io s c ch g f w1" "0 < wakeupCount (loops w1 io)"
      "connections w1 = (connections w)(connName w \<mapsto> c)" "\<forall>l. interests (pollers w1 l) = interests (pollers w l)"
      "\<forall>d. d \<noteq> ch \<and> d \<noteq> ach \<longrightarrow> chans w1 d = chans w d"
      "threadId (loops w1 io) = threadId (loops w io)" "ncalls w1 = ncalls w + 1" "sys_read w1 = sys_read w"
    by (auto simp: ready_to_accept_def new)
  have wch: "chans w1 wch = chans w wch" "wch \<noteq> ch" using w1(6) ready new(2) by (auto simp: ready_to_accept_def)
  with establish_turn [of io s c ch g f w1 wch app t2, OF w1(2)] w1(5) free ready app obtain w2 where
    w2: "server_turn app io (t2, WaitEvents [(EPOLLIN, wch)]) w1 = Inr w2" "established io s c ch f w2"
      "connections w2 = connections w1" "ncalls w2 = ncalls w1" "sys_read w2 = sys_read w1"
      "threadId (loops w2 io) = threadId (loops w1 io)"
    by (auto simp: ready_to_accept_def)
  have "sys_read w2 (ncalls w2) = ReadData d" using data(1) w2(4,5) w1(8,9) by simp
  from message_turn [OF w2(2) this data(2,3), of app t3] w1(4,7) w2(3,6) obtain w3 where
    "server_turn app io (t3, WaitEvents [(EPOLLIN, ch)]) w2 =
      then_do (app (OnMessage f c t3) w3) (doPendingFunctors (run_functor app (threadId (loops w io))) io)"
    "contents (inputBuffer (conns w3 c)) = d" "tc_state (conns w3 c) = kConnected"
    "connections w3 = (connections w)(connName w \<mapsto> c)" by auto
  with w1(1,3) w2(1,2) show ?thesis by (auto simp: established_def)
qed

text \<open>A server with one loop in its pool, and a client that says hi.\<close>

definition demo_listening :: server_world where
  "demo_listening = (demo_server 2 [5])\<lparr>
     chans := (\<lambda>c. new_Channel 0 9)(0 := (new_Channel 0 4)\<lparr>readCallback := Some AcceptRead\<rparr>,
                                      1 := (new_Channel 5 6)\<lparr>readCallback := Some (WakeupRead 5)\<rparr>),
     sys_accept := (\<lambda>n. Accepted 12 (new_InetAddress 1 ''1.2.3.4'') (new_InetAddress 2 ''1.2.3.4'')),
     sys_read := (\<lambda>n. ReadData ''hi'')\<rparr>"

theorem client_served_end_to_end_witness:
  "\<exists>w1 w2 w3. server_turn demo_app 0 (1, WaitEvents [(EPOLLIN, 0)]) demo_listening = Inr w1 \<and>
     server_turn demo_app 5 (2, WaitEvents [(EPOLLIN, 1)]) w1 = Inr w2 \<and>
     server_turn demo_app 5 (3, WaitEvents [(EPOLLIN, 2)]) w2 = doPendingFunctors (run_functor demo_app 6) 5 w3 \<and>
     contents (inputBuffer (conns w3 1)) = ''hi''"
proof -
  let ?w = demo_listening
  have r: "ready_to_accept 0 1 5 ?w"
    by (simp add: ready_to_accept_def demo_listening_def demo_server_def bare_loop_def new_Channel_def pool_inv_def)
  have w: "sys_accept ?w (ncalls ?w) = Accepted 12 (new_InetAddress 1 ''1.2.3.4'') (new_InetAddress 2 ''1.2.3.4'')"
    "interests (pollers ?w 5) 12 = None" "srv_connectionCallback ?w = Some 0" "srv_messageCallback ?w = Some 1"
    "1 = fresh_conn ?w" "2 = fresh_chan ?w" "sys_read ?w (ncalls ?w + 1) = ReadData ''hi''"
    "srv_loop ?w = 0" "threadId (loops ?w 5) = 6"
    by (simp_all add: demo_listening_def demo_server_def bare_loop_def new_EpollPoller_def)
  have app: "\<exists>y. demo_app (OnConnection 0 1) x = Inr y \<and> undisturbed 5 1 2 x y" for x
    by (simp add: demo_app_def undisturbed_def)
  have room: "room_for (new_Buffer kInitialSize) (length ''hi'')"
    by (simp add: room_for_def length_new_Buffer kInitialSize_def)
  have app_message: "then_do (demo_app u x) k = k x" for u x k by (simp add: demo_app_def)
  from client_served_end_to_end [of 0 1 5 ?w 12 _ _ 0 1 1 2 demo_app "''hi''" 1 2 3,
      OF r w(1-6) app w(7) _ room, unfolded w(8,9) app_message]
  show ?thesis by (metis list.distinct(1))
qed

end
