(* ===== verification/Server_Start.thy ===== *)
theory Server_Start
  imports Reactor
begin

unbundle bit_operations_syntax

text \<open>
  A server of the reactor library from its constructor to the state in which \<open>Reactor\<close> takes over: the
  listening socket is made, the threads of the pool each construct their loop, and the base loop watches the
  listening socket.
\<close>

section \<open>A loop on a thread of its own\<close>

text \<open>
  What \<open>startLoop\<close> returns when the new thread has constructed its loop (theory \<open>EventLoopThread\<close> has the
  hand-over step by step).  The object, the thread and the event descriptor come from the system; \<open>os k\<close> is
  what it gives to the loop whose wake-up channel is object \<open>k\<close>.  No initial callback is set.
\<close>

definition startLoop_of :: "(nat \<Rightarrow> loop_id \<times> tid \<times> fd) \<Rightarrow> string \<Rightarrow> server_world \<Rightarrow> (loop_id \<times> server_world) result" where
  "startLoop_of os name w =
     (let k = fresh_chan w in
      case os k of (l, t, evtfd) \<Rightarrow>
        then_do (new_EventLoop False t l evtfd k (WakeupRead l) (w\<lparr>fresh_chan := Suc k\<rparr>)) (\<lambda>w'. Inr (l, w')))"

definition os_loop :: "(nat \<Rightarrow> loop_id \<times> tid \<times> fd) \<Rightarrow> nat \<Rightarrow> loop_id" where "os_loop os k = fst (os k)"
definition os_thread :: "(nat \<Rightarrow> loop_id \<times> tid \<times> fd) \<Rightarrow> nat \<Rightarrow> tid" where "os_thread os k = fst (snd (os k))"
definition os_eventfd :: "(nat \<Rightarrow> loop_id \<times> tid \<times> fd) \<Rightarrow> nat \<Rightarrow> fd" where "os_eventfd os k = snd (snd (os k))"

lemmas os_defs = os_loop_def os_thread_def os_eventfd_def

text \<open>The world with one more loop.\<close>

definition one_more_loop :: "(nat \<Rightarrow> loop_id \<times> tid \<times> fd) \<Rightarrow> server_world \<Rightarrow> server_world" where
  "one_more_loop os w =
     (let k = fresh_chan w; l = os_loop os k; fd = os_eventfd os k in
      w\<lparr>chans := (chans w)(k := (new_Channel l fd)\<lparr>readCallback := Some (WakeupRead l), ch_events := kReadEvent, ch_index := kAdded\<rparr>),
        pollers := (pollers w)(l := \<lparr>channels = [fd \<mapsto> k], interests = [fd \<mapsto> (kReadEvent, k)], events_size = kInitEventListSize\<rparr>),
        loops := (loops w)(l := \<lparr>looping = False, quit_flag = False, callingPendingFunctors = False, threadId = os_thread os k,
          pollReturnTime = 0, wakeupFd = fd, wakeupChannel = k, wakeupCount = 0, activeChannels = [], pendingFunctors = []\<rparr>),
        loopInThisThread := (loopInThisThread w)(os_thread os k \<mapsto> l), fresh_chan := Suc k\<rparr>)"

lemma startLoop_of_more:
  assumes "loopInThisThread w (os_thread os (fresh_chan w)) = None"
  shows "startLoop_of os name w = Inr (os_loop os (fresh_chan w), one_more_loop os w)"
proof -
  obtain l t fd where os: "os (fresh_chan w) = (l, t, fd)" by (cases "os (fresh_chan w)") auto
  then show ?thesis
    using assms by (simp add: startLoop_of_def one_more_loop_def os_defs new_EventLoop_def newDefaultPoller_def switches
        switch_events_def change_events_defs new_EpollPoller_def new_Channel_def index_defs Let_def)
qed

section \<open>The threads of the pool\<close>

text \<open>Threads made for the pool are new ones.\<close>

definition new_threads :: "(nat \<Rightarrow> loop_id \<times> tid \<times> fd) \<Rightarrow> nat \<Rightarrow> server_world \<Rightarrow> bool" where
  "new_threads os n w \<longleftrightarrow>
     (let ks = {fresh_chan w..<fresh_chan w + n} in
      inj_on (os_thread os) ks \<and> inj_on (os_loop os) ks \<and> (\<forall>k \<in> ks. loopInThisThread w (os_thread os k) = None))"

lemma new_threads_rest:
  assumes "new_threads os (Suc n) w"
  shows "new_threads os n (one_more_loop os w)" "loopInThisThread w (os_thread os (fresh_chan w)) = None"
proof -
  have "{fresh_chan w..<fresh_chan w + Suc n} = insert (fresh_chan w) {Suc (fresh_chan w)..<Suc (fresh_chan w) + n}" by auto
  with assms show "new_threads os n (one_more_loop os w)" "loopInThisThread w (os_thread os (fresh_chan w)) = None"
    by (auto simp: new_threads_def one_more_loop_def Let_def image_iff Ball_def)
qed

lemma start_threads_more:
  "new_threads os (length is) w \<Longrightarrow> start_threads (startLoop_of os) is (p, w) =
     Inr (p\<lparr>pool_loops := pool_loops p @ map (os_loop os) [fresh_chan w..<fresh_chan w + length is]\<rparr>,
       (one_more_loop os ^^ length is) w)"
proof (induction "is" arbitrary: p w)
  case (Cons i "is")
  let ?w = "one_more_loop os w" and ?p = "p\<lparr>pool_loops := pool_loops p @ [os_loop os (fresh_chan w)]\<rparr>"
  have new: "new_threads os (length is) ?w" "loopInThisThread w (os_thread os (fresh_chan w)) = None"
    using new_threads_rest [of os "length is" w] Cons.prems by simp_all
  have k: "fresh_chan ?w = Suc (fresh_chan w)" by (simp add: one_more_loop_def Let_def)
  have "[fresh_chan w..<fresh_chan w + length (i # is)] = fresh_chan w # [Suc (fresh_chan w)..<Suc (fresh_chan w) + length is]"
    by (simp add: upt_rec)
  with Cons.IH [OF new(1), of ?p] startLoop_of_more [OF new(2)] k show ?case
    by (simp add: funpow_swap1)
qed (simp add: one_more_loop_def)

text \<open>What the threads leave of the world: new objects, and everything else as it was.\<close>

lemma more_loops_frame:
  "\<exists>C P L T. (one_more_loop os ^^ n) w = w\<lparr>chans := C, pollers := P, loops := L, loopInThisThread := T, fresh_chan := fresh_chan w + n\<rparr>"
proof (induction n)
  case 0
  show ?case by (intro exI [of _ "chans w"] exI [of _ "pollers w"] exI [of _ "loops w"] exI [of _ "loopInThisThread w"]) simp
next
  case (Suc n)
  then obtain C P L T where
    "(one_more_loop os ^^ n) w = w\<lparr>chans := C, pollers := P, loops := L, loopInThisThread := T, fresh_chan := fresh_chan w + n\<rparr>" by blast
  then have eq: "(one_more_loop os ^^ Suc n) w =
      one_more_loop os (w\<lparr>chans := C, pollers := P, loops := L, loopInThisThread := T, fresh_chan := fresh_chan w + n\<rparr>)" by simp
  show ?case unfolding eq by (simp add: one_more_loop_def Let_def) blast
qed

lemma more_loops_old:
  "c < fresh_chan w \<Longrightarrow> chans ((one_more_loop os ^^ n) w) c = chans w c"
  "\<forall>k \<in> set [fresh_chan w..<fresh_chan w + n]. l \<noteq> os_loop os k \<Longrightarrow>
     loops ((one_more_loop os ^^ n) w) l = loops w l \<and> pollers ((one_more_loop os ^^ n) w) l = pollers w l"
proof (induction n)
  case (Suc n)
  have "fresh_chan ((one_more_loop os ^^ n) w) = fresh_chan w + n" using more_loops_frame [of n os w] by auto
  with Suc show "c < fresh_chan w \<Longrightarrow> chans ((one_more_loop os ^^ Suc n) w) c = chans w c"
    "\<forall>k \<in> set [fresh_chan w..<fresh_chan w + Suc n]. l \<noteq> os_loop os k \<Longrightarrow>
       loops ((one_more_loop os ^^ Suc n) w) l = loops w l \<and> pollers ((one_more_loop os ^^ Suc n) w) l = pollers w l"
    by (simp_all add: one_more_loop_def [of os "(one_more_loop os ^^ n) w"] Let_def)
qed simp_all

text \<open>Each new loop belongs to its thread, has nothing to do and watches its event descriptor.\<close>

definition loop_started :: "(nat \<Rightarrow> loop_id \<times> tid \<times> fd) \<Rightarrow> nat \<Rightarrow> server_world \<Rightarrow> bool" where
  "loop_started os k w \<longleftrightarrow>
     (let l = os_loop os k in
      threadId (loops w l) = os_thread os k \<and> pendingFunctors (loops w l) = [] \<and> wakeupChannel (loops w l) = k \<and>
      readCallback (chans w k) = Some (WakeupRead l) \<and> \<not> ch_tied (chans w k) \<and> ch_loop (chans w k) = l \<and>
      interests (pollers w l) = [os_eventfd os k \<mapsto> (kReadEvent, k)])"

lemma more_loops_new:
  "inj_on (os_loop os) {fresh_chan w..<fresh_chan w + n} \<Longrightarrow> fresh_chan w \<le> k \<Longrightarrow> k < fresh_chan w + n \<Longrightarrow>
     loop_started os k ((one_more_loop os ^^ n) w)"
proof (induction n)
  case (Suc n)
  let ?w = "(one_more_loop os ^^ n) w"
  have fresh: "fresh_chan ?w = fresh_chan w + n" using more_loops_frame [of n os w] by auto
  show ?case
  proof (cases "k = fresh_chan w + n")
    case True
    with fresh show ?thesis by (simp add: loop_started_def one_more_loop_def [of os ?w] Let_def new_Channel_def)
  next
    case False
    have "inj_on (os_loop os) {fresh_chan w..<fresh_chan w + n}" by (rule inj_on_subset [OF Suc.prems(1)]) auto
    then have "loop_started os k ?w" using Suc False by simp
    moreover have "os_loop os k \<noteq> os_loop os (fresh_chan w + n)"
      using inj_onD [OF Suc.prems(1), of k "fresh_chan w + n"] Suc.prems(2,3) False by auto
    ultimately show ?thesis using fresh False by (simp add: loop_started_def one_more_loop_def [of os ?w] Let_def)
  qed
qed simp


lemma pool_start_more:
  assumes new: "new_threads os n w" and b: "\<forall>k \<in> {fresh_chan w..<fresh_chan w + n}. os_loop os k \<noteq> b"
    and pool: "threadPool w = \<lparr>baseloop = b, pool_name = name, pool_started = False, numThreads = int n, pool_next = 0, pool_loops = []\<rparr>"
  shows "\<exists>v. pool_start (startLoop_of os) None (threadPool w, w) =
      Inr ((threadPool w)\<lparr>pool_started := True, pool_loops := map (os_loop os) [fresh_chan w..<fresh_chan w + n]\<rparr>, v) \<and>
    loops v b = loops w b \<and> pollers v b = pollers w b \<and> (\<forall>c < fresh_chan w. chans v c = chans w c) \<and>
    (\<forall>k \<in> {fresh_chan w..<fresh_chan w + n}. loop_started os k v) \<and>
    (\<exists>C P L T. v = w\<lparr>chans := C, pollers := P, loops := L, loopInThisThread := T, fresh_chan := fresh_chan w + n\<rparr>)"
proof (intro exI [of _ "(one_more_loop os ^^ n) w"] conjI)
  have "\<forall>k \<in> set [fresh_chan w..<fresh_chan w + n]. b \<noteq> os_loop os k" using b by auto
  from more_loops_old(2) [OF this] show "loops ((one_more_loop os ^^ n) w) b = loops w b" "pollers ((one_more_loop os ^^ n) w) b = pollers w b"
    by simp_all
  show "pool_start (startLoop_of os) None (threadPool w, w) =
      Inr ((threadPool w)\<lparr>pool_started := True, pool_loops := map (os_loop os) [fresh_chan w..<fresh_chan w + n]\<rparr>, (one_more_loop os ^^ n) w)"
    using start_threads_more [of os "[0..<n]" w] new pool by (simp add: pool_start_def)
  show "\<forall>k \<in> {fresh_chan w..<fresh_chan w + n}. loop_started os k ((one_more_loop os ^^ n) w)"
    using more_loops_new [where os = os and w = w and n = n] new by (simp add: new_threads_def Let_def)
qed (simp_all add: more_loops_old(1) more_loops_frame)


section \<open>The server\<close>

lemma new_TcpServer_world:
  assumes "new_TcpServer (Some b) addr name reuseport s ach w = Inr w1"
  shows "chans w1 = (chans w)(ach := (new_Channel b s)\<lparr>readCallback := Some AcceptRead\<rparr>)" "pollers w1 = pollers w" "loops w1 = loops w"
    "loopInThisThread w1 = loopInThisThread w" "fresh_chan w1 = fresh_chan w" "srv_loop w1 = b" "srv_started w1 = 0" "sys_listen w1 = sys_listen w"
    "listening w1 = listening w" "bound w1 = (if sys_bind w s addr then (bound w)(s \<mapsto> addr) else bound w)"
    "threadPool w1 = new_EventLoopThreadPool b name" "acceptSocket (srv_acceptor w1) = s" "acceptChannel (srv_acceptor w1) = ach"
    "newConnectionCallback (srv_acceptor w1)"
  using assms by (auto simp: new_TcpServer_def CheckLoopNotNull_def new_Acceptor_def Let_def bindAddress_def setReusePort_def setReuseAddr_def
      split: sum.splits prod.splits if_splits)

lemma Acceptor_listen_world:
  assumes "acceptSocket (srv_acceptor w) = s" and "acceptChannel (srv_acceptor w) = ach" and "chans w ach = (new_Channel b s)\<lparr>readCallback := Some AcceptRead\<rparr>"
    and "interests (pollers w b) s = None"
  shows "\<exists>p. Acceptor_listen w = w\<lparr>srv_acceptor := (srv_acceptor w)\<lparr>listenning := True\<rparr>,
      listening := (if sys_listen w s then insert (s, 1024) (listening w) else listening w),
      chans := (chans w)(ach := (chans w ach)\<lparr>ch_events := kReadEvent, ch_index := kAdded\<rparr>), pollers := (pollers w)(b := p)\<rparr> \<and>
    interests p s = Some (kReadEvent, ach)"
  using assms by (intro exI [of _ "(pollers w b)\<lparr>channels := (channels (pollers w b))(s \<mapsto> ach),
        interests := (interests (pollers w b))(s \<mapsto> (kReadEvent, ach))\<rparr>"])
    (simp add: Acceptor_listen_def Socket_listen_def Let_def switches switch_events_def change_events_defs new_Channel_def index_defs)


text \<open>With the threads running, \<open>Acceptor::listen\<close> is what was missing.\<close>

lemma listen_makes_ready:
  assumes acc: "acceptSocket (srv_acceptor v) = s" "acceptChannel (srv_acceptor v) = ach" "newConnectionCallback (srv_acceptor v)"
      "chans v ach = (new_Channel b s)\<lparr>readCallback := Some AcceptRead\<rparr>"
    and base: "srv_loop v = b" "interests (pollers v b) s = None" "pendingFunctors (loops v b) = []"
    and pool: "pool_loops (threadPool v) = map (os_loop os) [m..<m + n]" "pool_next (threadPool v) = 0" "fresh_chan v = m + n" "ach < m" "0 < n"
    and loops: "\<forall>k \<in> {m..<m + n}. loop_started os k v" "\<forall>k \<in> {m..<m + n}. os_loop os k \<noteq> b \<and> os_thread os k \<noteq> threadId (loops v b)"
    and w: "w = Acceptor_listen v"
  shows "ready_to_accept ach m (os_loop os m) w" "\<forall>k \<in> {m..<m + n}. loop_started os k w" "interests (pollers w b) s = Some (kReadEvent, ach)"
    "threadPool w = threadPool v" "bound w = bound v" "listening w = (if sys_listen v s then insert (s, 1024) (listening v) else listening v)"
proof -
  obtain q where q: "w = v\<lparr>srv_acceptor := (srv_acceptor v)\<lparr>listenning := True\<rparr>,
      listening := (if sys_listen v s then insert (s, 1024) (listening v) else listening v),
      chans := (chans v)(ach := (chans v ach)\<lparr>ch_events := kReadEvent, ch_index := kAdded\<rparr>), pollers := (pollers v)(b := q)\<rparr>"
      "interests q s = Some (kReadEvent, ach)"
    using Acceptor_listen_world [OF acc(1,2,4) base(2)] w by blast
  from q(2) show "interests (pollers w b) s = Some (kReadEvent, ach)" "threadPool w = threadPool v" "bound w = bound v"
    "listening w = (if sys_listen v s then insert (s, 1024) (listening v) else listening v)" by (simp_all add: q(1))
  show started: "\<forall>k \<in> {m..<m + n}. loop_started os k w"
    using loops pool(4) by (simp add: q(1) loop_started_def Let_def)
  have "pool_inv (threadPool v)" "pool_loops (threadPool v) \<noteq> []" "pool_loops (threadPool v) ! 0 = os_loop os m"
    using pool by (simp_all add: pool_inv_def)
  moreover have "loop_started os m w" "os_loop os m \<noteq> b" "os_thread os m \<noteq> threadId (loops v b)" using started loops(2) pool(5) by simp_all
  ultimately show "ready_to_accept ach m (os_loop os m) w"
    using acc base pool by (simp add: ready_to_accept_def loop_started_def Let_def new_Channel_def q(1))
qed

text \<open>
  C6. A server comes up ready for its first client.  Constructed on a loop and started on that loop's thread with
  \<open>n > 0\<close> threads, it has \<open>n\<close> loops in its pool, each constructed on a thread of its own, idle and watching its
  own event descriptor; the base loop watches the listening socket, whose readiness calls \<open>Acceptor::handleRead\<close>;
  and it is the first loop's turn.  All this holds whether or not \<open>bind\<close> and \<open>listen\<close> succeeded: when the
  address is taken the server comes up all the same, without the address and without an error.
\<close>

theorem server_comes_up:
  assumes new: "new_TcpServer (Some b) addr name reuseport s ach w = Inr w1"
    and base: "threadId (loops w b) = cur" "pendingFunctors (loops w b) = []" "interests (pollers w b) s = None" "ach < fresh_chan w"
    and os: "0 < n" "new_threads os n w" "\<forall>k \<in> {fresh_chan w..<fresh_chan w + n}. os_loop os k \<noteq> b \<and> os_thread os k \<noteq> cur"
  shows "\<exists>w2. TcpServer_start (startLoop_of os) None cur (setThreadNum (int n) w1) = Inr w2 \<and>
    pool_loops (threadPool w2) = map (os_loop os) [fresh_chan w..<fresh_chan w + n] \<and>
    (\<forall>k \<in> {fresh_chan w..<fresh_chan w + n}. loop_started os k w2) \<and> interests (pollers w2 b) s = Some (kReadEvent, ach) \<and>
    ready_to_accept ach (fresh_chan w) (os_loop os (fresh_chan w)) w2 \<and>
    bound w2 = (if sys_bind w s addr then (bound w)(s \<mapsto> addr) else bound w) \<and>
    listening w2 = (if sys_listen w s then insert (s, 1024) (listening w) else listening w)"
proof -
  let ?ks = "{fresh_chan w..<fresh_chan w + n}"
  note w1 = new_TcpServer_world [OF new]
  define w0 where "w0 = (setThreadNum (int n) w1)\<lparr>srv_started := 1\<rparr>"
  define p where "p = (threadPool w0)\<lparr>pool_started := True, pool_loops := map (os_loop os) [fresh_chan w..<fresh_chan w + n]\<rparr>"
  have w0: "threadPool w0 = \<lparr>baseloop = b, pool_name = name, pool_started = False, numThreads = int n, pool_next = 0, pool_loops = []\<rparr>"
    "chans w0 = chans w1" "loops w0 = loops w" "pollers w0 = pollers w" "fresh_chan w0 = fresh_chan w" "loopInThisThread w0 = loopInThisThread w"
    "srv_acceptor w0 = srv_acceptor w1" "srv_loop w0 = b" "bound w0 = bound w1" "listening w0 = listening w" "sys_listen w0 = sys_listen w"
    using w1 by (simp_all add: w0_def setThreadNum_def setThreadNums_def new_EventLoopThreadPool_def)
  have "new_threads os n w0" "\<forall>k \<in> {fresh_chan w0..<fresh_chan w0 + n}. os_loop os k \<noteq> b"
    using os(2,3) w0(5,6) by (simp_all add: new_threads_def)
  from pool_start_more [OF this w0(1), unfolded w0(3-5)] obtain v where pool: "pool_start (startLoop_of os) None (threadPool w0, w0) = Inr (p, v)"
      and old: "loops v b = loops w b" "pollers v b = pollers w b" "\<forall>c < fresh_chan w. chans v c = chans w0 c"
      and new: "\<forall>k \<in> ?ks. loop_started os k v"
      and frame: "\<exists>C P L T. v = w0\<lparr>chans := C, pollers := P, loops := L, loopInThisThread := T, fresh_chan := fresh_chan w + n\<rparr>"
    unfolding p_def by blast
  from old(3) base(4) w0(2) w1(1) have ch: "chans v ach = (new_Channel b s)\<lparr>readCallback := Some AcceptRead\<rparr>" by simp
  from frame obtain C P L T where "v = w0\<lparr>chans := C, pollers := P, loops := L, loopInThisThread := T, fresh_chan := fresh_chan w + n\<rparr>" by blast
  then have v: "srv_acceptor v = srv_acceptor w1" "srv_loop v = b" "bound v = bound w1" "listening v = listening w" "sys_listen v = sys_listen w"
      "fresh_chan v = fresh_chan w + n"
    using w0 by simp_all
  define w2 where "w2 = Acceptor_listen (v\<lparr>threadPool := p\<rparr>)"
  have start: "TcpServer_start (startLoop_of os) None cur (setThreadNum (int n) w1) = Inr w2"
    using pool [unfolded w0_def] w1(7) v(2) old(1) base(1)
    by (simp add: TcpServer_start_def Let_def runInLoop_def isInLoopThread_def w2_def setThreadNum_def)
  have p: "pool_loops p = map (os_loop os) [fresh_chan w..<fresh_chan w + n]" "pool_next p = 0" by (simp_all add: p_def w0(1))
  have "\<forall>k \<in> ?ks. loop_started os k (v\<lparr>threadPool := p\<rparr>)" using new by (simp add: loop_started_def)
  from listen_makes_ready [of "v\<lparr>threadPool := p\<rparr>" s ach b os "fresh_chan w" n w2, OF _ _ _ _ _ _ _ _ _ _ base(4) os(1) this _ w2_def]
  show ?thesis using start v old(1,2) ch base os(3) w1(10,12-14) p by (intro exI [of _ w2]) simp
qed

text \<open>Two threads, on a machine where the address is taken.\<close>

definition demo_os :: "nat \<Rightarrow> loop_id \<times> tid \<times> fd" where
  "demo_os k = (k + 5, k + 20, int k + 30)"

definition demo_idle :: server_world where
  "demo_idle = (demo_server 2 [])\<lparr>sys_bind := (\<lambda>s addr. False)\<rparr>"

theorem server_comes_up_witness:
  "\<exists>w1 w2. new_TcpServer (Some 0) (new_InetAddress 80 ''127.0.0.1'') ''s'' True 4 0 demo_idle = Inr w1 \<and>
     TcpServer_start (startLoop_of demo_os) None 1 (setThreadNum 2 w1) = Inr w2 \<and>
     pool_loops (threadPool w2) = [7, 8] \<and> ready_to_accept 0 2 7 w2 \<and> bound w2 = Map.empty \<and> listening w2 = {(4, 1024)}"
proof -
  let ?w = demo_idle and ?a = "new_InetAddress 80 ''127.0.0.1''"
  obtain ip where "toIpPort ?a = Inr ip" using toIpPort_ok [of ?a] by blast
  then obtain w1 where w1: "new_TcpServer (Some 0) ?a ''s'' True 4 0 ?w = Inr w1"
    by (simp add: new_TcpServer_def CheckLoopNotNull_def new_Acceptor_def Let_def)
  have w: "threadId (loops ?w 0) = 1" "pendingFunctors (loops ?w 0) = []" "interests (pollers ?w 0) 4 = None" "0 < fresh_chan ?w"
    "(0 :: nat) < 2" "new_threads demo_os 2 ?w"
    "\<forall>k \<in> {fresh_chan ?w..<fresh_chan ?w + 2}. os_loop demo_os k \<noteq> 0 \<and> os_thread demo_os k \<noteq> 1"
    by (simp_all add: demo_idle_def demo_server_def bare_loop_def new_EpollPoller_def new_threads_def demo_os_def os_defs inj_on_def Let_def)
  have e: "fresh_chan ?w = 2" "sys_listen ?w = (\<lambda>s. True)" "sys_bind ?w = (\<lambda>s addr. False)" "bound ?w = Map.empty" "listening ?w = {}"
    "os_loop demo_os 2 = 7" "map (os_loop demo_os) [2..<2 + 2] = [7, 8]"
    by (simp_all add: demo_idle_def demo_server_def demo_os_def os_defs upt_rec)
  from server_comes_up [OF w1 w, unfolded e] w1 show ?thesis by auto
qed

end
