(* ===== verification/Logger.thy ===== *)
theory Logger
  imports CString
begin

text \<open>
  \<open>src/src/Timestamp.h\<close>, \<open>Timestamp.cc\<close>, \<open>Logger.h\<close> and \<open>Logger.cc\<close>: the time of day as text and the
  singleton that prints log lines.  \<open>time\<close> and \<open>localtime\<close> are arguments; \<open>localtime\<close> gives \<open>None\<close>
  where the year does not fit its type.
\<close>

section \<open>Timestamp\<close>

text \<open>The member is named \<open>microSecond\<close>; \<open>now\<close> stores seconds in it.\<close>

record timestamp =
  microSecond :: int

record tm =
  tm_year :: int
  tm_mon :: int
  tm_mday :: int
  tm_hour :: int
  tm_min :: int
  tm_sec :: int

definition new_Timestamp :: "int \<Rightarrow> timestamp" where
  "new_Timestamp t = \<lparr>microSecond = t\<rparr>"

definition now :: "int \<Rightarrow> timestamp" where
  "now sys_time = new_Timestamp sys_time"

text \<open>\<open>%0nd\<close> and \<open>%nd\<close> of a number: filled up with zeros, after a sign, or with blanks.\<close>

definition pad_zero :: "nat \<Rightarrow> int \<Rightarrow> string" where
  "pad_zero n k =
     (if k < 0 then ''-'' @ replicate (n - 1 - length (show_nat (nat (- k)))) (CHR ''0'') @ show_nat (nat (- k))
      else replicate (n - length (show_nat (nat k))) (CHR ''0'') @ show_nat (nat k))"

definition pad_blank :: "nat \<Rightarrow> int \<Rightarrow> string" where
  "pad_blank n k = replicate (n - length (show_int k)) (CHR '' '') @ show_int k"

text \<open>\<open>snprintf(buf, 128, ...)\<close> cuts at 127 bytes.\<close>

definition tm_text :: "tm \<Rightarrow> string" where
  "tm_text t = pad_blank 4 (tm_year t + 1900) @ ''/'' @ pad_zero 2 (tm_mon t + 1) @ ''/'' @ pad_zero 2 (tm_mday t)
     @ '' '' @ pad_zero 2 (tm_hour t) @ '':'' @ pad_zero 2 (tm_min t) @ '':'' @ pad_zero 2 (tm_sec t)"

definition Timestamp_toString :: "(int \<Rightarrow> tm option) \<Rightarrow> timestamp \<Rightarrow> string result" where
  "Timestamp_toString localtime ts =
     (case localtime (microSecond ts) of
        None \<Rightarrow> Inl NullDeref
      | Some t \<Rightarrow> Inr (take 127 (tm_text t)))"

text \<open>The \<open>main\<close> of \<open>Timestamp.cc\<close> prints the time.\<close>

definition timestamp_main :: "(int \<Rightarrow> tm option) \<Rightarrow> int \<Rightarrow> string result" where
  "timestamp_main localtime sys_time =
     then_do (Timestamp_toString localtime (now sys_time)) (\<lambda>s. Inr (s @ ''\<newline>''))"

text \<open>The fields \<open>localtime\<close> fills in for a year of four digits.\<close>

definition tm_ok :: "tm \<Rightarrow> bool" where
  "tm_ok t \<longleftrightarrow> 1000 \<le> tm_year t + 1900 \<and> tm_year t + 1900 \<le> 9999
     \<and> 0 \<le> tm_mon t \<and> tm_mon t < 12 \<and> 1 \<le> tm_mday t \<and> tm_mday t \<le> 31
     \<and> 0 \<le> tm_hour t \<and> tm_hour t < 24 \<and> 0 \<le> tm_min t \<and> tm_min t < 60 \<and> 0 \<le> tm_sec t \<and> tm_sec t \<le> 60"

text \<open>Reading the text back by its columns.\<close>

definition read_number :: "string \<Rightarrow> int" where
  "read_number s = int (digits_val 0 s)"

definition read_tm :: "string \<Rightarrow> tm" where
  "read_tm s =
     \<lparr>tm_year = read_number (take 4 s) - 1900, tm_mon = read_number (take 2 (drop 5 s)) - 1,
      tm_mday = read_number (take 2 (drop 8 s)), tm_hour = read_number (take 2 (drop 11 s)),
      tm_min = read_number (take 2 (drop 14 s)), tm_sec = read_number (take 2 (drop 17 s))\<rparr>"

lemma digits_val_zeros: "digits_val 0 (replicate k (CHR ''0'') @ s) = digits_val 0 s"
  by (induction k) (simp_all add: digit_val_def)

lemma pad_zero_two:
  assumes "0 \<le> k" and "k < 100"
  shows "length (pad_zero 2 k) = 2" "read_number (pad_zero 2 k) = k"
proof -
  have "length (show_nat (nat k)) \<le> 2" using assms length_show_nat [of "nat k" 2] by simp
  then show "length (pad_zero 2 k) = 2" using assms by (simp add: pad_zero_def)
  show "read_number (pad_zero 2 k) = k"
    using assms by (simp add: pad_zero_def read_number_def digits_val_zeros digits_val_show)
qed

lemma show_nat_four: "1000 \<le> n \<Longrightarrow> n \<le> 9999 \<Longrightarrow> length (show_nat n) = 4"
proof -
  assume n: "1000 \<le> n" "n \<le> 9999"
  then have "\<not> n < 10" "\<not> n div 10 < 10" "\<not> n div 100 < 10" "n div 1000 < 10" by simp_all
  then show ?thesis
    by (simp add: show_nat.simps [of n] show_nat.simps [of "n div 10"] show_nat.simps [of "n div 100"]
        show_nat.simps [of "n div 1000"] div_mult2_eq [symmetric])
qed

lemma pad_blank_four:
  assumes "1000 \<le> k" and "k \<le> 9999"
  shows "length (pad_blank 4 k) = 4" "read_number (pad_blank 4 k) = k"
proof -
  have "length (show_nat (nat k)) = 4" using assms by (intro show_nat_four) auto
  then have "pad_blank 4 k = show_nat (nat k)" using assms by (simp add: pad_blank_def show_int_def)
  with \<open>length (show_nat (nat k)) = 4\<close> assms
  show "length (pad_blank 4 k) = 4" "read_number (pad_blank 4 k) = k"
    by (simp_all add: read_number_def digits_val_show)
qed

text \<open>
  For every date of a four-digit year the text has 19 characters, nothing is cut off, and the date is
  read back from its columns.
\<close>

theorem toString_roundtrip:
  assumes "localtime (microSecond ts) = Some t" and "tm_ok t"
  shows "\<exists>s. Timestamp_toString localtime ts = Inr s \<and> length s = 19 \<and> read_tm s = t"
proof -
  note y = pad_blank_four [of "tm_year t + 1900"]
  note two = pad_zero_two [of "tm_mon t + 1"] pad_zero_two [of "tm_mday t"] pad_zero_two [of "tm_hour t"]
    pad_zero_two [of "tm_min t"] pad_zero_two [of "tm_sec t"]
  from assms(2) have len: "length (pad_blank 4 (tm_year t + 1900)) = 4" "length (pad_zero 2 (tm_mon t + 1)) = 2"
    "length (pad_zero 2 (tm_mday t)) = 2" "length (pad_zero 2 (tm_hour t)) = 2"
    "length (pad_zero 2 (tm_min t)) = 2" "length (pad_zero 2 (tm_sec t)) = 2"
    by (auto simp: tm_ok_def intro: y two)
  then have "length (tm_text t) = 19" by (simp add: tm_text_def)
  moreover have "read_tm (tm_text t) = t"
    using assms(2) y(2) two(2,4,6,8,10) len
    by (cases t) (simp add: read_tm_def tm_text_def tm_ok_def)
  ultimately show ?thesis using assms(1) by (auto simp: Timestamp_toString_def)
qed


section \<open>Logger\<close>

datatype log_level = INFO | WRINING | ERROR | FATAL | DEBUG

text \<open>The numbers of the enumeration.\<close>

definition level_of :: "int \<Rightarrow> log_level option" where
  "level_of n = (if n = 0 then Some INFO else if n = 1 then Some WRINING else if n = 2 then Some ERROR
     else if n = 3 then Some FATAL else if n = 4 then Some DEBUG else None)"

record logger =
  logLevel :: int

text \<open>\<open>instance_\<close> and the logger it points to; the constructor leaves the level as it finds it.\<close>

definition getInstance :: "int \<Rightarrow> logger option \<Rightarrow> logger option" where
  "getInstance junk inst = (case inst of None \<Rightarrow> Some \<lparr>logLevel = junk\<rparr> | Some l \<Rightarrow> Some l)"

definition setLogType :: "int \<Rightarrow> logger \<Rightarrow> logger" where
  "setLogType level l = l\<lparr>logLevel := level\<rparr>"

definition level_text :: "int \<Rightarrow> string" where
  "level_text n =
     (case level_of n of
        Some INFO \<Rightarrow> ''[INFO] '' | Some WRINING \<Rightarrow> ''[WRINING] '' | Some ERROR \<Rightarrow> ''[ERROR] ''
      | Some FATAL \<Rightarrow> ''[FATAL] '' | Some DEBUG \<Rightarrow> ''[DEBUG] '' | None \<Rightarrow> [])"

definition logOut :: "(int \<Rightarrow> tm option) \<Rightarrow> int \<Rightarrow> logger \<Rightarrow> string \<Rightarrow> string result" where
  "logOut localtime sys_time l msg =
     then_do (Timestamp_toString localtime (now sys_time))
       (\<lambda>s. Inr (level_text (logLevel l) @ s @ '' '' @ msg @ ''\<newline>''))"

text \<open>
  The destructor deletes the object \<open>instance_\<close> points to, which runs the destructor again, and
  \<open>instance_\<close> is not reset.  \<open>None\<close> is a depth of calls used up.
\<close>

fun delete_Logger :: "nat \<Rightarrow> logger option \<Rightarrow> unit option" where
  "delete_Logger 0 inst = None"
| "delete_Logger (Suc n) inst = (case inst of None \<Rightarrow> Some () | Some l \<Rightarrow> delete_Logger n (Some l))"

lemma delete_Logger_never_returns: "delete_Logger n (Some l) = None"
  by (induction n) simp_all

text \<open>There is one logger: a level set through it is the level every later line is printed with.\<close>

lemma logger_singleton:
  assumes "getInstance junk inst = Some l"
  shows "getInstance junk' (Some (setLogType level l)) = Some (setLogType level l)"
    and "level_of level = Some lv \<Longrightarrow> localtime t = Some tm0 \<Longrightarrow>
         \<exists>s. logOut localtime t (setLogType level l) msg = Inr s \<and> take (length (level_text level)) s = level_text level"
  by (auto simp: getInstance_def setLogType_def logOut_def Timestamp_toString_def now_def new_Timestamp_def)

end
