(* ===== verification/Http_Conn.thy ===== *)
theory Http_Conn
  imports Buffer CString InetAddress EpollPoller
begin

text \<open>
  The request side of the older server, \<^verbatim>\<open>src/bck/include/http_conn.h\<close> and
  \<^verbatim>\<open>src/bck/src/http_conn.cpp\<close>: the connection object, reading, and the two state machines that cut
  the read buffer into lines and interpret them. Pointers into \<open>m_read_buf\<close> are offsets. The parser
  works in place and writes terminators over separators; every access is checked against the
  array. The file system is the argument \<open>fs\<close>: what \<open>stat\<close>, \<open>open\<close> and \<open>mmap\<close> find at a path.
\<close>

datatype METHOD = GET | POST | HEAD | PUT | DELETE | TRACE | OPTIONS | CONNECT

datatype CHECK_STATE = CHECK_STATE_REQUESTLITE | CHECK_STATE_HEADER | CHECK_STATE_CONTENT

datatype HTTP_CODE =
    NO_REQUEST | GET_REQUEST | BAD_REQUEST | NO_RESOURCE | FORBIDDEN_REQUEST | FILE_REQUEST
  | INTERNAL_ERROR | CLOSED_CONNECTION

datatype LINE_STATUS = LINE_OK | LINE_BAD | LINE_OPEN

definition FILENAME_LEN :: nat where "FILENAME_LEN = 200"
definition READ_BUFFER_SIZE :: nat where "READ_BUFFER_SIZE = 2048"
definition WRITE_BUFFER_SIZE :: nat where "WRITE_BUFFER_SIZE = 2048"

text \<open>What is at a path: the mode and size \<open>stat\<close> reports, and the bytes if it can be opened.\<close>

record file_stat =
  st_mode :: "32 word"
  st_size :: nat

type_synonym file_system = "string \<Rightarrow> (file_stat \<times> string option) option"

text \<open>The mapping of the file: its bytes, or \<open>MAP_FAILED\<close>.\<close>

datatype file_map = Mapped string | MAP_FAILED

text \<open>Where an \<open>iovec\<close> points: into the write buffer or relative to the start of the mapping.\<close>

datatype iov_base = InWriteBuf nat | InFile int

record iovec =
  iov_base :: iov_base
  iov_len :: nat

record http_conn =
  m_sockfd :: fd
  m_address :: sockaddr_in
  m_read_buf :: "char list"
  m_read_index :: nat
  m_url :: "nat option"
  m_version :: "nat option"
  m_method :: METHOD
  m_host :: "nat option"
  m_linger :: bool
  m_content_length :: int
  m_write_buf :: "char list"
  m_write_index :: nat
  m_real_file :: "char list"
  m_file_stat :: file_stat
  m_file_address :: "file_map option"
  m_iv0 :: iovec
  m_iv1 :: iovec
  m_iv_count :: nat
  m_bytes_to_send :: int
  m_bytes_have_send :: int
  m_checked_index :: nat
  m_start_line :: nat
  m_check_state :: CHECK_STATE

text \<open>\<open>init()\<close>: the members of one request; the iovecs, the file and the socket stay.\<close>

definition http_init :: "http_conn \<Rightarrow> http_conn" where
  "http_init c =
     c\<lparr>m_check_state := CHECK_STATE_REQUESTLITE, m_checked_index := 0, m_start_line := 0, m_read_index := 0,
       m_method := GET, m_url := None, m_version := None, m_linger := False, m_content_length := 0,
       m_host := None, m_write_index := 0, m_bytes_have_send := 0, m_bytes_to_send := 0,
       m_read_buf := replicate READ_BUFFER_SIZE NUL, m_write_buf := replicate WRITE_BUFFER_SIZE NUL,
       m_real_file := replicate FILENAME_LEN NUL\<rparr>"


section \<open>Reading\<close>

text \<open>
  \<open>read()\<close>: the loop over the answers of \<open>recv\<close>, which never delivers more than it was asked for,
  answers 0 when asked for 0 bytes, which ends the loop with \<open>false\<close> when the buffer is full, and
  \<open>EAGAIN\<close> when the list is used up.
\<close>

fun http_read_loop :: "read_result list \<Rightarrow> http_conn \<Rightarrow> bool \<times> http_conn" where
  "http_read_loop [] c = (m_read_index c < READ_BUFFER_SIZE, c)"
| "http_read_loop (ReadErr e # rs) c =
     (m_read_index c < READ_BUFFER_SIZE \<and> (e = EAGAIN \<or> e = EWOULDBLOCK), c)"
| "http_read_loop (ReadData d # rs) c =
     (let data = take (READ_BUFFER_SIZE - m_read_index c) d in
      if data = [] then (False, c)
      else http_read_loop rs (c\<lparr>m_read_buf := write_at (m_read_index c) data (m_read_buf c),
                                m_read_index := m_read_index c + length data\<rparr>))"

definition http_read :: "read_result list \<Rightarrow> http_conn \<Rightarrow> bool \<times> http_conn" where
  "http_read rs c = (if READ_BUFFER_SIZE \<le> m_read_index c then (False, c) else http_read_loop rs c)"


section \<open>Lines\<close>

definition put_NUL :: "int \<Rightarrow> http_conn \<Rightarrow> http_conn result" where
  "put_NUL i c =
     (if 0 \<le> i \<and> i < int READ_BUFFER_SIZE then Inr (c\<lparr>m_read_buf := (m_read_buf c)[nat i := NUL]\<rparr>) else Inl OutOfBounds)"

definition get_char :: "nat \<Rightarrow> http_conn \<Rightarrow> char result" where
  "get_char i c = (if i < READ_BUFFER_SIZE then Inr (m_read_buf c ! i) else Inl OutOfBounds)"

definition get_line :: "http_conn \<Rightarrow> nat" where
  "get_line c = m_start_line c"

text \<open>Two terminators and the step over them, the common end of \<open>parse_line\<close>.\<close>

definition end_line :: "nat \<Rightarrow> nat \<Rightarrow> http_conn \<Rightarrow> (LINE_STATUS \<times> http_conn) result" where
  "end_line i j c =
     (case put_NUL (int i) c of
        Inl e \<Rightarrow> Inl e
      | Inr c1 \<Rightarrow> (case put_NUL (int j) c1 of
                      Inl e \<Rightarrow> Inl e
                    | Inr c2 \<Rightarrow> Inr (LINE_OK, c2\<lparr>m_checked_index := j + 1\<rparr>)))"

function parse_line :: "http_conn \<Rightarrow> (LINE_STATUS \<times> http_conn) result" where
  "parse_line c =
     (let i = m_checked_index c in
      if i < m_read_index c then
        then_do (get_char i c) (\<lambda>temp.
          if temp = CHR 0x0D then
            (if i + 1 = m_read_index c then Inr (LINE_OPEN, c)
             else then_do (get_char (i + 1) c) (\<lambda>next.
                    if next = CHR 0x0A then end_line i (i + 1) c else Inr (LINE_BAD, c)))
          else if temp = CHR 0x0A then
            (if i > 1 then
               then_do (get_char (i - 1) c) (\<lambda>prev.
                 if prev = CHR 0x0D then end_line (i - 1) i c else Inr (LINE_BAD, c))
             else Inr (LINE_BAD, c))
          else parse_line (c\<lparr>m_checked_index := i + 1\<rparr>))
      else Inr (LINE_OPEN, c))"
  by pat_completeness auto
termination
  by (relation "measure (\<lambda>c. m_read_index c - m_checked_index c)") auto

declare parse_line.simps [simp del]


section \<open>The request line and the headers\<close>

definition text_at :: "nat \<Rightarrow> http_conn \<Rightarrow> string result" where
  "text_at i c = cstr_at (m_read_buf c) i"

definition blanks :: string where
  "blanks = [CHR '' '', CHR 0x09]"

text \<open>\<open>q = strpbrk(p, blanks); *q++ = 0\<close>: where the pointer ends, or null.\<close>

definition cut_blank :: "nat \<Rightarrow> http_conn \<Rightarrow> (nat option \<times> http_conn) result" where
  "cut_blank p c =
     then_do (text_at p c) (\<lambda>s.
       case strpbrk s blanks of
         None \<Rightarrow> Inr (None, c)
       | Some k \<Rightarrow> then_do (put_NUL (int (p + k)) c) (\<lambda>c'. Inr (Some (p + k + 1), c')))"

text \<open>The address behind \<open>http://\<close>, or the pointer itself; null when no slash follows.\<close>

definition skip_scheme :: "nat \<Rightarrow> string \<Rightarrow> nat option" where
  "skip_scheme u s =
     (if strncasecmp s ''http://'' 7 = 0
      then (case strchr (drop 7 s) (CHR ''/'') of None \<Rightarrow> None | Some k \<Rightarrow> Some (u + 7 + k))
      else Some u)"

definition parse_request_line :: "nat \<Rightarrow> http_conn \<Rightarrow> (HTTP_CODE \<times> http_conn) result" where
  "parse_request_line text c =
     then_do (cut_blank text c) (\<lambda>(url, c0).
       let c1 = c0\<lparr>m_url := url\<rparr> in
       case url of
         None \<Rightarrow> Inr (BAD_REQUEST, c1)
       | Some u \<Rightarrow>
           then_do (text_at text c1) (\<lambda>meth.
             if strcasecmp meth ''GET'' = 0 then
               let c2 = c1\<lparr>m_method := GET\<rparr> in
               then_do (cut_blank u c2) (\<lambda>(version, c2').
                 let c3 = c2'\<lparr>m_version := version\<rparr> in
                 case version of
                   None \<Rightarrow> Inr (BAD_REQUEST, c3)
                 | Some v \<Rightarrow>
                     then_do (text_at v c3) (\<lambda>vs.
                       if strcasecmp vs ''HTTP/1.1'' \<noteq> 0 then Inr (BAD_REQUEST, c3)
                       else
                         then_do (text_at u c3) (\<lambda>us.
                           let url' = skip_scheme u us; c4 = c3\<lparr>m_url := url'\<rparr> in
                           case url' of
                             None \<Rightarrow> Inr (BAD_REQUEST, c4)
                           | Some q \<Rightarrow>
                               then_do (get_char q c4) (\<lambda>ch.
                                 if ch \<noteq> CHR ''/'' then Inr (BAD_REQUEST, c4)
                                 else Inr (NO_REQUEST, c4\<lparr>m_check_state := CHECK_STATE_HEADER\<rparr>)))))
             else Inr (BAD_REQUEST, c1)))"

text \<open>
  One header line. The test for \<open>Host:\<close> compares the result of \<open>strncasecmp\<close> with 5, as the source
  has it.
\<close>

definition parse_request_header :: "nat \<Rightarrow> http_conn \<Rightarrow> (HTTP_CODE \<times> http_conn) result" where
  "parse_request_header text c =
     then_do (text_at text c) (\<lambda>s.
       if s = [] then
         (if m_content_length c \<noteq> 0 then Inr (NO_REQUEST, c\<lparr>m_check_state := CHECK_STATE_CONTENT\<rparr>)
          else Inr (GET_REQUEST, c))
       else if strncasecmp s ''Connection:'' 11 = 0 then
         let t = drop 11 s; v = drop (strspn t blanks) t in
         Inr (NO_REQUEST, if strcasecmp v ''keep-alive'' = 0 then c\<lparr>m_linger := True\<rparr> else c)
       else if strncasecmp s ''Content-Length:'' 15 = 0 then
         let t = drop 15 s; v = drop (strspn t blanks) t in
         Inr (NO_REQUEST, c\<lparr>m_content_length := atol v\<rparr>)
       else if strncasecmp s ''Host:'' 5 = 5 then
         then_do (text_at (text + 5) c) (\<lambda>t. Inr (NO_REQUEST, c\<lparr>m_host := Some (text + 5 + strspn t blanks)\<rparr>))
       else Inr (NO_REQUEST, c))"

definition parse_request_content :: "nat \<Rightarrow> http_conn \<Rightarrow> (HTTP_CODE \<times> http_conn) result" where
  "parse_request_content text c =
     (if int (m_read_index c) \<ge> m_content_length c + int (m_checked_index c) then
        then_do (put_NUL (int text + m_content_length c) c) (\<lambda>c'. Inr (GET_REQUEST, c'))
      else Inr (NO_REQUEST, c))"


section \<open>The file\<close>

definition doc_root :: string where
  "doc_root = ''/home/thatchlobe/cpp/webservers/resources''"

text \<open>\<open>strncpy\<close>: at most \<open>n\<close> bytes, filled up with terminators.\<close>

definition strncpy :: "nat \<Rightarrow> string \<Rightarrow> nat \<Rightarrow> char list \<Rightarrow> char list" where
  "strncpy i s n buf = write_at i (take n (s @ replicate n NUL)) buf"

definition S_IROTH :: "32 word" where "S_IROTH = 4"

definition S_ISDIR :: "32 word \<Rightarrow> bool" where
  "S_ISDIR mode = (mode AND 0xF000 = 0x4000)"

text \<open>\<open>!(st_mode) & S_IROTH\<close>: the negation binds first and is 0 or 1.\<close>

definition not_readable_test :: "32 word \<Rightarrow> bool" where
  "not_readable_test mode = ((if mode = 0 then 1 else 0) AND S_IROTH \<noteq> 0)"

definition file_request :: "file_system \<Rightarrow> string \<Rightarrow> http_conn \<Rightarrow> HTTP_CODE \<times> http_conn" where
  "file_request fs path c =
     (case fs path of
        None \<Rightarrow> (NO_RESOURCE, c)
      | Some (st, content) \<Rightarrow>
          let c2 = c\<lparr>m_file_stat := st\<rparr> in
          if not_readable_test (st_mode st) then (FORBIDDEN_REQUEST, c2)
          else if S_ISDIR (st_mode st) then (BAD_REQUEST, c2)
          else (FILE_REQUEST, c2\<lparr>m_file_address :=
                 Some (case content of
                         Some bytes \<Rightarrow> if 0 < st_size st then Mapped bytes else MAP_FAILED
                       | None \<Rightarrow> MAP_FAILED)\<rparr>))"

definition do_request :: "file_system \<Rightarrow> http_conn \<Rightarrow> (HTTP_CODE \<times> http_conn) result" where
  "do_request fs c =
     (case m_url c of
        None \<Rightarrow> Inl NullDeref
      | Some u \<Rightarrow>
          then_do (text_at u c) (\<lambda>url.
            let len = length doc_root;
                f = strncpy len url (FILENAME_LEN - len - 1) (write_at 0 (doc_root @ [NUL]) (m_real_file c))
            in then_do (cstr_at f 0) (\<lambda>path. Inr (file_request fs path (c\<lparr>m_real_file := f\<rparr>)))))"


section \<open>The main state machine\<close>

text \<open>One pass through the body of the loop; the first component is the value it returns, if any.\<close>

definition read_step :: "file_system \<Rightarrow> LINE_STATUS \<Rightarrow> http_conn \<Rightarrow> (HTTP_CODE option \<times> LINE_STATUS \<times> http_conn) result" where
  "read_step fs line_status c =
     (let text = get_line c; c1 = c\<lparr>m_start_line := m_checked_index c\<rparr>;
          run = (\<lambda>c. then_do (do_request fs c) (\<lambda>(r, c'). Inr (Some r, line_status, c')))
      in case m_check_state c1 of
           CHECK_STATE_REQUESTLITE \<Rightarrow>
             then_do (parse_request_line text c1) (\<lambda>(ret, c2).
               Inr (if ret = BAD_REQUEST then Some BAD_REQUEST else None, line_status, c2))
         | CHECK_STATE_HEADER \<Rightarrow>
             then_do (parse_request_header text c1) (\<lambda>(ret, c2).
               if ret = BAD_REQUEST then Inr (Some BAD_REQUEST, line_status, c2)
               else if ret = GET_REQUEST then run c2
               else Inr (None, line_status, c2))
         | CHECK_STATE_CONTENT \<Rightarrow>
             then_do (parse_request_content text c1) (\<lambda>(ret, c2).
               if ret = GET_REQUEST then run c2 else Inr (None, LINE_OPEN, c2)))"

text \<open>What the parsing functions leave alone.\<close>

lemma put_NUL_frame:
  "put_NUL i c = Inr c' \<Longrightarrow> m_read_index c' = m_read_index c \<and> m_checked_index c' = m_checked_index c \<and>
     m_check_state c' = m_check_state c \<and> length (m_read_buf c') = length (m_read_buf c)"
  by (auto simp: put_NUL_def split: if_splits)

lemma cut_blank_frame:
  "cut_blank p c = Inr (q, c') \<Longrightarrow> m_read_index c' = m_read_index c \<and> m_checked_index c' = m_checked_index c"
  by (auto simp: cut_blank_def then_do_Inr_iff split: option.splits dest: put_NUL_frame)

lemma parse_request_line_frame:
  "parse_request_line p c = Inr (r, c') \<Longrightarrow> m_read_index c' = m_read_index c \<and> m_checked_index c' = m_checked_index c"
  by (auto simp: parse_request_line_def then_do_Inr_iff Let_def split: option.splits if_splits prod.splits
      dest!: cut_blank_frame)

lemma parse_request_header_frame:
  "parse_request_header p c = Inr (r, c') \<Longrightarrow> m_read_index c' = m_read_index c \<and> m_checked_index c' = m_checked_index c"
  by (auto simp: parse_request_header_def then_do_Inr_iff Let_def split: if_splits)

lemma parse_request_content_frame:
  "parse_request_content p c = Inr (r, c') \<Longrightarrow> m_read_index c' = m_read_index c \<and> m_checked_index c' = m_checked_index c"
  by (auto simp: parse_request_content_def then_do_Inr_iff split: if_splits dest: put_NUL_frame)

lemma read_step_frame:
  "read_step fs ls c = Inr (None, ls2, c') \<Longrightarrow> m_read_index c' = m_read_index c \<and> m_checked_index c' = m_checked_index c \<and>
     (if m_check_state c = CHECK_STATE_CONTENT then ls2 = LINE_OPEN else ls2 = ls)"
  by (auto simp: read_step_def Let_def then_do_Inr_iff split: CHECK_STATE.splits if_splits prod.splits
      dest!: parse_request_line_frame parse_request_header_frame parse_request_content_frame)

lemma parse_line_ok:
  "parse_line c = Inr (LINE_OK, c') \<Longrightarrow> m_read_index c' = m_read_index c \<and> m_checked_index c < m_checked_index c' \<and>
     m_checked_index c' \<le> m_read_index c \<and> m_check_state c' = m_check_state c"
proof (induction c rule: parse_line.induct)
  case (1 c)
  let ?i = "m_checked_index c"
  from 1(2) obtain temp where i: "?i < m_read_index c" and t: "get_char ?i c = Inr temp"
    by (auto simp: parse_line.simps [of c] Let_def then_do_Inr_iff split: if_splits)
  show ?case
  proof (cases "temp = CHR 0x0D \<or> temp = CHR 0x0A")
    case True
    with 1(2) i t show ?thesis
      by (auto simp: parse_line.simps [of c] Let_def then_do_Inr_iff end_line_def put_NUL_def
          split: if_splits sum.splits)
  next
    case False
    with 1(2) i t have "parse_line (c\<lparr>m_checked_index := ?i + 1\<rparr>) = Inr (LINE_OK, c')"
      by (simp add: parse_line.simps [of c] Let_def)
    with 1(1) [OF refl i t] False show ?thesis by auto
  qed
qed

function process_read_loop :: "file_system \<Rightarrow> LINE_STATUS \<Rightarrow> http_conn \<Rightarrow> (HTTP_CODE \<times> http_conn) result" where
  "process_read_loop fs line_status c =
     then_do (if m_check_state c = CHECK_STATE_CONTENT \<and> line_status = LINE_OK then Inr (LINE_OK, c) else parse_line c)
       (\<lambda>(ls1, c1).
          if ls1 = LINE_OK then
            then_do (read_step fs ls1 c1) (\<lambda>(ret, ls2, c2).
              case ret of Some r \<Rightarrow> Inr (r, c2) | None \<Rightarrow> process_read_loop fs ls2 c2)
          else Inr (NO_REQUEST, c1))"
  by pat_completeness auto
termination
proof (relation "measure (\<lambda>(fs, ls, c). 2 * (m_read_index c - m_checked_index c) + (if ls = LINE_OK then 1 else 0))", simp)
  fix fs ls c x ls1 c1 y ret z ls2 c2
  assume a: "(if m_check_state c = CHECK_STATE_CONTENT \<and> ls = LINE_OK then Inr (LINE_OK, c) else parse_line c) = Inr x"
    "(ls1, c1) = x" "ls1 = LINE_OK" "read_step fs ls1 c1 = Inr y" "(ret, z) = y" "(ls2, c2) = z" "ret = None"
  from a(4-7) have r: "m_read_index c2 = m_read_index c1" "m_checked_index c2 = m_checked_index c1"
    "if m_check_state c1 = CHECK_STATE_CONTENT then ls2 = LINE_OPEN else ls2 = ls1"
    using read_step_frame by blast+
  show "((fs, ls2, c2), (fs, ls, c)) \<in> measure (\<lambda>(fs, ls, c). 2 * (m_read_index c - m_checked_index c) + (if ls = LINE_OK then 1 else 0))"
  proof (cases "m_check_state c = CHECK_STATE_CONTENT \<and> ls = LINE_OK")
    case True
    with a(1,2) r show ?thesis by auto
  next
    case False
    with a(1-3) have "parse_line c = Inr (LINE_OK, c1)" by simp
    from parse_line_ok [OF this] r show ?thesis by auto
  qed
qed

declare process_read_loop.simps [simp del]

definition process_read :: "file_system \<Rightarrow> http_conn \<Rightarrow> (HTTP_CODE \<times> http_conn) result" where
  "process_read fs c = process_read_loop fs LINE_OK c"


section \<open>Memory safety\<close>

text \<open>
  The read buffer is full-sized, and zero from \<open>m_read_index\<close> on (there is at least one such byte
  after a successful \<open>read()\<close>); line start, scan position and fill level are in order; the file
  name array keeps its last terminator; behind the request line there is a target.
\<close>

definition http_inv :: "http_conn \<Rightarrow> bool" where
  "http_inv c \<longleftrightarrow>
     length (m_read_buf c) = READ_BUFFER_SIZE \<and> m_read_index c < READ_BUFFER_SIZE \<and>
     (\<forall>i. m_read_index c \<le> i \<and> i < READ_BUFFER_SIZE \<longrightarrow> m_read_buf c ! i = NUL) \<and>
     m_start_line c \<le> m_checked_index c \<and> m_checked_index c \<le> m_read_index c \<and>
     length (m_real_file c) = FILENAME_LEN \<and> m_real_file c ! (FILENAME_LEN - 1) = NUL \<and>
     (m_check_state c \<noteq> CHECK_STATE_REQUESTLITE \<longrightarrow> (\<exists>u. m_url c = Some u \<and> u < READ_BUFFER_SIZE))"

lemma READ_BUFFER_SIZE_pos [simp]: "0 < READ_BUFFER_SIZE"
  by (simp add: READ_BUFFER_SIZE_def)

lemma http_inv_init: "http_inv (http_init c)"
  by (simp add: http_inv_def http_init_def FILENAME_LEN_def)

lemma http_inv_upd [simp]:
  "http_inv (c\<lparr>m_method := x\<rparr>) = http_inv c" "http_inv (c\<lparr>m_version := y\<rparr>) = http_inv c"
  "http_inv (c\<lparr>m_linger := b\<rparr>) = http_inv c" "http_inv (c\<lparr>m_content_length := n\<rparr>) = http_inv c"
  "http_inv (c\<lparr>m_host := z\<rparr>) = http_inv c" "http_inv (c\<lparr>m_file_stat := st\<rparr>) = http_inv c"
  "http_inv (c\<lparr>m_file_address := a\<rparr>) = http_inv c"
  by (simp_all add: http_inv_def)

lemma http_inv_NUL: "http_inv c \<Longrightarrow> m_read_index c \<le> i \<Longrightarrow> i < READ_BUFFER_SIZE \<Longrightarrow> m_read_buf c ! i = NUL"
  by (simp add: http_inv_def)

lemma http_inv_sizes:
  "http_inv c \<Longrightarrow> length (m_read_buf c) = READ_BUFFER_SIZE" "http_inv c \<Longrightarrow> m_read_index c < READ_BUFFER_SIZE"
  "http_inv c \<Longrightarrow> m_start_line c \<le> m_checked_index c" "http_inv c \<Longrightarrow> m_checked_index c \<le> m_read_index c"
  by (simp_all add: http_inv_def)

lemma text_at_ok:
  assumes "http_inv c" and "i < READ_BUFFER_SIZE"
  shows "\<exists>s. text_at i c = Inr s \<and> i + length s < READ_BUFFER_SIZE"
proof -
  have "m_read_buf c ! (READ_BUFFER_SIZE - 1) = NUL" "READ_BUFFER_SIZE - 1 < length (m_read_buf c)"
    using http_inv_NUL [OF assms(1)] http_inv_sizes(1,2) [OF assms(1)] by simp_all
  moreover have "i \<le> READ_BUFFER_SIZE - 1" using assms(2) by simp
  ultimately obtain s where "cstr_at (m_read_buf c) i = Inr s" using cstr_at_ok by blast
  with cstr_at_bound http_inv_sizes(1) [OF assms(1)] show ?thesis by (fastforce simp: text_at_def)
qed

lemma put_NUL_inv:
  assumes "http_inv c" and "0 \<le> i" and "i < int READ_BUFFER_SIZE"
  shows "\<exists>c'. put_NUL i c = Inr c' \<and> http_inv c' \<and> c' = c\<lparr>m_read_buf := (m_read_buf c)[nat i := NUL]\<rparr>"
  using assms by (auto simp: put_NUL_def http_inv_def nth_list_update)

lemma cut_blank_inv:
  assumes inv: "http_inv c" and p: "p < READ_BUFFER_SIZE"
  shows "\<exists>q c'. cut_blank p c = Inr (q, c') \<and> http_inv c' \<and> (\<forall>u. q = Some u \<longrightarrow> u < READ_BUFFER_SIZE) \<and>
     m_check_state c' = m_check_state c \<and> m_url c' = m_url c"
proof -
  obtain s where s: "text_at p c = Inr s" "p + length s < READ_BUFFER_SIZE" using text_at_ok [OF inv p] by blast
  show ?thesis
  proof (cases "strpbrk s blanks")
    case None
    with s inv show ?thesis by (simp add: cut_blank_def)
  next
    case (Some k)
    then have k: "k < length s" using find_first_Some by (fastforce simp: strpbrk_def)
    with s have "int (p + k) < int READ_BUFFER_SIZE" by simp
    from put_NUL_inv [OF inv of_nat_0_le_iff this] obtain c' where
      c': "put_NUL (int (p + k)) c = Inr c'" "http_inv c'" "c' = c\<lparr>m_read_buf := (m_read_buf c)[p + k := NUL]\<rparr>"
      by (auto simp del: of_nat_add)
    with s k Some show ?thesis by (auto simp: cut_blank_def)
  qed
qed

lemma end_line_inv:
  assumes "http_inv c" and "i < j" and "j < m_read_index c" and "m_checked_index c \<le> j"
  shows "\<exists>c'. end_line i j c = Inr (LINE_OK, c') \<and> http_inv c'"
proof -
  have lt: "int i < int READ_BUFFER_SIZE" "int j < int READ_BUFFER_SIZE" using assms by (auto simp: http_inv_def)
  from put_NUL_inv [OF assms(1) _ lt(1)] obtain c1 where
    c1: "put_NUL (int i) c = Inr c1" "http_inv c1" "c1 = c\<lparr>m_read_buf := (m_read_buf c)[i := NUL]\<rparr>" by auto
  from put_NUL_inv [OF c1(2) _ lt(2)] obtain c2 where
    c2: "put_NUL (int j) c1 = Inr c2" "http_inv c2" "c2 = c1\<lparr>m_read_buf := (m_read_buf c1)[j := NUL]\<rparr>" by auto
  have "m_start_line c2 \<le> j" "m_read_index c2 = m_read_index c" using assms c1(3) c2(3) by (auto simp: http_inv_def)
  then have "http_inv (c2\<lparr>m_checked_index := j + 1\<rparr>)" using c2(2) assms(3) by (auto simp: http_inv_def)
  with c1(1) c2(1) show ?thesis by (simp add: end_line_def)
qed

lemma parse_line_inv: "http_inv c \<Longrightarrow> \<exists>ls c'. parse_line c = Inr (ls, c') \<and> http_inv c'"
proof (induction c rule: parse_line.induct)
  case (1 c)
  let ?i = "m_checked_index c"
  show ?case
  proof (cases "?i < m_read_index c")
    case True
    have sz: "m_read_index c < READ_BUFFER_SIZE" using 1(2) by (simp add: http_inv_def)
    then have t: "get_char ?i c = Inr (m_read_buf c ! ?i)" using True by (simp add: get_char_def)
    show ?thesis
    proof (cases "m_read_buf c ! ?i = CHR 0x0D \<or> m_read_buf c ! ?i = CHR 0x0A")
      case False
      have "http_inv (c\<lparr>m_checked_index := ?i + 1\<rparr>)" using 1(2) True by (auto simp: http_inv_def)
      with 1(1) [OF refl True t] False obtain ls c' where
        "parse_line (c\<lparr>m_checked_index := ?i + 1\<rparr>) = Inr (ls, c')" "http_inv c'" by blast
      with True t False show ?thesis by (simp add: parse_line.simps [of c] Let_def)
    next
      case sep: True
      show ?thesis
        using sep True t sz 1(2) end_line_inv [OF 1(2), of ?i "?i + 1"] end_line_inv [OF 1(2), of "?i - 1" ?i]
        by (auto simp: parse_line.simps [of c] Let_def get_char_def)
    qed
  qed (use 1(2) in \<open>simp add: parse_line.simps [of c]\<close>)
qed

lemma parse_request_line_inv:
  assumes inv: "http_inv c" and p: "p < READ_BUFFER_SIZE"
    and st: "m_check_state c = CHECK_STATE_REQUESTLITE"
  shows "\<exists>r c'. parse_request_line p c = Inr (r, c') \<and> http_inv c'"
proof -
  have url [simp]: "http_inv (d\<lparr>m_url := x\<rparr>)" if "http_inv d" "m_check_state d = CHECK_STATE_REQUESTLITE" for d x
    using that by (simp add: http_inv_def)
  obtain q c0 where q: "cut_blank p c = Inr (q, c0)" "http_inv c0" "\<forall>u. q = Some u \<longrightarrow> u < READ_BUFFER_SIZE"
    "m_check_state c0 = m_check_state c" using cut_blank_inv [OF inv p] by blast
  show ?thesis
  proof (cases q)
    case None
    with q st show ?thesis by (simp add: parse_request_line_def Let_def)
  next
    case (Some u)
    define c1 where "c1 = c0\<lparr>m_url := Some u\<rparr>"
    have c1: "http_inv c1" "m_check_state c1 = CHECK_STATE_REQUESTLITE" using q st by (simp_all add: c1_def)
    obtain mth where m: "text_at p c1 = Inr mth" using text_at_ok [OF c1(1) p] by blast
    have u: "u < READ_BUFFER_SIZE" using q(3) Some by simp
    have "http_inv (c1\<lparr>m_method := GET\<rparr>)" using c1 by simp
    from cut_blank_inv [OF this u] obtain v c2 where
      v: "cut_blank u (c1\<lparr>m_method := GET\<rparr>) = Inr (v, c2)" "http_inv c2" "\<forall>x. v = Some x \<longrightarrow> x < READ_BUFFER_SIZE"
      "m_check_state c2 = CHECK_STATE_REQUESTLITE" using c1(2) by auto
    define c3 where "c3 = c2\<lparr>m_version := v\<rparr>"
    have c3: "http_inv c3" "m_check_state c3 = CHECK_STATE_REQUESTLITE" using v by (simp_all add: c3_def)
    have vs: "\<exists>s. text_at x c3 = Inr s" if "v = Some x" for x using text_at_ok [OF c3(1)] v(3) that by blast
    obtain us where us: "text_at u c3 = Inr us" "u + length us < READ_BUFFER_SIZE" using text_at_ok [OF c3(1) u] by blast
    have skip: "x < READ_BUFFER_SIZE" if "skip_scheme u us = Some x" for x
      using that us(2) u find_first_Some
      by (fastforce simp: skip_scheme_def strchr_def split: if_splits option.splits)
    have head: "http_inv (c3\<lparr>m_url := Some x, m_check_state := CHECK_STATE_HEADER\<rparr>)" if "x < READ_BUFFER_SIZE" for x
      using c3(1) that by (simp add: http_inv_def)
    show ?thesis
      using Some q(1) m v(1) us(1) vs skip head c1 c3
      by (auto simp: parse_request_line_def Let_def c1_def c3_def get_char_def
          split: option.splits)
  qed
qed


lemma parse_request_header_inv:
  assumes inv: "http_inv c" and p: "p + 5 < READ_BUFFER_SIZE" and st: "m_check_state c = CHECK_STATE_HEADER"
  shows "\<exists>r c'. parse_request_header p c = Inr (r, c') \<and> http_inv c' \<and> m_check_state c' \<noteq> CHECK_STATE_REQUESTLITE"
proof -
  have "p < READ_BUFFER_SIZE" using p by simp
  then obtain s t where s: "text_at p c = Inr s" "text_at (p + 5) c = Inr t" using text_at_ok [OF inv] p by meson
  have content: "http_inv (c\<lparr>m_check_state := CHECK_STATE_CONTENT\<rparr>)" using inv st by (simp add: http_inv_def)
  show ?thesis
    using s content inv st by (auto simp: parse_request_header_def Let_def)
qed

lemma parse_request_content_inv:
  assumes inv: "http_inv c" and p: "p \<le> m_checked_index c" and n: "0 \<le> m_content_length c"
  shows "\<exists>r c'. parse_request_content p c = Inr (r, c') \<and> http_inv c' \<and> m_check_state c' = m_check_state c"
proof (cases "int (m_read_index c) \<ge> m_content_length c + int (m_checked_index c)")
  case True
  then have "int p + m_content_length c < int READ_BUFFER_SIZE" using p http_inv_sizes(2) [OF inv] by simp
  from put_NUL_inv [OF inv _ this] n obtain c' where
    "put_NUL (int p + m_content_length c) c = Inr c'" "http_inv c'"
    "c' = c\<lparr>m_read_buf := (m_read_buf c)[nat (int p + m_content_length c) := NUL]\<rparr>" by auto
  with True show ?thesis by (auto simp: parse_request_content_def)
qed (use inv in \<open>simp add: parse_request_content_def\<close>)

lemma length_doc_root: "length doc_root = 41"
  by (simp add: doc_root_def)

lemma doc_root_noNUL: "NUL \<notin> set doc_root"
  by (simp add: doc_root_def)

text \<open>The file name: the root followed by at most 158 bytes of the target.\<close>

definition real_path :: "string \<Rightarrow> string" where
  "real_path url = doc_root @ take 158 url"

lemma real_file_cstr:
  assumes "length f = FILENAME_LEN" and "f ! (FILENAME_LEN - 1) = NUL" and "NUL \<notin> set url"
  defines "g \<equiv> strncpy (length doc_root) url (FILENAME_LEN - length doc_root - 1) (write_at 0 (doc_root @ [NUL]) f)"
  shows "length g = FILENAME_LEN" and "g ! (FILENAME_LEN - 1) = NUL" and "cstr_at g 0 = Inr (real_path url)"
proof -
  have f199: "drop 199 f = [NUL]"
    using assms(1,2) Cons_nth_drop_Suc [of 199 f] by (simp add: FILENAME_LEN_def)
  have "take 41 (write_at 0 (doc_root @ [NUL]) f) = doc_root"
    by (simp add: write_at_def length_doc_root)
  moreover have "drop 199 (write_at 0 (doc_root @ [NUL]) f) = [NUL]"
    using f199 assms(1) by (simp add: write_at_def length_doc_root)
  moreover have "length (take 158 (url @ replicate 158 NUL)) = 158" by simp
  ultimately have g: "g = doc_root @ take 158 (url @ replicate 158 NUL) @ [NUL]"
    by (simp add: g_def strncpy_def write_at_def [of 41] length_doc_root FILENAME_LEN_def)
  show "length g = FILENAME_LEN" by (simp add: g length_doc_root FILENAME_LEN_def)
  show "g ! (FILENAME_LEN - 1) = NUL"
    using nth_append_length [of "doc_root @ take 158 (url @ replicate 158 NUL)" NUL "[]"]
    by (simp add: g length_doc_root FILENAME_LEN_def del: nth_append_length take_append)
  have split: "take 158 (url @ replicate 158 NUL) @ [NUL] = take 158 url @ NUL # replicate (158 - length url) NUL"
    by (cases "length url \<le> 158") (simp_all add: replicate_append_same flip: replicate_Suc)
  have "takeWhile (\<lambda>c. c \<noteq> NUL) ((doc_root @ take 158 url) @ NUL # replicate (158 - length url) NUL) =
      doc_root @ take 158 url"
    using doc_root_noNUL assms(3) by (subst takeWhile_append2) (auto dest: in_set_takeD)
  then show "cstr_at g 0 = Inr (real_path url)"
    unfolding cstr_at_def real_path_def g split by simp
qed

lemma text_at_noNUL: "text_at i c = Inr s \<Longrightarrow> NUL \<notin> set s"
  unfolding text_at_def by (rule cstr_at_noNUL)

lemma do_request_inv:
  assumes inv: "http_inv c" and st: "m_check_state c \<noteq> CHECK_STATE_REQUESTLITE"
  shows "\<exists>r c'. do_request fs c = Inr (r, c') \<and> http_inv c'"
proof -
  obtain u where u: "m_url c = Some u" "u < READ_BUFFER_SIZE" using inv st by (auto simp: http_inv_def)
  obtain url where url: "text_at u c = Inr url" using text_at_ok [OF inv u(2)] by blast
  let ?g = "strncpy (length doc_root) url (FILENAME_LEN - length doc_root - 1) (write_at 0 (doc_root @ [NUL]) (m_real_file c))"
  have g: "length ?g = FILENAME_LEN" "?g ! (FILENAME_LEN - 1) = NUL" "cstr_at ?g 0 = Inr (real_path url)"
    using real_file_cstr [of "m_real_file c" url] inv text_at_noNUL [OF url] by (simp_all add: http_inv_def)
  have "http_inv (c\<lparr>m_real_file := ?g\<rparr>)" using inv g(1,2) by (simp add: http_inv_def)
  then have "http_inv (snd (file_request fs (real_path url) (c\<lparr>m_real_file := ?g\<rparr>)))"
    by (auto simp: file_request_def Let_def split: option.splits)
  with u(1) url g(3) show ?thesis
    by (cases "file_request fs (real_path url) (c\<lparr>m_real_file := ?g\<rparr>)") (simp add: do_request_def Let_def)
qed

text \<open>One pass of the loop, with the condition, and the states at the head of the loop.\<close>

definition read_iter :: "file_system \<Rightarrow> LINE_STATUS \<Rightarrow> http_conn \<Rightarrow> (HTTP_CODE option \<times> LINE_STATUS \<times> http_conn) result" where
  "read_iter fs line_status c =
     then_do (if m_check_state c = CHECK_STATE_CONTENT \<and> line_status = LINE_OK then Inr (LINE_OK, c) else parse_line c)
       (\<lambda>(ls1, c1). if ls1 = LINE_OK then read_step fs ls1 c1 else Inr (Some NO_REQUEST, ls1, c1))"

lemma process_read_loop_iter:
  "process_read_loop fs ls c =
     then_do (read_iter fs ls c) (\<lambda>(ret, ls2, c2). case ret of Some r \<Rightarrow> Inr (r, c2) | None \<Rightarrow> process_read_loop fs ls2 c2)"
  unfolding read_iter_def
  by (subst process_read_loop.simps) (auto simp: then_do_def split: sum.splits prod.splits if_splits)

inductive read_state :: "file_system \<Rightarrow> http_conn \<Rightarrow> LINE_STATUS \<Rightarrow> http_conn \<Rightarrow> bool" for fs c0 where
  read_start: "read_state fs c0 LINE_OK c0"
| read_again: "read_state fs c0 ls c \<Longrightarrow> read_iter fs ls c = Inr (None, ls2, c2) \<Longrightarrow> read_state fs c0 ls2 c2"

lemma parse_line_keeps:
  "parse_line c = Inr (ls, c') \<Longrightarrow> m_content_length c' = m_content_length c \<and> m_read_index c' = m_read_index c \<and>
     m_check_state c' = m_check_state c \<and> m_start_line c' = m_start_line c"
proof (induction c rule: parse_line.induct)
  case (1 c)
  show ?case
  proof (cases "m_checked_index c < m_read_index c \<and> (\<exists>t. get_char (m_checked_index c) c = Inr t \<and> t \<noteq> CHR 0x0D \<and> t \<noteq> CHR 0x0A)")
    case True
    then obtain t where t: "m_checked_index c < m_read_index c" "get_char (m_checked_index c) c = Inr t"
      "t \<noteq> CHR 0x0D" "t \<noteq> CHR 0x0A" by blast
    with 1(2) have "parse_line (c\<lparr>m_checked_index := m_checked_index c + 1\<rparr>) = Inr (ls, c')"
      by (simp add: parse_line.simps [of c] Let_def)
    with 1(1) [OF refl t] show ?thesis by simp
  next
    case False
    with 1(2) show ?thesis
      by (auto simp: parse_line.simps [of c] Let_def then_do_Inr_iff end_line_def put_NUL_def split: if_splits sum.splits)
  qed
qed

lemma read_step_inv:
  assumes inv: "http_inv c" and idx: "m_read_index c + 5 < READ_BUFFER_SIZE" and n: "0 \<le> m_content_length c"
  shows "\<exists>ret ls2 c2. read_step fs ls c = Inr (ret, ls2, c2) \<and> http_inv c2"
proof -
  let ?c1 = "c\<lparr>m_start_line := m_checked_index c\<rparr>" and ?p = "m_start_line c"
  have c1: "http_inv ?c1" and p: "?p + 5 < READ_BUFFER_SIZE" "?p \<le> m_checked_index ?c1"
    using inv idx by (auto simp: http_inv_def)
  show ?thesis
  proof (cases "m_check_state c")
    case CHECK_STATE_REQUESTLITE
    with parse_request_line_inv [OF c1, of ?p] p show ?thesis by (auto simp: read_step_def Let_def get_line_def)
  next
    case CHECK_STATE_HEADER
    with parse_request_header_inv [OF c1 p(1)] obtain r c2 where
      h: "parse_request_header ?p ?c1 = Inr (r, c2)" "http_inv c2" "m_check_state c2 \<noteq> CHECK_STATE_REQUESTLITE" by auto
    with CHECK_STATE_HEADER do_request_inv [OF h(2,3), of fs] show ?thesis
      by (auto simp: read_step_def Let_def get_line_def)
  next
    case CHECK_STATE_CONTENT
    with parse_request_content_inv [OF c1 p(2)] n obtain r c2 where
      h: "parse_request_content ?p ?c1 = Inr (r, c2)" "http_inv c2" "m_check_state c2 \<noteq> CHECK_STATE_REQUESTLITE" by auto
    with CHECK_STATE_CONTENT do_request_inv [OF h(2,3), of fs] show ?thesis
      by (auto simp: read_step_def Let_def get_line_def)
  qed
qed

lemma read_iter_inv:
  assumes inv: "http_inv c" and idx: "m_read_index c + 5 < READ_BUFFER_SIZE" and n: "0 \<le> m_content_length c"
  shows "\<exists>ret ls2 c2. read_iter fs ls c = Inr (ret, ls2, c2) \<and> http_inv c2"
proof (cases "m_check_state c = CHECK_STATE_CONTENT \<and> ls = LINE_OK")
  case True
  with read_step_inv [OF assms] show ?thesis by (simp add: read_iter_def)
next
  case False
  obtain ls1 c1 where p: "parse_line c = Inr (ls1, c1)" "http_inv c1" using parse_line_inv [OF inv] by blast
  with parse_line_keeps [OF p(1)] read_step_inv [OF p(2)] idx n False show ?thesis by (auto simp: read_iter_def)
qed

lemma read_iter_index: "read_iter fs ls c = Inr (None, ls2, c2) \<Longrightarrow> m_read_index c2 = m_read_index c"
  by (auto simp: read_iter_def then_do_Inr_iff split: if_splits prod.splits dest!: read_step_frame parse_line_keeps)


text \<open>Rule for the loop: what every pass keeps and what it returns.\<close>

definition read_measure :: "LINE_STATUS \<Rightarrow> http_conn \<Rightarrow> nat" where
  "read_measure ls c = 2 * (m_read_index c - m_checked_index c) + (if ls = LINE_OK then 1 else 0)"

lemma read_iter_decreases:
  assumes "read_iter fs ls c = Inr (None, ls2, c2)"
  shows "read_measure ls2 c2 < read_measure ls c"
proof -
  from assms obtain c1 where c1: "read_step fs LINE_OK c1 = Inr (None, ls2, c2)"
      "(m_check_state c = CHECK_STATE_CONTENT \<and> ls = LINE_OK \<and> c1 = c) \<or> parse_line c = Inr (LINE_OK, c1)"
    by (auto simp: read_iter_def then_do_Inr_iff split: if_splits prod.splits)
  from c1(2) show ?thesis
  proof (elim disjE conjE)
    assume "parse_line c = Inr (LINE_OK, c1)"
    from parse_line_ok [OF this] read_step_frame [OF c1(1)] show ?thesis by (auto simp: read_measure_def)
  qed (use read_step_frame [OF c1(1)] in \<open>auto simp: read_measure_def\<close>)
qed

lemma process_read_loop_rule:
  assumes "\<And>ls c. I ls c \<Longrightarrow> \<exists>ret ls2 c2. read_iter fs ls c = Inr (ret, ls2, c2) \<and>
      (case ret of None \<Rightarrow> I ls2 c2 | Some r \<Rightarrow> Q r c2)" and "I ls c"
  shows "\<exists>r c'. process_read_loop fs ls c = Inr (r, c') \<and> Q r c'"
  using assms(2)
proof (induction "read_measure ls c" arbitrary: ls c rule: less_induct)
  case less
  from assms(1) [OF less.prems] obtain ret ls2 c2 where it: "read_iter fs ls c = Inr (ret, ls2, c2)"
      "case ret of None \<Rightarrow> I ls2 c2 | Some r \<Rightarrow> Q r c2" by blast
  show ?case
  proof (cases ret)
    case None
    with it less.hyps [of ls2 c2] read_iter_decreases [of fs ls c ls2 c2] show ?thesis
      by (simp add: process_read_loop_iter [of fs ls c])
  qed (use it in \<open>simp add: process_read_loop_iter [of fs ls c]\<close>)
qed


section \<open>Requests in full\<close>

text \<open>A line and its end as they arrive, and a whole request.\<close>

definition crlf :: string where
  "crlf = [CHR 0x0D, CHR 0x0A]"

definition line_ok :: "string \<Rightarrow> bool" where
  "line_ok s \<longleftrightarrow> CHR 0x0D \<notin> set s \<and> CHR 0x0A \<notin> set s \<and> NUL \<notin> set s"

definition url_ok :: "string \<Rightarrow> bool" where
  "url_ok s \<longleftrightarrow> line_ok s \<and> CHR '' '' \<notin> set s \<and> CHR 0x09 \<notin> set s \<and> s \<noteq> [] \<and> hd s = CHR ''/''"

definition header_ok :: "string \<Rightarrow> bool" where
  "header_ok s \<longleftrightarrow> line_ok s \<and> s \<noteq> [] \<and> strncasecmp s ''Content-Length:'' 15 \<noteq> 0"

definition keep_alive :: "string \<Rightarrow> bool" where
  "keep_alive s \<longleftrightarrow> strncasecmp s ''Connection:'' 11 = 0 \<and>
     (let t = drop 11 s in strcasecmp (drop (strspn t blanks) t) ''keep-alive'' = 0)"

definition header_lines :: "string list \<Rightarrow> string" where
  "header_lines hs = concat (map (\<lambda>h. h @ crlf) hs)"

definition get_request :: "string \<Rightarrow> string list \<Rightarrow> string" where
  "get_request url hs = ''GET '' @ url @ '' HTTP/1.1'' @ crlf @ header_lines hs @ crlf"

lemma list_update_mid: "(xs @ y # zs)[length xs := v] = xs @ v # zs"
  by simp

text \<open>A line is found where it stands, and its end becomes two terminators.\<close>

lemma parse_line_finds:
  assumes "m_read_buf c = pre @ line @ crlf @ post" and "length pre = m_checked_index c"
    and "length (m_read_buf c) = READ_BUFFER_SIZE" and "m_checked_index c + length line + 2 \<le> m_read_index c"
    and "m_read_index c \<le> READ_BUFFER_SIZE" and "CHR 0x0D \<notin> set line" and "CHR 0x0A \<notin> set line"
  shows "parse_line c = Inr (LINE_OK, c\<lparr>m_read_buf := pre @ line @ [NUL, NUL] @ post,
     m_checked_index := m_checked_index c + length line + 2\<rparr>)"
  using assms
proof (induction line arbitrary: c pre)
  case Nil
  let ?i = "m_checked_index c"
  have ch: "get_char ?i c = Inr (CHR 0x0D)" "get_char (?i + 1) c = Inr (CHR 0x0A)"
    using Nil by (auto simp: get_char_def crlf_def nth_append)
  have "end_line ?i (?i + 1) c = Inr (LINE_OK, c\<lparr>m_read_buf := pre @ [NUL, NUL] @ post, m_checked_index := ?i + 2\<rparr>)"
    using Nil list_update_mid [of "pre @ [NUL]" "CHR 0x0A" post NUL] list_update_mid [of pre "CHR 0x0D" "CHR 0x0A # post" NUL]
    by (simp add: end_line_def put_NUL_def crlf_def nat_add_distrib)
  with ch Nil show ?case by (simp add: parse_line.simps [of c] Let_def)
next
  case (Cons x line)
  let ?i = "m_checked_index c"
  have ch: "get_char ?i c = Inr x" using Cons.prems by (simp add: get_char_def nth_append)
  have x: "x \<noteq> CHR 0x0D" "x \<noteq> CHR 0x0A" using Cons.prems by auto
  have "parse_line c = parse_line (c\<lparr>m_checked_index := ?i + 1\<rparr>)"
    using ch x Cons.prems(4) by (simp add: parse_line.simps [of c] Let_def)
  also have "... = Inr (LINE_OK, c\<lparr>m_checked_index := ?i + 1\<rparr>
      \<lparr>m_read_buf := (pre @ [x]) @ line @ [NUL, NUL] @ post, m_checked_index := (?i + 1) + length line + 2\<rparr>)"
    using Cons.prems Cons.IH [of "c\<lparr>m_checked_index := ?i + 1\<rparr>" "pre @ [x]"] by simp
  finally show ?case by simp
qed

lemma cstr_at_mid:
  assumes "NUL \<notin> set s"
  shows "cstr_at (pre @ s @ NUL # post) (length pre) = Inr s"
proof -
  have "takeWhile (\<lambda>c. c \<noteq> NUL) (s @ NUL # post) = s" using assms by (induction s) auto
  then show ?thesis by (simp add: cstr_at_def)
qed


lemma cut_blank_finds:
  assumes "m_read_buf c = pre @ w @ b # rest @ NUL # post" and "length (m_read_buf c) = READ_BUFFER_SIZE"
    and "b \<in> set blanks" and "set w \<inter> set blanks = {}" and "NUL \<notin> set w" and "NUL \<notin> set rest"
  shows "cut_blank (length pre) c =
    Inr (Some (length pre + length w + 1), c\<lparr>m_read_buf := pre @ w @ NUL # rest @ NUL # post\<rparr>)"
proof -
  have b: "b \<noteq> NUL" using assms(3) by (auto simp: blanks_def)
  have "text_at (length pre) c = Inr (w @ b # rest)"
    using cstr_at_mid [of "w @ b # rest" pre post] assms(1,5,6) b by (simp add: text_at_def)
  moreover have "strpbrk (w @ b # rest) blanks = Some (length w)"
    using assms(3,4) by (auto simp: strpbrk_def intro!: find_first_append)
  moreover have "put_NUL (int (length pre + length w)) c = Inr (c\<lparr>m_read_buf := pre @ w @ NUL # rest @ NUL # post\<rparr>)"
    using assms(1,2) list_update_mid [of "pre @ w" b "rest @ NUL # post" NUL]
    by (simp add: put_NUL_def nat_int_add)
  ultimately show ?thesis by (simp add: cut_blank_def)
qed

lemma slash_no_scheme: "url_ok url \<Longrightarrow> skip_scheme u url = Some u"
  by (cases url) (auto simp: url_ok_def skip_scheme_def strncasecmp_def tolower_def)

lemma request_line_ok:
  assumes buf: "m_read_buf c = ''GET '' @ url @ '' HTTP/1.1'' @ NUL # post"
    and len: "length (m_read_buf c) = READ_BUFFER_SIZE" and url: "url_ok url"
  shows "parse_request_line 0 c = Inr (NO_REQUEST, c\<lparr>m_read_buf := ''GET'' @ NUL # url @ NUL # ''HTTP/1.1'' @ NUL # post,
     m_url := Some 4, m_method := GET, m_version := Some (length url + 5), m_check_state := CHECK_STATE_HEADER\<rparr>)"
proof -
  have u: "NUL \<notin> set url" "set url \<inter> set blanks = {}" "url \<noteq> []" "hd url = CHR ''/''"
    using url by (auto simp: url_ok_def line_ok_def blanks_def)
  define c1 where "c1 = c\<lparr>m_read_buf := ''GET'' @ NUL # url @ '' HTTP/1.1'' @ NUL # post\<rparr>"
  have cut1: "cut_blank 0 c = Inr (Some 4, c1)"
    using cut_blank_finds [of c "[]" "''GET''" "CHR '' ''" "url @ '' HTTP/1.1''" post] buf len u
    by (simp add: blanks_def c1_def eval_nat_numeral)
  have mth: "text_at 0 (c1\<lparr>m_url := Some 4\<rparr>) = Inr ''GET''"
    using cstr_at_mid [of "''GET''" "[]" "url @ '' HTTP/1.1'' @ NUL # post"] by (simp add: text_at_def c1_def)
  let ?c2 = "c1\<lparr>m_url := Some 4, m_method := GET\<rparr>"
  define c3 where "c3 = ?c2\<lparr>m_read_buf := ''GET'' @ NUL # url @ NUL # ''HTTP/1.1'' @ NUL # post\<rparr>"
  have len1: "length (m_read_buf ?c2) = READ_BUFFER_SIZE" using buf len by (simp add: c1_def)
  have cut2: "cut_blank 4 ?c2 = Inr (Some (length url + 5), c3)"
    using cut_blank_finds [of ?c2 "''GET'' @ [NUL]" url "CHR '' ''" "''HTTP/1.1''" post] u len1
    by (simp add: blanks_def c1_def c3_def eval_nat_numeral)
  let ?c3 = "c3\<lparr>m_version := Some (length url + 5)\<rparr>"
  have ver: "text_at (length url + 5) ?c3 = Inr ''HTTP/1.1''"
    using cstr_at_mid [of "''HTTP/1.1''" "''GET'' @ NUL # url @ [NUL]" post] by (simp add: text_at_def c3_def eval_nat_numeral)
  have us: "text_at 4 ?c3 = Inr url"
    using cstr_at_mid [of url "''GET'' @ [NUL]" "''HTTP/1.1'' @ NUL # post"] u(1) by (simp add: text_at_def c3_def eval_nat_numeral)
  have "4 < READ_BUFFER_SIZE" by (simp add: READ_BUFFER_SIZE_def)
  then have sl: "get_char 4 (?c3\<lparr>m_url := Some 4\<rparr>) = Inr (CHR ''/'')"
    using u(3,4) by (cases url) (simp_all add: get_char_def c3_def)
  have same: "strcasecmp ''GET'' ''GET'' = 0" "strcasecmp ''HTTP/1.1'' ''HTTP/1.1'' = 0" by simp_all
  have "parse_request_line 0 c = Inr (NO_REQUEST, ?c3\<lparr>m_url := Some 4, m_check_state := CHECK_STATE_HEADER\<rparr>)"
    unfolding parse_request_line_def cut1
    by (simp only: then_do_simps prod.case Let_def option.case mth same if_True cut2 ver us
        slash_no_scheme [OF url] sl simp_thms if_False)
  then show ?thesis by (simp add: c3_def c1_def)
qed


text \<open>
  At the head of the loop between two header lines: everything before \<open>pre\<close> is done, \<open>rest\<close> is
  still to come.
\<close>

definition at_header :: "nat \<Rightarrow> string \<Rightarrow> char list \<Rightarrow> char list \<Rightarrow> http_conn \<Rightarrow> bool" where
  "at_header u url pre rest c \<longleftrightarrow>
     http_inv c \<and> m_read_index c + 5 < READ_BUFFER_SIZE \<and> m_check_state c = CHECK_STATE_HEADER \<and>
     m_content_length c = 0 \<and> m_read_buf c = pre @ rest \<and> m_checked_index c = length pre \<and>
     m_start_line c = length pre \<and> m_url c = Some u \<and> (\<forall>s. cstr_at (pre @ s) u = Inr url)"

lemma cstr_at_grow:
  assumes "\<forall>s. cstr_at (pre @ s) u = Inr url"
  shows "\<forall>s. cstr_at ((pre @ tail) @ s) u = Inr url"
  using assms by simp

lemma header_effect:
  assumes "text_at p c = Inr h" and "text_at (p + 5) c = Inr t" and "header_ok h"
  shows "\<exists>c'. parse_request_header p c = Inr (NO_REQUEST, c') \<and>
     c' \<in> {c, c\<lparr>m_linger := True\<rparr>, c\<lparr>m_host := Some (p + 5 + strspn t blanks)\<rparr>} \<and>
     m_linger c' = (m_linger c \<or> keep_alive h)"
proof -
  have h: "h \<noteq> []" "strncasecmp h ''Content-Length:'' 15 \<noteq> 0" using assms(3) by (simp_all add: header_ok_def)
  consider (conn) "strncasecmp h ''Connection:'' 11 = 0" | (host) "strncasecmp h ''Connection:'' 11 \<noteq> 0" "strncasecmp h ''Host:'' 5 = 5"
    | (other) "strncasecmp h ''Connection:'' 11 \<noteq> 0" "strncasecmp h ''Host:'' 5 \<noteq> 5" by blast
  then show ?thesis
  proof cases
    case conn
    with assms(1) h show ?thesis
      by (cases "keep_alive h") (simp_all add: parse_request_header_def keep_alive_def Let_def)
  next
    case host
    with assms(1,2) h show ?thesis by (simp add: parse_request_header_def keep_alive_def)
  next
    case other
    with assms(1) h show ?thesis by (simp add: parse_request_header_def keep_alive_def)
  qed
qed

lemma at_header_line:
  assumes at: "at_header u url pre (h @ crlf @ post) c" and h: "header_ok h"
    and room: "length pre + length h + 2 \<le> m_read_index c"
  shows "\<exists>c'. read_iter fs LINE_OK c = Inr (None, LINE_OK, c') \<and> at_header u url (pre @ h @ [NUL, NUL]) post c' \<and>
     m_linger c' = (m_linger c \<or> keep_alive h) \<and> m_read_index c' = m_read_index c \<and> m_real_file c' = m_real_file c"
proof -
  note a = at [unfolded at_header_def]
  have inv: "http_inv c" using a by simp
  define c1 where "c1 = c\<lparr>m_read_buf := pre @ h @ [NUL, NUL] @ post, m_checked_index := length pre + length h + 2\<rparr>"
  have pl: "parse_line c = Inr (LINE_OK, c1)"
    using parse_line_finds [of c pre h post] a h room http_inv_sizes [OF inv]
    by (simp add: c1_def header_ok_def line_ok_def)
  have inv1: "http_inv c1" using parse_line_inv [OF inv] pl by simp
  define c2 where "c2 = c1\<lparr>m_start_line := m_checked_index c1\<rparr>"
  have inv2: "http_inv c2" using inv1 by (simp add: c2_def http_inv_def)
  have p: "length pre + 5 < READ_BUFFER_SIZE" using a room by simp
  have hd_text: "text_at (length pre) c2 = Inr h"
    using cstr_at_mid [of h pre "NUL # post"] h by (simp add: c2_def c1_def text_at_def header_ok_def line_ok_def)
  obtain t where t: "text_at (length pre + 5) c2 = Inr t" using text_at_ok [OF inv2 p] by blast
  obtain c3 where c3: "parse_request_header (length pre) c2 = Inr (NO_REQUEST, c3)"
      "c3 \<in> {c2, c2\<lparr>m_linger := True\<rparr>, c2\<lparr>m_host := Some (length pre + 5 + strspn t blanks)\<rparr>}"
      "m_linger c3 = (m_linger c2 \<or> keep_alive h)"
    using header_effect [OF hd_text t h] by blast
  have "at_header u url (pre @ h @ [NUL, NUL]) post c2"
    using a inv2 cstr_at_grow [of pre u url "h @ [NUL, NUL]"] by (simp add: at_header_def c2_def c1_def)
  then have at3: "at_header u url (pre @ h @ [NUL, NUL]) post c3" using c3(2) by (auto simp: at_header_def)
  have "read_step fs LINE_OK c1 = Inr (None, LINE_OK, c3)"
    using a c3(1) by (simp add: read_step_def Let_def get_line_def c2_def c1_def)
  then have "read_iter fs LINE_OK c = Inr (None, LINE_OK, c3)" using pl a by (simp add: read_iter_def)
  moreover have "m_linger c3 = (m_linger c \<or> keep_alive h)" "m_read_index c3 = m_read_index c" "m_real_file c3 = m_real_file c"
    using c3(2,3) by (auto simp: c2_def c1_def)
  ultimately show ?thesis using at3 by blast
qed

lemma at_header_end:
  assumes at: "at_header u url pre (crlf @ post) c" and room: "length pre + 2 \<le> m_read_index c"
  shows "\<exists>c'. process_read_loop fs LINE_OK c = do_request fs c' \<and> http_inv c' \<and> m_check_state c' = CHECK_STATE_HEADER \<and>
     m_url c' = Some u \<and> text_at u c' = Inr url \<and> m_linger c' = m_linger c \<and> m_real_file c' = m_real_file c \<and>
     at_header u url (pre @ [NUL, NUL]) post c' \<and> m_read_index c' = m_read_index c"
proof -
  note a = at [unfolded at_header_def]
  have inv: "http_inv c" using a by simp
  define c1 where "c1 = c\<lparr>m_read_buf := pre @ [NUL, NUL] @ post, m_checked_index := length pre + 2\<rparr>"
  have pl: "parse_line c = Inr (LINE_OK, c1)"
    using parse_line_finds [of c pre "[]" post] a room http_inv_sizes [OF inv] by (simp add: c1_def)
  have inv1: "http_inv c1" using parse_line_inv [OF inv] pl by simp
  define c2 where "c2 = c1\<lparr>m_start_line := m_checked_index c1\<rparr>"
  have inv2: "http_inv c2" using inv1 by (simp add: c2_def http_inv_def)
  have "text_at (length pre) c2 = Inr []"
    using cstr_at_mid [of "[]" pre "NUL # post"] by (simp add: c2_def c1_def text_at_def)
  then have "parse_request_header (length pre) c2 = Inr (GET_REQUEST, c2)"
    using a by (simp add: parse_request_header_def c2_def c1_def)
  then have "read_iter fs LINE_OK c = then_do (do_request fs c2) (\<lambda>(r, c'). Inr (Some r, LINE_OK, c'))"
    using pl a by (simp add: read_iter_def read_step_def Let_def get_line_def c2_def c1_def)
  then have "process_read_loop fs LINE_OK c = do_request fs c2"
    by (cases "do_request fs c2") (auto simp: process_read_loop_iter)
  moreover have "text_at u c2 = Inr url" using a by (simp add: text_at_def c2_def c1_def)
  moreover have "at_header u url (pre @ [NUL, NUL]) post c2"
    using a inv2 cstr_at_grow [of pre u url "[NUL, NUL]"] by (simp add: at_header_def c2_def c1_def)
  ultimately show ?thesis using inv2 a by (auto simp: c2_def c1_def)
qed

lemma at_header_loop:
  assumes "at_header u url pre (header_lines hs @ crlf @ post) c" and "\<forall>h \<in> set hs. header_ok h"
    and "length pre + length (header_lines hs) + 2 \<le> m_read_index c"
  shows "\<exists>c'. process_read_loop fs LINE_OK c = do_request fs c' \<and> http_inv c' \<and> m_check_state c' = CHECK_STATE_HEADER \<and>
     m_url c' = Some u \<and> text_at u c' = Inr url \<and> m_linger c' = (m_linger c \<or> (\<exists>h \<in> set hs. keep_alive h)) \<and>
     m_real_file c' = m_real_file c \<and> m_read_index c' = m_read_index c \<and>
     (\<exists>pre'. at_header u url pre' post c' \<and> length pre' = length pre + length (header_lines hs) + 2)"
  using assms
proof (induction hs arbitrary: pre c)
  case Nil
  with at_header_end [of u url pre post c fs] show ?case by (fastforce simp: header_lines_def)
next
  case (Cons h hs)
  let ?post = "header_lines hs @ crlf @ post"
  have at: "at_header u url pre (h @ crlf @ ?post) c" using Cons.prems(1) by (simp add: header_lines_def)
  have room: "length pre + length h + 2 \<le> m_read_index c" "length (pre @ h @ [NUL, NUL]) + length (header_lines hs) + 2 \<le> m_read_index c"
    using Cons.prems(3) by (simp_all add: header_lines_def crlf_def)
  from at_header_line [OF at _ room(1), of fs] Cons.prems(2) obtain c1 where
    c1: "read_iter fs LINE_OK c = Inr (None, LINE_OK, c1)" "at_header u url (pre @ h @ [NUL, NUL]) ?post c1"
    "m_linger c1 = (m_linger c \<or> keep_alive h)" "m_read_index c1 = m_read_index c" "m_real_file c1 = m_real_file c" by auto
  have "process_read_loop fs LINE_OK c = process_read_loop fs LINE_OK c1"
    using c1(1) by (simp add: process_read_loop_iter [of fs LINE_OK c])
  with Cons.IH [OF c1(2)] Cons.prems(2) c1(3,4,5) room(2) show ?case by (fastforce simp: header_lines_def crlf_def)
qed


text \<open>A new request of which the bytes \<open>d\<close> have arrived.\<close>

definition arrived :: "string \<Rightarrow> http_conn \<Rightarrow> http_conn" where
  "arrived d c = (http_init c)\<lparr>m_read_buf := d @ replicate (READ_BUFFER_SIZE - length d) NUL, m_read_index := length d\<rparr>"

lemma arrived_read:
  "length d < READ_BUFFER_SIZE \<Longrightarrow> d \<noteq> [] \<Longrightarrow> http_read [ReadData d] (http_init c) = (True, arrived d c)"
  by (simp add: http_read_def arrived_def http_init_def Let_def write_at_def)

lemma arrived_inv: "length d < READ_BUFFER_SIZE \<Longrightarrow> http_inv (arrived d c)"
  by (auto simp: http_inv_def arrived_def http_init_def FILENAME_LEN_def nth_append)

text \<open>After the request line the loop stands before the first header.\<close>

lemma request_line_iter:
  assumes url: "url_ok url" and len: "length ''GET '' + length url + length '' HTTP/1.1'' + 2 + length rest + 5 < READ_BUFFER_SIZE"
  defines "d \<equiv> ''GET '' @ url @ '' HTTP/1.1'' @ crlf @ rest"
  defines "zeros \<equiv> replicate (READ_BUFFER_SIZE - length d) NUL"
  shows "\<exists>c1. process_read fs (arrived d c) = process_read_loop fs LINE_OK c1 \<and>
    at_header 4 url (''GET'' @ NUL # url @ NUL # ''HTTP/1.1'' @ [NUL, NUL]) (rest @ zeros) c1 \<and>
    m_linger c1 = False \<and> m_read_index c1 = length d"
proof -
  let ?c = "arrived d c" and ?line = "''GET '' @ url @ '' HTTP/1.1''" and ?post = "rest @ zeros"
  have ld: "length d < READ_BUFFER_SIZE" "length d + 5 < READ_BUFFER_SIZE" using len by (simp_all add: d_def crlf_def)
  note inv = arrived_inv [OF ld(1), of c]
  have buf: "m_read_buf ?c = ?line @ crlf @ ?post" by (simp add: arrived_def d_def zeros_def)
  have idx: "m_checked_index ?c = 0" "m_read_index ?c = length d" "m_check_state ?c = CHECK_STATE_REQUESTLITE"
    "m_start_line ?c = 0" "m_content_length ?c = 0" "\<not> m_linger ?c"
    by (simp_all add: arrived_def http_init_def)
  have u: "line_ok url" using url by (simp add: url_ok_def)
  define c1 where "c1 = ?c\<lparr>m_read_buf := ?line @ [NUL, NUL] @ ?post, m_checked_index := length ?line + 2\<rparr>"
  have "m_checked_index ?c + length ?line + 2 \<le> m_read_index ?c" unfolding idx(1,2) by (simp add: d_def crlf_def)
  moreover have "CHR 0x0D \<notin> set ?line" "CHR 0x0A \<notin> set ?line" using u by (simp_all add: line_ok_def)
  ultimately have pl: "parse_line ?c = Inr (LINE_OK, c1)"
    using parse_line_finds [of ?c "[]" ?line ?post] buf idx(1,2) http_inv_sizes [OF inv]
    by (simp add: c1_def)
  have inv1: "http_inv c1" using parse_line_inv [OF inv] pl by simp
  define c2 where "c2 = c1\<lparr>m_start_line := m_checked_index c1\<rparr>"
  have inv2: "http_inv c2" using inv1 by (simp add: c2_def http_inv_def)
  have buf2: "m_read_buf c2 = ''GET '' @ url @ '' HTTP/1.1'' @ NUL # NUL # ?post" by (simp add: c2_def c1_def)
  obtain c3 where c3: "parse_request_line 0 c2 = Inr (NO_REQUEST, c3)"
      "c3 = c2\<lparr>m_read_buf := ''GET'' @ NUL # url @ NUL # ''HTTP/1.1'' @ NUL # NUL # ?post,
         m_url := Some 4, m_method := GET, m_version := Some (length url + 5), m_check_state := CHECK_STATE_HEADER\<rparr>"
    using request_line_ok [OF buf2 http_inv_sizes(1) [OF inv2] url] by blast
  have "http_inv c3"
    using parse_request_line_inv [OF inv2, of 0] idx(3) c3(1) by (simp add: c2_def c1_def)
  moreover have "cstr_at ((''GET'' @ NUL # url @ NUL # ''HTTP/1.1'' @ [NUL, NUL]) @ s) 4 = Inr url" for s
    using cstr_at_mid [of url "''GET'' @ [NUL]" "''HTTP/1.1'' @ [NUL, NUL] @ s"] u by (simp add: line_ok_def eval_nat_numeral)
  ultimately have "at_header 4 url (''GET'' @ NUL # url @ NUL # ''HTTP/1.1'' @ [NUL, NUL]) ?post c3"
    using idx ld(2) c3(2) by (simp add: at_header_def c2_def c1_def)
  moreover have "read_iter fs LINE_OK ?c = Inr (None, LINE_OK, c3)"
    using pl c3(1) idx by (simp add: read_iter_def read_step_def Let_def get_line_def c2_def c1_def)
  then have "process_read fs ?c = process_read_loop fs LINE_OK c3"
    by (simp add: process_read_def process_read_loop_iter [of fs LINE_OK ?c])
  moreover have "m_linger c3 = False" "m_read_index c3 = length d" using idx c3(2) by (simp_all add: c2_def c1_def)
  ultimately show ?thesis by blast
qed

text \<open>The answer the file system gives for a target.\<close>

definition served :: "file_system \<Rightarrow> string \<Rightarrow> HTTP_CODE" where
  "served fs url =
     (case fs (real_path url) of
        None \<Rightarrow> NO_RESOURCE
      | Some (st, content) \<Rightarrow> if S_ISDIR (st_mode st) then BAD_REQUEST else FILE_REQUEST)"

lemma not_readable_never [simp]: "not_readable_test mode = False"
  by (simp add: not_readable_test_def S_IROTH_def)

lemma file_request_code: "fst (file_request fs path c) \<noteq> FORBIDDEN_REQUEST"
  by (simp add: file_request_def Let_def split: option.splits)

lemma do_request_served:
  assumes inv: "http_inv c" and u: "m_url c = Some u" and url: "text_at u c = Inr url"
  shows "\<exists>c'. do_request fs c = Inr (served fs url, c') \<and> m_linger c' = m_linger c \<and>
     (served fs url = FILE_REQUEST \<longrightarrow>
        (\<exists>st content. fs (real_path url) = Some (st, content) \<and> m_file_stat c' = st \<and>
           (\<forall>bytes. content = Some bytes \<and> 0 < st_size st \<longrightarrow> m_file_address c' = Some (Mapped bytes))))"
proof -
  let ?g = "strncpy (length doc_root) url (FILENAME_LEN - length doc_root - 1) (write_at 0 (doc_root @ [NUL]) (m_real_file c))"
  have "cstr_at ?g 0 = Inr (real_path url)"
    using real_file_cstr(3) [of "m_real_file c" url] inv text_at_noNUL [OF url] by (simp add: http_inv_def)
  with u url show ?thesis
    by (auto simp: do_request_def file_request_def Let_def served_def split: option.splits)
qed


text \<open>A header line with a negative length.\<close>

definition negative_length :: "nat \<Rightarrow> string" where
  "negative_length n = ''Content-Length: -'' @ show_nat n"

lemma atol_negative: "atol (CHR ''-'' # show_nat n) = - int n"
proof -
  have t: "takeWhile is_digit (show_nat n) = show_nat n"
    by (simp add: takeWhile_eq_all_conv show_nat_digits)
  show ?thesis by (simp add: atol_def is_space_def t digits_val_show del: takeWhile_eq_all_conv)
qed

lemma negative_length_header:
  assumes "text_at p c = Inr (negative_length n)"
  shows "parse_request_header p c = Inr (NO_REQUEST, c\<lparr>m_content_length := - int n\<rparr>)"
  using assms atol_negative
  by (simp add: parse_request_header_def negative_length_def strncasecmp_def tolower_def Let_def strspn_def blanks_def)

lemma negative_length_line: "line_ok (negative_length n)"
proof -
  have "c \<notin> set (show_nat n)" if "\<not> is_digit c" for c using that show_nat_digits by blast
  then show ?thesis by (simp add: line_ok_def negative_length_def is_digit_def)
qed

lemma at_header_negative:
  assumes at: "at_header u url pre (negative_length n @ crlf @ crlf @ post) c" and n: "READ_BUFFER_SIZE \<le> n"
    and room: "length pre + length (negative_length n) + 4 \<le> m_read_index c"
  shows "process_read_loop fs LINE_OK c = Inl OutOfBounds"
proof -
  note a = at [unfolded at_header_def]
  let ?h = "negative_length n" and ?k = "length pre + length (negative_length n)"
  have inv: "http_inv c" using a by simp
  note sz = http_inv_sizes [OF inv]
  have h: "CHR 0x0D \<notin> set ?h" "CHR 0x0A \<notin> set ?h" "NUL \<notin> set ?h" using negative_length_line by (simp_all add: line_ok_def)
  define c1 where "c1 = c\<lparr>m_read_buf := pre @ ?h @ [NUL, NUL] @ crlf @ post, m_checked_index := ?k + 2\<rparr>"
  define c2 where "c2 = c1\<lparr>m_start_line := ?k + 2, m_content_length := - int n\<rparr>"
  have pl1: "parse_line c = Inr (LINE_OK, c1)"
    using parse_line_finds [of c pre ?h "crlf @ post"] a h room sz by (simp add: c1_def)
  have "text_at (length pre) (c1\<lparr>m_start_line := ?k + 2\<rparr>) = Inr ?h"
    using cstr_at_mid [of ?h pre "NUL # crlf @ post"] h(3) by (simp add: text_at_def c1_def)
  from negative_length_header [OF this] have it1: "read_iter fs LINE_OK c = Inr (None, LINE_OK, c2)"
    using pl1 a by (simp add: read_iter_def read_step_def Let_def get_line_def c1_def c2_def)
  define c3 where "c3 = c2\<lparr>m_read_buf := pre @ ?h @ [NUL, NUL, NUL, NUL] @ post, m_checked_index := ?k + 4\<rparr>"
  define c4 where "c4 = c3\<lparr>m_start_line := ?k + 4, m_check_state := CHECK_STATE_CONTENT\<rparr>"
  have pl2: "parse_line c2 = Inr (LINE_OK, c3)"
    using parse_line_finds [of c2 "pre @ ?h @ [NUL, NUL]" "[]" post] a room sz by (simp add: c1_def c2_def c3_def crlf_def)
  have "text_at (?k + 2) (c3\<lparr>m_start_line := ?k + 4\<rparr>) = Inr []"
    using cstr_at_mid [of "[]" "pre @ ?h @ [NUL, NUL]" "NUL # post"] by (simp add: text_at_def c3_def)
  moreover have "m_content_length c3 \<noteq> 0" using n by (simp add: c3_def c2_def READ_BUFFER_SIZE_def)
  ultimately have it2: "read_iter fs LINE_OK c2 = Inr (None, LINE_OK, c4)"
    using pl2 a by (simp add: read_iter_def read_step_def Let_def get_line_def parse_request_header_def c1_def c2_def c3_def c4_def)
  have idx: "int (m_read_index c) < int n" "?k + 4 \<le> m_read_index c" using n sz room by simp_all
  then have "put_NUL (int (?k + 4) + - int n) (c4\<lparr>m_start_line := ?k + 4\<rparr>) = Inl OutOfBounds" by (simp add: put_NUL_def)
  then have it3: "read_iter fs LINE_OK c4 = Inl OutOfBounds"
    using idx by (simp add: read_iter_def read_step_def Let_def get_line_def parse_request_content_def c1_def c2_def c3_def c4_def)
  show ?thesis
    by (simp add: process_read_loop_iter [of fs LINE_OK c] process_read_loop_iter [of fs LINE_OK c2]
        process_read_loop_iter [of fs LINE_OK c4] it1 it2 it3)
qed


text \<open>Parsing does not touch the output side of the connection.\<close>

definition output_side :: "http_conn \<Rightarrow> char list \<times> nat \<times> int \<times> int \<times> fd" where
  "output_side c = (m_write_buf c, m_write_index c, m_bytes_have_send c, m_bytes_to_send c, m_sockfd c)"

lemma output_side_upd [simp]:
  "output_side (c\<lparr>m_read_buf := x1\<rparr>) = output_side c" "output_side (c\<lparr>m_checked_index := x2\<rparr>) = output_side c"
  "output_side (c\<lparr>m_url := x3\<rparr>) = output_side c" "output_side (c\<lparr>m_method := x4\<rparr>) = output_side c"
  "output_side (c\<lparr>m_version := x5\<rparr>) = output_side c" "output_side (c\<lparr>m_check_state := x6\<rparr>) = output_side c"
  "output_side (c\<lparr>m_linger := x7\<rparr>) = output_side c" "output_side (c\<lparr>m_content_length := x8\<rparr>) = output_side c"
  "output_side (c\<lparr>m_host := x9\<rparr>) = output_side c" "output_side (c\<lparr>m_start_line := x10\<rparr>) = output_side c"
  "output_side (c\<lparr>m_real_file := x11\<rparr>) = output_side c" "output_side (c\<lparr>m_file_stat := x12\<rparr>) = output_side c"
  "output_side (c\<lparr>m_file_address := x13\<rparr>) = output_side c"
  by (simp_all add: output_side_def)

lemma put_NUL_output: "put_NUL i c = Inr c' \<Longrightarrow> output_side c' = output_side c"
  by (auto simp: put_NUL_def split: if_splits)

lemma cut_blank_output: "cut_blank p c = Inr (q, c') \<Longrightarrow> output_side c' = output_side c"
  by (auto simp: cut_blank_def then_do_Inr_iff split: option.splits dest: put_NUL_output)

lemma parse_line_output: "parse_line c = Inr (ls, c') \<Longrightarrow> output_side c' = output_side c"
proof (induction c rule: parse_line.induct)
  case (1 c)
  show ?case
  proof (cases "m_checked_index c < m_read_index c \<and> (\<exists>t. get_char (m_checked_index c) c = Inr t \<and> t \<noteq> CHR 0x0D \<and> t \<noteq> CHR 0x0A)")
    case True
    then obtain t where t: "m_checked_index c < m_read_index c" "get_char (m_checked_index c) c = Inr t"
      "t \<noteq> CHR 0x0D" "t \<noteq> CHR 0x0A" by blast
    with 1(2) have "parse_line (c\<lparr>m_checked_index := m_checked_index c + 1\<rparr>) = Inr (ls, c')"
      by (simp add: parse_line.simps [of c] Let_def)
    with 1(1) [OF refl t] show ?thesis by simp
  next
    case False
    with 1(2) show ?thesis
      by (auto simp: parse_line.simps [of c] Let_def then_do_Inr_iff end_line_def split: if_splits sum.splits dest!: put_NUL_output)
  qed
qed

lemma file_request_output: "output_side (snd (file_request fs path c)) = output_side c"
  by (simp add: file_request_def Let_def split: option.splits)

lemma do_request_output:
  assumes "do_request fs c = Inr (r, c')"
  shows "output_side c' = output_side c"
proof -
  from assms obtain path f where "file_request fs path (c\<lparr>m_real_file := f\<rparr>) = (r, c')"
    by (auto simp: do_request_def then_do_Inr_iff Let_def split: option.splits)
  with file_request_output [of fs path "c\<lparr>m_real_file := f\<rparr>"] show ?thesis by simp
qed

lemma parse_request_header_output: "parse_request_header p c = Inr (r, c') \<Longrightarrow> output_side c' = output_side c"
  by (auto simp: parse_request_header_def then_do_Inr_iff Let_def split: if_splits)

lemma parse_request_content_output: "parse_request_content p c = Inr (r, c') \<Longrightarrow> output_side c' = output_side c"
  by (auto simp: parse_request_content_def then_do_Inr_iff split: if_splits dest!: put_NUL_output)

lemma parse_request_line_output: "parse_request_line p c = Inr (r, c') \<Longrightarrow> output_side c' = output_side c"
  by (auto simp: parse_request_line_def then_do_Inr_iff Let_def split: option.splits if_splits prod.splits dest!: cut_blank_output)

lemma read_step_output: "read_step fs ls c = Inr (ret, ls2, c') \<Longrightarrow> output_side c' = output_side c"
  by (auto simp: read_step_def Let_def then_do_Inr_iff split: CHECK_STATE.splits if_splits prod.splits
      dest!: parse_request_line_output parse_request_header_output parse_request_content_output do_request_output)

lemma read_iter_output: "read_iter fs ls c = Inr (ret, ls2, c') \<Longrightarrow> output_side c' = output_side c"
  by (auto simp: read_iter_def then_do_Inr_iff split: if_splits prod.splits dest!: read_step_output parse_line_output)

text \<open>What no turn of the loop changes, the parser does not change.\<close>

lemma process_read_keeps:
  assumes "process_read fs c = Inr (r, c')"
    and turn: "\<And>ls d ret ls2 d2. read_iter fs ls d = Inr (ret, ls2, d2) \<Longrightarrow> f d2 = f d"
  shows "f c' = f c"
proof -
  have "process_read_loop fs ls d = Inr (r, c') \<Longrightarrow> f c' = f d" for ls d
  proof (induction "read_measure ls d" arbitrary: ls d rule: less_induct)
    case less
    from less.prems obtain ret ls2 c2 where it: "read_iter fs ls d = Inr (ret, ls2, c2)"
        "(case ret of Some r \<Rightarrow> Inr (r, c2) | None \<Rightarrow> process_read_loop fs ls2 c2) = Inr (r, c')"
      by (subst (asm) process_read_loop_iter) (auto simp: then_do_Inr_iff)
    with less.hyps [of ls2 c2] read_iter_decreases [of fs ls d] turn [OF it(1)] show ?case
      by (cases ret) auto
  qed
  with assms(1) show ?thesis by (simp add: process_read_def)
qed

lemmas process_read_output = process_read_keeps [where f = output_side, OF _ read_iter_output]

lemma request_understood:
  assumes "url_ok url" and "\<forall>h \<in> set hs. header_ok h" and "length (get_request url hs) + 5 < READ_BUFFER_SIZE"
    and "http_read [ReadData (get_request url hs)] (http_init c) = (ok, c1)"
  shows "\<exists>c2. ok \<and> process_read fs c1 = Inr (served fs url, c2) \<and> (m_linger c2 \<longleftrightarrow> (\<exists>h \<in> set hs. keep_alive h)) \<and>
    (served fs url = FILE_REQUEST \<longrightarrow>
       (\<exists>st content. fs (real_path url) = Some (st, content) \<and> m_file_stat c2 = st \<and>
          (\<forall>bytes. content = Some bytes \<and> 0 < st_size st \<longrightarrow> m_file_address c2 = Some (Mapped bytes))))"
proof -
  let ?rest = "header_lines hs @ crlf"
  have d: "get_request url hs = ''GET '' @ url @ '' HTTP/1.1'' @ crlf @ ?rest" by (simp add: get_request_def)
  have len: "length ''GET '' + length url + length '' HTTP/1.1'' + 2 + length ?rest + 5 < READ_BUFFER_SIZE"
    using assms(3) by (simp add: d crlf_def)
  have "get_request url hs \<noteq> []" by (simp add: get_request_def)
  with arrived_read [of "get_request url hs" c] assms(3,4) have c1: "ok" "c1 = arrived (get_request url hs) c" by auto
  obtain c2 where c2: "process_read fs c1 = process_read_loop fs LINE_OK c2"
      "at_header 4 url (''GET'' @ NUL # url @ NUL # ''HTTP/1.1'' @ [NUL, NUL])
         (?rest @ replicate (READ_BUFFER_SIZE - length (get_request url hs)) NUL) c2"
      "\<not> m_linger c2" "m_read_index c2 = length (get_request url hs)"
    using request_line_iter [OF assms(1) len, of fs c] unfolding c1(2) d by auto
  have room: "length (''GET'' @ NUL # url @ NUL # ''HTTP/1.1'' @ [NUL, NUL]) + length (header_lines hs) + 2 \<le> m_read_index c2"
    by (simp add: c2(4) get_request_def crlf_def)
  from at_header_loop [OF _ assms(2) room, of 4 url] c2(2) obtain c3 where
    c3: "process_read_loop fs LINE_OK c2 = do_request fs c3" "http_inv c3" "m_url c3 = Some 4" "text_at 4 c3 = Inr url"
      "m_linger c3 = (m_linger c2 \<or> (\<exists>h \<in> set hs. keep_alive h))" by fastforce
  from do_request_served [OF c3(2-4), of fs] c3(1,5) c2(1,3) c1(1) show ?thesis by auto
qed


section \<open>Properties\<close>

text \<open>
  A well-formed GET request is understood as sent. When the bytes of a request line with target
  \<open>url\<close>, header lines \<open>hs\<close> without a \<open>Content-Length\<close>, and the empty line have been read, the
  two state machines answer for the file at the root followed by the target (cut at 158 bytes):
  not found, bad request for a directory, or the file, mapped; and the connection is kept alive
  exactly if some header asks for it.
\<close>

theorem get_request_served:
  assumes "url_ok url" and "\<forall>h \<in> set hs. header_ok h" and "length (get_request url hs) + 5 < READ_BUFFER_SIZE"
    and "http_read [ReadData (get_request url hs)] (http_init c) = (ok, c1)"
  shows "\<exists>c2. ok \<and> process_read fs c1 = Inr (served fs url, c2) \<and> (m_linger c2 \<longleftrightarrow> (\<exists>h \<in> set hs. keep_alive h)) \<and>
    (served fs url = FILE_REQUEST \<longrightarrow>
       (\<exists>st content. fs (real_path url) = Some (st, content) \<and> m_file_stat c2 = st \<and>
          (\<forall>bytes. content = Some bytes \<and> 0 < st_size st \<longrightarrow> m_file_address c2 = Some (Mapped bytes))))"
  using assms by (rule request_understood)

text \<open>A request for \<open>/\<close> with one header, on a connection made by nobody in particular.\<close>

definition demo_http :: http_conn where
  "demo_http = http_init \<lparr>m_sockfd = 7, m_address = new_InetAddress 1 ''127.0.0.1'', m_read_buf = [], m_read_index = 0,
     m_url = None, m_version = None, m_method = GET, m_host = None, m_linger = False, m_content_length = 0,
     m_write_buf = [], m_write_index = 0, m_real_file = [], m_file_stat = \<lparr>st_mode = 0, st_size = 0\<rparr>,
     m_file_address = None, m_iv0 = \<lparr>iov_base = InWriteBuf 0, iov_len = 0\<rparr>, m_iv1 = \<lparr>iov_base = InFile 0, iov_len = 0\<rparr>,
     m_iv_count = 0, m_bytes_to_send = 0, m_bytes_have_send = 0, m_checked_index = 0, m_start_line = 0,
     m_check_state = CHECK_STATE_REQUESTLITE\<rparr>"

lemma demo_request:
  "url_ok ''/'' \<and> header_ok ''Connection: Keep-Alive'' \<and> keep_alive ''Connection: Keep-Alive'' \<and>
   length (get_request ''/'' [''Connection: Keep-Alive'']) = 42"
  by (simp add: url_ok_def line_ok_def header_ok_def keep_alive_def strncasecmp_def strspn_def blanks_def tolower_def
      get_request_def header_lines_def crlf_def)

theorem get_request_served_witness:
  "\<exists>c2. process_read (\<lambda>path. None) (arrived (get_request ''/'' [''Connection: Keep-Alive'']) demo_http) = Inr (NO_RESOURCE, c2) \<and>
     m_linger c2"
proof -
  let ?d = "get_request ''/'' [''Connection: Keep-Alive'']"
  have "http_read [ReadData ?d] (http_init demo_http) = (True, arrived ?d demo_http)"
    by (rule arrived_read) (use demo_request in \<open>auto simp: READ_BUFFER_SIZE_def\<close>)
  from get_request_served [OF _ _ _ this, of "\<lambda>path. None"] demo_request show ?thesis
    by (simp add: served_def READ_BUFFER_SIZE_def)
qed



text \<open>
  The permission test never fires: \<open>!(st_mode) & S_IROTH\<close> is zero for every mode, so no request
  is answered with \<open>FORBIDDEN_REQUEST\<close>, whatever the file's permissions are.
\<close>

theorem forbidden_never:
  assumes "do_request fs c = Inr (r, c')"
  shows "r \<noteq> FORBIDDEN_REQUEST"
proof -
  from assms obtain path c1 where "file_request fs path c1 = (r, c')"
    by (auto simp: do_request_def then_do_Inr_iff Let_def split: option.splits)
  with file_request_code [of fs path c1] show ?thesis by simp
qed

theorem forbidden_never_witness:
  "\<exists>r c'. do_request (\<lambda>path. Some (\<lparr>st_mode = 0x8000, st_size = 0\<rparr>, None)) (demo_http\<lparr>m_url := Some 0\<rparr>) = Inr (r, c') \<and>
     r \<noteq> FORBIDDEN_REQUEST"
proof -
  have inv: "http_inv demo_http" unfolding demo_http_def by (rule http_inv_init)
  have "m_check_state demo_http = CHECK_STATE_REQUESTLITE" by (simp add: demo_http_def http_init_def)
  with inv have "http_inv (demo_http\<lparr>m_url := Some 0, m_check_state := CHECK_STATE_HEADER\<rparr>)" by (simp add: http_inv_def)
  from text_at_ok [OF this, of 0] obtain s where "text_at 0 (demo_http\<lparr>m_url := Some 0\<rparr>) = Inr s" by (auto simp: text_at_def)
  moreover from inv have "http_inv (demo_http\<lparr>m_url := Some 0\<rparr>)" by (simp add: http_inv_def)
  ultimately show ?thesis
    using do_request_served [of "demo_http\<lparr>m_url := Some 0\<rparr>" 0 s "\<lambda>path. Some (\<lparr>st_mode = 0x8000, st_size = 0\<rparr>, None)"]
      forbidden_never by fastforce
qed




end
