(* ===== verification/Http_Fragments.thy ===== *)
theory Http_Fragments
  imports Http_Conn
begin

text \<open>
  Requests that arrive in pieces.  TCP delivers a request in any number of segments, and after each of
  them \<open>process_read\<close> is run on what has arrived so far.  As long as no body is announced, the parser can be
  stopped after any byte and resumed: what it makes of the pieces is what it makes of the whole.
\<close>

section \<open>Bytes that arrive later\<close>

text \<open>What a successful \<open>read()\<close> does to the connection.\<close>

definition arrives :: "string \<Rightarrow> http_conn \<Rightarrow> http_conn" where
  "arrives d c = c\<lparr>m_read_buf := write_at (m_read_index c) d (m_read_buf c), m_read_index := m_read_index c + length d\<rparr>"

lemma http_read_more:
  assumes "d \<noteq> []" and "m_read_index c + length d < READ_BUFFER_SIZE"
  shows "http_read [ReadData d] c = (True, arrives d c)"
  using assms by (simp add: http_read_def arrives_def Let_def)

lemma arrives_fields [simp]:
  "m_read_index (arrives d c) = m_read_index c + length d" "m_checked_index (arrives d c) = m_checked_index c"
  "m_start_line (arrives d c) = m_start_line c" "m_check_state (arrives d c) = m_check_state c" "m_url (arrives d c) = m_url c"
  "m_content_length (arrives d c) = m_content_length c" "m_real_file (arrives d c) = m_real_file c" "m_linger (arrives d c) = m_linger c"
  by (simp_all add: arrives_def)

lemma arrives_upd:
  "(arrives d c)\<lparr>m_checked_index := i\<rparr> = arrives d (c\<lparr>m_checked_index := i\<rparr>)"
  "(arrives d c)\<lparr>m_start_line := i\<rparr> = arrives d (c\<lparr>m_start_line := i\<rparr>)"
  "(arrives d c)\<lparr>m_url := u\<rparr> = arrives d (c\<lparr>m_url := u\<rparr>)" "(arrives d c)\<lparr>m_method := m\<rparr> = arrives d (c\<lparr>m_method := m\<rparr>)"
  "(arrives d c)\<lparr>m_version := v\<rparr> = arrives d (c\<lparr>m_version := v\<rparr>)" "(arrives d c)\<lparr>m_check_state := st\<rparr> = arrives d (c\<lparr>m_check_state := st\<rparr>)"
  "(arrives d c)\<lparr>m_linger := b\<rparr> = arrives d (c\<lparr>m_linger := b\<rparr>)" "(arrives d c)\<lparr>m_content_length := n\<rparr> = arrives d (c\<lparr>m_content_length := n\<rparr>)"
  "(arrives d c)\<lparr>m_real_file := f\<rparr> = arrives d (c\<lparr>m_real_file := f\<rparr>)" "(arrives d c)\<lparr>m_file_stat := s\<rparr> = arrives d (c\<lparr>m_file_stat := s\<rparr>)"
  "(arrives d c)\<lparr>m_file_address := a\<rparr> = arrives d (c\<lparr>m_file_address := a\<rparr>)" "(arrives d c)\<lparr>m_host := h\<rparr> = arrives d (c\<lparr>m_host := h\<rparr>)"
  by (simp_all add: arrives_def)

lemma arrives_Nil [simp]: "arrives [] c = c"
  by (simp add: arrives_def)

text \<open>There is room for \<open>d\<close>; the array has its size.\<close>

definition fits :: "string \<Rightarrow> http_conn \<Rightarrow> bool" where
  "fits d c \<longleftrightarrow> length (m_read_buf c) = READ_BUFFER_SIZE \<and> m_read_index c + length d \<le> READ_BUFFER_SIZE"

lemma fits_upd [simp]:
  "fits d (c\<lparr>m_checked_index := i\<rparr>) = fits d c" "fits d (c\<lparr>m_start_line := i\<rparr>) = fits d c" "fits d (c\<lparr>m_url := u\<rparr>) = fits d c"
  "fits d (c\<lparr>m_method := m\<rparr>) = fits d c" "fits d (c\<lparr>m_version := v\<rparr>) = fits d c"
  "fits d (c\<lparr>m_read_buf := (m_read_buf c)[k := x]\<rparr>) = fits d c" "fits d (c\<lparr>m_check_state := st\<rparr>) = fits d c"
  "fits d (c\<lparr>m_linger := b\<rparr>) = fits d c" "fits d (c\<lparr>m_content_length := n\<rparr>) = fits d c" "fits d (c\<lparr>m_host := h\<rparr>) = fits d c"
  by (simp_all add: fits_def)

lemma arrives_more:
  assumes "fits (d @ e) c"
  shows "arrives e (arrives d c) = arrives (d @ e) c"
  using assms by (simp add: arrives_def fits_def write_at_def ac_simps)

lemma nth_more: "fits d c \<Longrightarrow> i < m_read_index c \<Longrightarrow> m_read_buf (arrives d c) ! i = m_read_buf c ! i"
  by (simp add: arrives_def fits_def nth_write_at)

lemma get_char_more: "fits d c \<Longrightarrow> i < m_read_index c \<Longrightarrow> get_char i (arrives d c) = get_char i c"
  by (simp add: get_char_def nth_more)

lemma put_NUL_more:
  assumes "fits d c" and "i < int (m_read_index c)"
  shows "put_NUL i (arrives d c) = then_do (put_NUL i c) (\<lambda>c'. Inr (arrives d c'))"
proof (cases "0 \<le> i")
  case True
  have "nat i < m_read_index c" "nat i < length (m_read_buf c)" using assms True by (auto simp: fits_def)
  then have "(write_at (m_read_index c) d (m_read_buf c))[nat i := NUL] = write_at (m_read_index c) d ((m_read_buf c)[nat i := NUL])"
    by (simp add: write_at_def list_update_append take_update_swap)
  then show ?thesis by (simp add: put_NUL_def arrives_def)
qed (simp add: put_NUL_def)

lemma end_line_more:
  assumes "fits d c" and "i < m_read_index c" and "j < m_read_index c"
  shows "end_line i j (arrives d c) = then_do (end_line i j c) (\<lambda>(ls, c'). Inr (ls, arrives d c'))"
proof -
  have "put_NUL (int j) (arrives d c1) = then_do (put_NUL (int j) c1) (\<lambda>c'. Inr (arrives d c'))" if "put_NUL (int i) c = Inr c1" for c1
    using that assms by (intro put_NUL_more) (auto simp: put_NUL_def split: if_splits)
  then show ?thesis
    using put_NUL_more [OF assms(1), of "int i"] assms(2)
    by (auto simp: end_line_def arrives_upd split: sum.splits)
qed

lemma end_line_status: "end_line i j c = Inr (ls, c') \<Longrightarrow> ls = LINE_OK"
  by (auto simp: end_line_def split: sum.splits)

lemma parse_line_more:
  assumes "fits d c" and "parse_line c = Inr (ls, c1)"
  shows "parse_line (arrives d c) = (if ls = LINE_OPEN then parse_line (arrives d c1) else Inr (ls, arrives d c1))"
  using assms
proof (induction c rule: parse_line.induct)
  case (1 c)
  let ?i = "m_checked_index c"
  show ?case
  proof (cases "?i < m_read_index c")
    case False
    with "1.prems" show ?thesis by (simp add: parse_line.simps [of c])
  next
    case True
    have t: "get_char ?i c = Inr (m_read_buf c ! ?i)" using True "1.prems"(1) by (simp add: get_char_def fits_def)
    note same = get_char_more [OF "1.prems"(1)]
    show ?thesis
    proof (cases "m_read_buf c ! ?i = CHR 0x0D \<or> m_read_buf c ! ?i = CHR 0x0A")
      case False
      with "1.prems"(2) True t have "parse_line (c\<lparr>m_checked_index := ?i + 1\<rparr>) = Inr (ls, c1)"
        by (simp add: parse_line.simps [of c] Let_def)
      from "1.IH" [OF refl True t _ _ _ this] False "1.prems"(1)
      have "parse_line (arrives d (c\<lparr>m_checked_index := ?i + 1\<rparr>)) = (if ls = LINE_OPEN then parse_line (arrives d c1) else Inr (ls, arrives d c1))"
        by simp
      moreover have "parse_line (arrives d c) = parse_line (arrives d (c\<lparr>m_checked_index := ?i + 1\<rparr>))"
        using True t False same [OF True] by (simp add: parse_line.simps [of "arrives d c"] Let_def arrives_upd)
      ultimately show ?thesis by simp
    next
      case sep: True
      show ?thesis
      proof (cases "m_read_buf c ! ?i = CHR 0x0D \<and> ?i + 1 = m_read_index c")
        case True
        with "1.prems"(2) t show ?thesis by (simp add: parse_line.simps [of c] Let_def)
      next
        case whole: False
        show ?thesis
        proof (cases "m_read_buf c ! ?i = CHR 0x0D")
          case cr: True
          then have i: "?i + 1 < m_read_index c" using whole True by simp
          with "1.prems"(1) have n: "get_char (?i + 1) c = Inr (m_read_buf c ! (?i + 1))" by (simp add: get_char_def fits_def)
          show ?thesis
            using "1.prems"(2) cr True t i n same [OF True] same [OF i] end_line_more [OF "1.prems"(1) True i]
              end_line_status [of ?i "?i + 1" c ls c1]
            by (auto simp: parse_line.simps [of c] parse_line.simps [of "arrives d c"] Let_def split: if_splits)
        next
          case lf: False
          then have x: "m_read_buf c ! ?i = CHR 0x0A" using sep by simp
          have i: "?i - 1 < m_read_index c" using True by simp
          with "1.prems"(1) have n: "get_char (?i - 1) c = Inr (m_read_buf c ! (?i - 1))" by (simp add: get_char_def fits_def)
          show ?thesis
            using "1.prems"(2) x True t n same [OF True] same [OF i] end_line_more [OF "1.prems"(1) i True]
              end_line_status [of "?i - 1" ?i c ls c1]
            by (auto simp: parse_line.simps [of c] parse_line.simps [of "arrives d c"] Let_def split: if_splits)
        qed
      qed
    qed
  qed
qed

section \<open>Text that is complete\<close>

text \<open>From \<open>p\<close> on there is a terminator among the bytes before index \<open>n\<close>.\<close>

definition ends_before :: "nat \<Rightarrow> nat \<Rightarrow> http_conn \<Rightarrow> bool" where
  "ends_before n p c \<longleftrightarrow> (\<exists>j. p \<le> j \<and> j < n \<and> m_read_buf c ! j = NUL)"

lemma ends_before_upd [simp]:
  "ends_before n p (c\<lparr>m_checked_index := i\<rparr>) = ends_before n p c" "ends_before n p (c\<lparr>m_start_line := i\<rparr>) = ends_before n p c"
  "ends_before n p (c\<lparr>m_url := u\<rparr>) = ends_before n p c" "ends_before n p (c\<lparr>m_method := m\<rparr>) = ends_before n p c"
  "ends_before n p (c\<lparr>m_version := v\<rparr>) = ends_before n p c" "ends_before n p (c\<lparr>m_check_state := st\<rparr>) = ends_before n p c"
  "ends_before n p (c\<lparr>m_linger := b\<rparr>) = ends_before n p c" "ends_before n p (c\<lparr>m_content_length := k\<rparr>) = ends_before n p c"
  "ends_before n p (c\<lparr>m_host := h\<rparr>) = ends_before n p c" "ends_before n p (c\<lparr>m_real_file := f\<rparr>) = ends_before n p c"
  by (simp_all add: ends_before_def)

lemma nth_update_NUL: "xs ! j = NUL \<Longrightarrow> xs[k := NUL] ! j = NUL"
  by (cases "k < length xs"; cases "k = j") (auto simp: list_update_beyond)

lemma ends_before_NUL: "ends_before n p c \<Longrightarrow> ends_before n p (c\<lparr>m_read_buf := (m_read_buf c)[k := NUL]\<rparr>)"
  unfolding ends_before_def by (auto intro: nth_update_NUL)

lemma cstr_at_take:
  assumes "p \<le> j" and "j < length buf" and "buf ! j = NUL" and "take (j + 1) buf' = take (j + 1) buf" and "j < length buf'"
  shows "cstr_at buf' p = cstr_at buf p"
proof -
  have nul: "NUL \<in> set (drop p (take (j + 1) buf))"
    using assms(1-3) by (auto simp: in_set_conv_nth intro!: exI [of _ "j - p"])
  have cut: "drop p xs = drop p (take (j + 1) xs) @ drop (j + 1) xs" if "j < length xs" for xs :: "char list"
  proof -
    have "drop p (take (j + 1) xs @ drop (j + 1) xs) = drop p (take (j + 1) xs) @ drop (j + 1) xs"
      using assms(1) that by (subst drop_append) simp
    then show ?thesis by (simp only: append_take_drop_id)
  qed
  have "cstr_at xs p = Inr (takeWhile (\<lambda>c. c \<noteq> NUL) (drop p (take (j + 1) buf)))"
    if "j < length xs" "take (j + 1) xs = take (j + 1) buf" for xs
    unfolding cstr_at_def cut [OF that(1)] that(2) using nul takeWhile_append1 [OF nul, of "\<lambda>c. c \<noteq> NUL"] by simp
  with assms(2,4,5) show ?thesis by simp
qed

lemma text_at_more:
  assumes "fits d c" and "ends_before n p c" and "n \<le> m_read_index c"
  shows "text_at p (arrives d c) = text_at p c"
proof -
  from assms(2,3) obtain j where j: "p \<le> j" "j < m_read_index c" "m_read_buf c ! j = NUL" by (auto simp: ends_before_def)
  have "take (j + 1) (m_read_buf (arrives d c)) = take (j + 1) (m_read_buf c)"
    using assms(1) j(2) by (simp add: arrives_def fits_def)
  moreover have "j < length (m_read_buf c)" "j < length (m_read_buf (arrives d c))"
    using assms(1) j(2) by (simp_all add: arrives_def fits_def)
  ultimately show ?thesis unfolding text_at_def using j by (intro cstr_at_take) auto
qed

lemma text_at_length:
  assumes "fits d c" and "ends_before n p c" and "n \<le> m_read_index c" and "text_at p c = Inr s"
  shows "p + length s < n"
proof -
  from assms(2) obtain j where j: "p \<le> j" "j < n" "m_read_buf c ! j = NUL" by (auto simp: ends_before_def)
  with assms(1,3) have "j < length (m_read_buf c)" by (simp add: fits_def)
  with cstr_at_ok [OF j(1) _ j(3)] assms(4) j(2) show ?thesis by (auto simp: text_at_def)
qed

text \<open>A blank is cut out in front of the terminator.\<close>

lemma cut_blank_more:
  assumes "fits d c" and "ends_before n p c" and "n \<le> m_read_index c"
  shows "cut_blank p (arrives d c) = then_do (cut_blank p c) (\<lambda>(q, c'). Inr (q, arrives d c'))"
    and "cut_blank p c = Inr (q, c') \<Longrightarrow> fits d c' \<and> m_read_index c' = m_read_index c \<and> ends_before n p c' \<and>
      (\<forall>u. q = Some u \<longrightarrow> ends_before n u c')"
proof -
  have k: "p + k < n" if "text_at p c = Inr s" "strpbrk s blanks = Some k" for s k
    using text_at_length [OF assms that(1)] that(2) find_first_Some by (fastforce simp: strpbrk_def)
  show "cut_blank p (arrives d c) = then_do (cut_blank p c) (\<lambda>(q, c'). Inr (q, arrives d c'))"
  proof (cases "text_at p c")
    case (Inr s)
    show ?thesis
    proof (cases "strpbrk s blanks")
      case (Some j)
      have "int (p + j) < int (m_read_index c)" using k [OF Inr Some] assms(3) by simp
      from put_NUL_more [OF assms(1) this] Inr Some text_at_more [OF assms] show ?thesis
        by (cases "put_NUL (int (p + j)) c") (simp_all add: cut_blank_def del: of_nat_add)
    qed (use Inr text_at_more [OF assms] in \<open>simp add: cut_blank_def\<close>)
  qed (use text_at_more [OF assms] in \<open>simp add: cut_blank_def\<close>)
  assume r: "cut_blank p c = Inr (q, c')"
  then obtain s where s: "text_at p c = Inr s" by (auto simp: cut_blank_def then_do_Inr_iff)
  show "fits d c' \<and> m_read_index c' = m_read_index c \<and> ends_before n p c' \<and> (\<forall>u. q = Some u \<longrightarrow> ends_before n u c')"
  proof (cases "strpbrk s blanks")
    case None
    with r s assms show ?thesis by (simp add: cut_blank_def)
  next
    case (Some j)
    then have q: "q = Some (p + j + 1)" "c' = c\<lparr>m_read_buf := (m_read_buf c)[p + j := NUL]\<rparr>"
      using r s by (auto simp: cut_blank_def then_do_Inr_iff put_NUL_def nat_add_distrib split: if_splits)
    from assms(2) obtain i where i: "p \<le> i" "i < n" "m_read_buf c ! i = NUL" by (auto simp: ends_before_def)
    have "j < length s" using Some find_first_Some by (fastforce simp: strpbrk_def)
    moreover have "p + length s \<le> i"
      using cstr_at_ok [OF i(1) _ i(3)] i(2) assms(1,3) s by (auto simp: text_at_def fits_def)
    ultimately have "ends_before n (p + j + 1) c'"
      unfolding ends_before_def q(2) using i by (intro exI [of _ i]) (auto simp: nth_list_update)
    with q assms show ?thesis by (auto simp: ends_before_NUL)
  qed
qed

section \<open>The parsers on a complete line\<close>

lemma skip_scheme_inside: "skip_scheme u s = Some q \<Longrightarrow> u \<le> q \<and> q \<le> u + length s"
  using find_first_Some
  by (fastforce simp: skip_scheme_def strchr_def split: if_splits option.splits)

text \<open>The request line once both blanks have been looked for.\<close>

lemma parse_request_line_cut:
  assumes "cut_blank p e = Inr (Some u, e0)" and "cut_blank u (e0\<lparr>m_url := Some u, m_method := GET\<rparr>) = Inr (version, e2)"
    and "e3 = e2\<lparr>m_version := version\<rparr>"
  shows "parse_request_line p e =
    then_do (text_at p (e0\<lparr>m_url := Some u\<rparr>)) (\<lambda>meth.
      if strcasecmp meth ''GET'' = 0 then
        (case version of
           None \<Rightarrow> Inr (BAD_REQUEST, e3)
         | Some v \<Rightarrow>
             then_do (text_at v e3) (\<lambda>vs.
               if strcasecmp vs ''HTTP/1.1'' \<noteq> 0 then Inr (BAD_REQUEST, e3)
               else then_do (text_at u e3) (\<lambda>us.
                   case skip_scheme u us of
                     None \<Rightarrow> Inr (BAD_REQUEST, e3\<lparr>m_url := None\<rparr>)
                   | Some q \<Rightarrow>
                       then_do (get_char q (e3\<lparr>m_url := Some q\<rparr>)) (\<lambda>ch.
                         if ch \<noteq> CHR ''/'' then Inr (BAD_REQUEST, e3\<lparr>m_url := Some q\<rparr>)
                         else Inr (NO_REQUEST, e3\<lparr>m_url := Some q, m_check_state := CHECK_STATE_HEADER\<rparr>)))))
      else Inr (BAD_REQUEST, e0\<lparr>m_url := Some u\<rparr>))"
  using assms by (simp add: parse_request_line_def Let_def cong: option.case_cong if_cong)

lemma parse_request_line_more:
  assumes "fits d c" and "ends_before n p c" and "n \<le> m_read_index c"
  shows "parse_request_line p (arrives d c) = then_do (parse_request_line p c) (\<lambda>(r, c'). Inr (r, arrives d c'))"
proof (cases "cut_blank p c")
  case (Inl e)
  then show ?thesis using cut_blank_more(1) [OF assms] by (simp add: parse_request_line_def)
next
  case (Inr x)
  then obtain url c0 where c0: "cut_blank p c = Inr (url, c0)" by (cases x) simp
  note f0 = cut_blank_more(2) [OF assms c0]
  note cut = cut_blank_more(1) [OF assms, unfolded c0]
  show ?thesis
  proof (cases url)
    case None
    then show ?thesis using c0 cut by (simp add: parse_request_line_def Let_def arrives_upd)
  next
    case (Some u)
    define c2 where "c2 = c0\<lparr>m_url := Some u, m_method := GET\<rparr>"
    have f2: "fits d c2" "m_read_index c2 = m_read_index c" "ends_before n p c2" "ends_before n u c2"
      using f0 Some by (simp_all add: c2_def)
    have n: "n \<le> m_read_index c2" "n \<le> m_read_index (c0\<lparr>m_url := Some u\<rparr>)" using f0 assms(3) by (simp_all add: c2_def)
    have meth: "text_at p (arrives d (c0\<lparr>m_url := Some u\<rparr>)) = text_at p (c0\<lparr>m_url := Some u\<rparr>)"
      using f0 n(2) by (intro text_at_more [of d _ n]) simp_all
    note cut2 = cut_blank_more [OF f2(1,4) n(1)]
    show ?thesis
    proof (cases "cut_blank u c2")
      case (Inl e)
      then show ?thesis using c0 cut Some meth cut2(1)
        by (cases "text_at p (c0\<lparr>m_url := Some u\<rparr>)") (simp_all add: parse_request_line_def Let_def arrives_upd c2_def)
    next
      case (Inr y)
      then obtain version c2' where y: "cut_blank u c2 = Inr (version, c2')" by (cases y) simp
      define c3 where "c3 = c2'\<lparr>m_version := version\<rparr>"
      note f3 = cut2(2) [OF y]
      have n3: "n \<le> m_read_index c3" "fits d c3" "ends_before n u c3" using f3 n(1) by (simp_all add: c3_def)
      have vs: "text_at v (arrives d c3) = text_at v c3" if "version = Some v" for v
        using f3 that n3 by (intro text_at_more [of d _ n]) (simp_all add: c3_def)
      have us: "text_at u (arrives d c3) = text_at u c3" using n3 by (intro text_at_more [of d _ n])
      have q: "get_char q (arrives d (c3\<lparr>m_url := z\<rparr>)) = get_char q (c3\<lparr>m_url := z\<rparr>)"
        if "text_at u c3 = Inr s" "skip_scheme u s = Some q" for s q z
      proof -
        have "q < m_read_index c3" using text_at_length [OF n3(2,3,1) that(1)] skip_scheme_inside [OF that(2)] n3(1) by simp
        then show ?thesis using n3(2) by (intro get_char_more) simp_all
      qed
      from cut2(1) y have cut2': "cut_blank u (arrives d c2) = Inr (version, arrives d c2')" by simp
      show ?thesis
        using parse_request_line_cut [of p c u c0 version c2' c3]
          parse_request_line_cut [of p "arrives d c" u "arrives d c0" version "arrives d c2'" "arrives d c3"]
          c0 cut Some y cut2' meth vs us q
        by (auto simp: c2_def c3_def arrives_upd then_do_def split: option.splits sum.splits if_splits)
    qed
  qed
qed

lemma cut_blank_state: "cut_blank p c = Inr (q, c') \<Longrightarrow> m_check_state c' = m_check_state c"
  by (auto simp: cut_blank_def then_do_Inr_iff split: option.splits dest: put_NUL_frame)

lemma parse_request_line_url:
  assumes "fits d c" and "ends_before n p c" and "n \<le> m_read_index c" and r: "parse_request_line p c = Inr (r, c')"
  shows "fits d c' \<and> m_read_index c' = m_read_index c \<and>
    (if r = NO_REQUEST then m_check_state c' = CHECK_STATE_HEADER \<and> (\<exists>u. m_url c' = Some u \<and> ends_before n u c')
     else m_check_state c' = m_check_state c)"
proof -
  from r obtain url c0 where c0: "cut_blank p c = Inr (url, c0)" by (auto simp: parse_request_line_def then_do_Inr_iff)
  note f0 = cut_blank_more(2) [OF assms(1-3) c0]
  have s0: "m_check_state c0 = m_check_state c" using cut_blank_state [OF c0] .
  show ?thesis
  proof (cases url)
    case None
    with r c0 f0 s0 show ?thesis by (auto simp: parse_request_line_def Let_def)
  next
    case (Some u)
    let ?c2 = "c0\<lparr>m_url := Some u, m_method := GET\<rparr>"
    have f2: "fits d ?c2" "ends_before n u ?c2" "n \<le> m_read_index ?c2" using f0 Some assms(3) by simp_all
    show ?thesis
    proof (cases "cut_blank u ?c2")
      case (Inl e)
      with r c0 Some f0 s0 show ?thesis
        by (auto simp: parse_request_line_def Let_def then_do_Inr_iff split: if_splits)
    next
      case (Inr x)
      then obtain v c2 where v: "cut_blank u ?c2 = Inr (v, c2)" by (cases x) simp
      note f3 = cut_blank_more(2) [OF f2 v]
      define c3 where "c3 = c2\<lparr>m_version := v\<rparr>"
      have f: "fits d c3" "m_read_index c3 = m_read_index c" "m_check_state c3 = m_check_state c" "ends_before n u c3"
        using f0 f3 cut_blank_state [OF v] s0 by (simp_all add: c3_def)
      have q: "ends_before n q c3" if "text_at u c3 = Inr us" "skip_scheme u us = Some q" for us q
      proof -
        from f(4) obtain j where j: "u \<le> j" "j < n" "m_read_buf c3 ! j = NUL" by (auto simp: ends_before_def)
        then have "u + length us \<le> j"
          using cstr_at_ok [OF j(1) _ j(3)] f(1,2) assms(3) that(1) by (auto simp: text_at_def fits_def)
        with j skip_scheme_inside [OF that(2)] show ?thesis unfolding ends_before_def by (intro exI [of _ j]) auto
      qed
      have c0': "cut_blank p c = Inr (Some u, c0)" using c0 Some by simp
      from r [unfolded parse_request_line_cut [OF c0' v c3_def]] f0 f s0 q show ?thesis
        by (auto simp: then_do_Inr_iff split: if_splits option.splits)
    qed
  qed
qed

lemma parse_request_header_more:
  assumes "fits d c" and "ends_before n p c" and "n \<le> m_read_index c" and "http_inv (arrives d c)" and "p + 5 < READ_BUFFER_SIZE"
    and "parse_request_header p c = Inr (r, c')"
  shows "\<exists>h. parse_request_header p (arrives d c) = Inr (r, (arrives d c')\<lparr>m_host := h\<rparr>)"
proof -
  obtain t where t: "text_at (p + 5) (arrives d c) = Inr t" using text_at_ok [OF assms(4,5)] by blast
  have host: "arrives d x = (arrives d x)\<lparr>m_host := m_host (arrives d x)\<rparr>" for x by simp
  show ?thesis
  proof (cases "\<exists>s. text_at p c = Inr s \<and> s \<noteq> [] \<and> strncasecmp s ''Connection:'' 11 \<noteq> 0 \<and> strncasecmp s ''Content-Length:'' 15 \<noteq> 0 \<and>
      strncasecmp s ''Host:'' 5 = 5")
    case True
    then obtain s where s: "text_at p c = Inr s" "s \<noteq> []" "strncasecmp s ''Connection:'' 11 \<noteq> 0" "strncasecmp s ''Content-Length:'' 15 \<noteq> 0"
        "strncasecmp s ''Host:'' 5 = 5" by blast
    from assms(6) s obtain k where "r = NO_REQUEST" "c' = c\<lparr>m_host := k\<rparr>"
      by (auto simp: parse_request_header_def then_do_Inr_iff)
    then show ?thesis using s t text_at_more [OF assms(1-3)]
      by (intro exI [of _ "Some (p + 5 + strspn t blanks)"]) (simp add: parse_request_header_def arrives_upd)
  next
    case False
    from assms(6) obtain s where s: "text_at p c = Inr s" by (auto simp: parse_request_header_def then_do_Inr_iff)
    with text_at_more [OF assms(1-3)] have s': "text_at p (arrives d c) = Inr s" by simp
    from False s have "s = [] \<or> strncasecmp s ''Connection:'' 11 = 0 \<or> strncasecmp s ''Content-Length:'' 15 = 0 \<or> strncasecmp s ''Host:'' 5 \<noteq> 5"
      by blast
    then have "parse_request_header p (arrives d c) = then_do (parse_request_header p c) (\<lambda>(r, c'). Inr (r, arrives d c'))"
      unfolding parse_request_header_def s s' by (elim disjE) (simp_all add: Let_def arrives_upd)
    with assms(6) have "parse_request_header p (arrives d c) = Inr (r, arrives d c')" by simp
    then show ?thesis using host by metis
  qed
qed

lemma do_request_more:
  assumes "fits d c" and "ends_before n u c" and "n \<le> m_read_index c" and "m_url c = Some u"
  shows "do_request fs (arrives d c) = then_do (do_request fs c) (\<lambda>(r, c'). Inr (r, arrives d c'))"
proof -
  have "file_request fs path (arrives d x) = (case file_request fs path x of (r, c') \<Rightarrow> (r, arrives d c'))" for path x
    by (auto simp: file_request_def Let_def arrives_upd split: option.splits)
  then show ?thesis
    using text_at_more [OF assms(1-3)] assms(4)
    by (auto simp: do_request_def Let_def arrives_upd then_do_def split: sum.splits prod.splits)
qed

section \<open>What nothing depends on\<close>

text \<open>
  \<open>m_host\<close> is written and never read.  (Behind a header shorter than five bytes it is even taken from the bytes
  behind the line, the only thing about the parser that sees what has not been parsed yet.)
\<close>

definition with_host :: "nat option \<Rightarrow> http_conn \<Rightarrow> http_conn" where
  "with_host h c = c\<lparr>m_host := h\<rparr>"

lemma with_host_fields [simp]:
  "m_read_index (with_host h c) = m_read_index c" "m_checked_index (with_host h c) = m_checked_index c"
  "m_start_line (with_host h c) = m_start_line c" "m_check_state (with_host h c) = m_check_state c"
  "m_url (with_host h c) = m_url c" "m_content_length (with_host h c) = m_content_length c" "m_read_buf (with_host h c) = m_read_buf c"
  "m_real_file (with_host h c) = m_real_file c" "m_linger (with_host h c) = m_linger c"
  "with_host h (with_host k c) = with_host h c" "with_host (m_host c) c = c"
  by (simp_all add: with_host_def)

lemma with_host_self [simp]: "\<exists>k. c = with_host k c"
  by (rule exI [of _ "m_host c"]) simp

lemma with_host_upd:
  "(with_host h c)\<lparr>m_checked_index := i\<rparr> = with_host h (c\<lparr>m_checked_index := i\<rparr>)"
  "(with_host h c)\<lparr>m_start_line := i\<rparr> = with_host h (c\<lparr>m_start_line := i\<rparr>)"
  "(with_host h c)\<lparr>m_url := u\<rparr> = with_host h (c\<lparr>m_url := u\<rparr>)" "(with_host h c)\<lparr>m_method := m\<rparr> = with_host h (c\<lparr>m_method := m\<rparr>)"
  "(with_host h c)\<lparr>m_version := v\<rparr> = with_host h (c\<lparr>m_version := v\<rparr>)"
  "(with_host h c)\<lparr>m_check_state := st\<rparr> = with_host h (c\<lparr>m_check_state := st\<rparr>)"
  "(with_host h c)\<lparr>m_linger := b\<rparr> = with_host h (c\<lparr>m_linger := b\<rparr>)"
  "(with_host h c)\<lparr>m_content_length := n\<rparr> = with_host h (c\<lparr>m_content_length := n\<rparr>)"
  "(with_host h c)\<lparr>m_real_file := f\<rparr> = with_host h (c\<lparr>m_real_file := f\<rparr>)"
  "(with_host h c)\<lparr>m_file_stat := s\<rparr> = with_host h (c\<lparr>m_file_stat := s\<rparr>)"
  "(with_host h c)\<lparr>m_file_address := a\<rparr> = with_host h (c\<lparr>m_file_address := a\<rparr>)"
  "(with_host h c)\<lparr>m_read_buf := b'\<rparr> = with_host h (c\<lparr>m_read_buf := b'\<rparr>)"
  "(with_host h c)\<lparr>m_host := k\<rparr> = with_host k c"
  by (simp_all add: with_host_def)

lemma get_char_host [simp]: "get_char i (with_host h c) = get_char i c"
  by (simp add: get_char_def)

lemma text_at_host [simp]: "text_at p (with_host h c) = text_at p c"
  by (simp add: text_at_def)

lemma put_NUL_host: "put_NUL i (with_host h c) = then_do (put_NUL i c) (\<lambda>c'. Inr (with_host h c'))"
  by (simp add: put_NUL_def with_host_upd)

lemma end_line_host: "end_line i j (with_host h c) = then_do (end_line i j c) (\<lambda>(ls, c'). Inr (ls, with_host h c'))"
  by (simp add: end_line_def put_NUL_def with_host_upd)

lemma parse_line_host: "parse_line (with_host h c) = then_do (parse_line c) (\<lambda>(ls, c'). Inr (ls, with_host h c'))"
proof (induction c rule: parse_line.induct)
  case (1 c)
  let ?i = "m_checked_index c"
  show ?case
  proof (cases "?i < m_read_index c \<and> (\<exists>t. get_char ?i c = Inr t \<and> t \<noteq> CHR 0x0D \<and> t \<noteq> CHR 0x0A)")
    case True
    then obtain t where t: "?i < m_read_index c" "get_char ?i c = Inr t" "t \<noteq> CHR 0x0D" "t \<noteq> CHR 0x0A" by blast
    with "1.IH" [OF refl t] show ?thesis
      by (simp add: parse_line.simps [of c] parse_line.simps [of "with_host h c"] Let_def with_host_upd)
  next
    case False
    then show ?thesis
      by (cases "get_char ?i c"; cases "get_char (?i + 1) c"; cases "get_char (?i - 1) c")
        (auto simp: parse_line.simps [of c] parse_line.simps [of "with_host h c"] Let_def end_line_host)
  qed
qed

lemma cut_blank_host: "cut_blank p (with_host h c) = then_do (cut_blank p c) (\<lambda>(q, c'). Inr (q, with_host h c'))"
  by (cases "text_at p c") (auto simp: cut_blank_def put_NUL_def with_host_upd split: option.splits)

lemma parse_request_line_host:
  "parse_request_line p (with_host h c) = then_do (parse_request_line p c) (\<lambda>(r, c'). Inr (r, with_host h c'))"
proof (cases "cut_blank p c")
  case (Inr x)
  then obtain url c0 where c0: "cut_blank p c = Inr (url, c0)" by (cases x) simp
  then have c0': "cut_blank p (with_host h c) = Inr (url, with_host h c0)" by (simp add: cut_blank_host)
  show ?thesis
  proof (cases url)
    case (Some u)
    let ?c2 = "c0\<lparr>m_url := Some u, m_method := GET\<rparr>"
    have cut: "cut_blank u ((with_host h c0)\<lparr>m_url := Some u, m_method := GET\<rparr>) = then_do (cut_blank u ?c2) (\<lambda>(q, c'). Inr (q, with_host h c'))"
      by (simp add: cut_blank_host with_host_upd)
    show ?thesis
    proof (cases "cut_blank u ?c2")
      case (Inl e)
      with c0 c0' Some cut show ?thesis
        by (cases "text_at p (c0\<lparr>m_url := Some u\<rparr>)") (simp_all add: parse_request_line_def Let_def with_host_upd)
    next
      case (Inr y)
      then obtain v c2 where v: "cut_blank u ?c2 = Inr (v, c2)" by (cases y) simp
      with cut have v': "cut_blank u ((with_host h c0)\<lparr>m_url := Some u, m_method := GET\<rparr>) = Inr (v, with_host h c2)" by simp
      note c = parse_request_line_cut [OF c0 [unfolded Some] v refl] parse_request_line_cut [OF c0' [unfolded Some] v' refl]
      show ?thesis unfolding c by (auto simp: with_host_upd then_do_def split: option.splits sum.splits)
    qed
  qed (use c0 c0' in \<open>simp add: parse_request_line_def Let_def with_host_upd\<close>)
qed (simp add: parse_request_line_def cut_blank_host)

lemma parse_request_header_host:
  "parse_request_header p c = Inr (r, c') \<Longrightarrow> \<exists>k. parse_request_header p (with_host h c) = Inr (r, with_host k c')"
proof -
  assume r: "parse_request_header p c = Inr (r, c')"
  then obtain s where s: "text_at p c = Inr s" by (auto simp: parse_request_header_def then_do_Inr_iff)
  show ?thesis
  proof (cases "s \<noteq> [] \<and> strncasecmp s ''Connection:'' 11 \<noteq> 0 \<and> strncasecmp s ''Content-Length:'' 15 \<noteq> 0 \<and> strncasecmp s ''Host:'' 5 = 5")
    case True
    with r s show ?thesis
      by (intro exI [of _ "m_host c'"]) (auto simp: parse_request_header_def then_do_Inr_iff with_host_upd, auto simp: with_host_def)
  next
    case False
    then have "parse_request_header p (with_host h c) = then_do (parse_request_header p c) (\<lambda>(r, c'). Inr (r, with_host h c'))"
      unfolding parse_request_header_def by (auto simp: s Let_def with_host_upd)
    with r show ?thesis by auto
  qed
qed

lemma do_request_host: "do_request fs (with_host h c) = then_do (do_request fs c) (\<lambda>(r, c'). Inr (r, with_host h c'))"
proof -
  have "file_request fs path (with_host h x) = (case file_request fs path x of (r, c') \<Rightarrow> (r, with_host h c'))" for path x
    by (auto simp: file_request_def Let_def with_host_upd split: option.splits)
  then show ?thesis
    by (auto simp: do_request_def Let_def with_host_upd then_do_def split: sum.splits prod.splits option.splits)
qed

lemma read_step_host:
  assumes "read_step fs ls c = Inr (ret, ls2, c2)"
  shows "\<exists>k. read_step fs ls (with_host h c) = Inr (ret, ls2, with_host k c2)"
proof -
  let ?c1 = "c\<lparr>m_start_line := m_checked_index c\<rparr>" and ?p = "get_line c"
  have p: "get_line (with_host h c) = ?p" by (simp add: get_line_def)
  show ?thesis
  proof (cases "m_check_state c")
    case CHECK_STATE_REQUESTLITE
    with assms show ?thesis
      by (intro exI [of _ h])
        (auto simp: read_step_def Let_def p then_do_Inr_iff with_host_upd parse_request_line_host split: prod.splits)
  next
    case CHECK_STATE_HEADER
    with assms obtain r c3 where r: "parse_request_header ?p ?c1 = Inr (r, c3)"
      by (auto simp: read_step_def Let_def then_do_Inr_iff)
    from parse_request_header_host [OF r, of h] obtain k where
      k: "parse_request_header ?p (with_host h ?c1) = Inr (r, with_host k c3)" by blast
    from assms CHECK_STATE_HEADER r k show ?thesis
      by (auto simp: read_step_def Let_def p then_do_Inr_iff with_host_upd do_request_host split: prod.splits if_splits)
  next
    case CHECK_STATE_CONTENT
    have "parse_request_content ?p (with_host h ?c1) = then_do (parse_request_content ?p ?c1) (\<lambda>(r, c'). Inr (r, with_host h c'))"
      by (simp add: parse_request_content_def put_NUL_host)
        (cases "put_NUL (int ?p + m_content_length c) ?c1"; simp)
    with assms CHECK_STATE_CONTENT show ?thesis
      by (auto simp: read_step_def Let_def p then_do_Inr_iff with_host_upd do_request_host split: prod.splits if_splits)
  qed
qed

lemma process_read_loop_host:
  assumes "process_read_loop fs ls c = Inr (r, c1)"
  shows "\<exists>k. process_read_loop fs ls (with_host h c) = Inr (r, with_host k c1)"
  using assms
proof (induction "read_measure ls c" arbitrary: ls c h rule: less_induct)
  case less
  from less.prems obtain ret ls2 c2 where it: "read_iter fs ls c = Inr (ret, ls2, c2)"
    by (auto simp: process_read_loop_iter [of fs ls c] then_do_Inr_iff)
  have "\<exists>k. read_iter fs ls (with_host h c) = Inr (ret, ls2, with_host k c2)"
  proof (cases "m_check_state c = CHECK_STATE_CONTENT \<and> ls = LINE_OK")
    case True
    with it read_step_host [of fs LINE_OK c ret ls2 c2 h] show ?thesis by (simp add: read_iter_def)
  next
    case False
    with it obtain ls1 c1 where c1: "parse_line c = Inr (ls1, c1)" by (auto simp: read_iter_def then_do_Inr_iff)
    have "read_iter fs ls c = (if ls1 = LINE_OK then read_step fs ls1 c1 else Inr (Some NO_REQUEST, ls1, c1))"
      "read_iter fs ls (with_host h c) = (if ls1 = LINE_OK then read_step fs ls1 (with_host h c1) else Inr (Some NO_REQUEST, ls1, with_host h c1))"
      using False c1 by (auto simp: read_iter_def parse_line_host)
    with it read_step_host [of fs LINE_OK c1 ret ls2 c2 h] show ?thesis by (cases "ls1 = LINE_OK") auto
  qed
  then obtain k where k: "read_iter fs ls (with_host h c) = Inr (ret, ls2, with_host k c2)" by blast
  show ?case
  proof (cases ret)
    case (Some x)
    with less.prems it k show ?thesis by (simp add: process_read_loop_iter [of fs ls c] process_read_loop_iter [of fs ls "with_host h c"]) blast
  next
    case None
    with it have "read_measure ls2 c2 < read_measure ls c" by (blast intro: read_iter_decreases)
    moreover have "process_read_loop fs ls2 c2 = Inr (r, c1)" using less.prems it None by (simp add: process_read_loop_iter [of fs ls c])
    ultimately show ?thesis using less.hyps [of ls2 c2 k] k None by (simp add: process_read_loop_iter [of fs ls "with_host h c"])
  qed
qed


section \<open>Stopping and going on\<close>

text \<open>Behind the request line the target ends within the part that has been looked at.\<close>

definition target_ends :: "http_conn \<Rightarrow> bool" where
  "target_ends c \<longleftrightarrow> (m_check_state c \<noteq> CHECK_STATE_REQUESTLITE \<longrightarrow>
     (\<exists>u. m_url c = Some u \<and> ends_before (m_checked_index c) u c))"

lemma parse_line_shape:
  assumes "parse_line c = Inr (ls, c1)"
  shows "\<exists>k b. c1 = c\<lparr>m_checked_index := k, m_read_buf := b\<rparr> \<and> m_checked_index c \<le> k \<and> length b = length (m_read_buf c) \<and>
    (\<forall>j. m_read_buf c ! j = NUL \<longrightarrow> b ! j = NUL) \<and>
    (ls = LINE_OK \<longrightarrow> m_checked_index c < k \<and> k \<le> m_read_index c \<and> (k \<le> length b \<longrightarrow> b ! (k - 1) = NUL))"
  using assms
proof (induction c rule: parse_line.induct)
  case (1 c)
  let ?i = "m_checked_index c"
  show ?case
  proof (cases "?i < m_read_index c \<and> (\<exists>t. get_char ?i c = Inr t \<and> t \<noteq> CHR 0x0D \<and> t \<noteq> CHR 0x0A)")
    case True
    then obtain t where t: "?i < m_read_index c" "get_char ?i c = Inr t" "t \<noteq> CHR 0x0D" "t \<noteq> CHR 0x0A" by blast
    with "1.prems" have "parse_line (c\<lparr>m_checked_index := ?i + 1\<rparr>) = Inr (ls, c1)" by (simp add: parse_line.simps [of c] Let_def)
    from "1.IH" [OF refl t this] show ?thesis by fastforce
  next
    case False
    have same: "c = c\<lparr>m_checked_index := ?i, m_read_buf := m_read_buf c\<rparr>" by simp
    have ended: ?thesis if "end_line i j c = Inr (ls, c1)" "?i \<le> j" "j < m_read_index c" for i j
    proof -
      from that(1) have "c1 = c\<lparr>m_checked_index := j + 1, m_read_buf := (m_read_buf c)[i := NUL, j := NUL]\<rparr>"
        by (auto simp: end_line_def put_NUL_def split: sum.splits if_splits)
      moreover have "(m_read_buf c)[i := NUL, j := NUL] ! l = NUL" if "m_read_buf c ! l = NUL" for l
        using that by (intro nth_update_NUL)
      ultimately show ?thesis using that(2,3) by (intro exI [of _ "j + 1"] exI [of _ "(m_read_buf c)[i := NUL, j := NUL]"]) auto
    qed
    have stay: ?thesis if "c1 = c" "ls \<noteq> LINE_OK" using same that by fastforce
    from "1.prems" False have "c1 = c \<and> ls \<noteq> LINE_OK \<or> end_line ?i (?i + 1) c = Inr (ls, c1) \<and> ?i + 1 < m_read_index c \<or>
        end_line (?i - 1) ?i c = Inr (ls, c1) \<and> ?i < m_read_index c"
      by (auto simp: parse_line.simps [of c] Let_def then_do_Inr_iff split: if_splits)
    then show ?thesis using stay ended [of ?i "?i + 1"] ended [of "?i - 1" ?i] by auto
  qed
qed

lemma http_inv_arrives: "http_inv c \<Longrightarrow> m_read_index c + length d < READ_BUFFER_SIZE \<Longrightarrow> http_inv (arrives d c)"
  by (auto simp: http_inv_def arrives_def nth_write_at)

lemma http_inv_fits: "http_inv c \<Longrightarrow> m_read_index c + length d < READ_BUFFER_SIZE \<Longrightarrow> fits d c"
  by (simp add: http_inv_def fits_def)

lemma parse_request_header_keeps:
  "parse_request_header p c = Inr (r, c') \<Longrightarrow> m_url c' = m_url c \<and> m_read_buf c' = m_read_buf c \<and> r \<in> {NO_REQUEST, GET_REQUEST} \<and>
     m_check_state c' \<in> {m_check_state c, CHECK_STATE_CONTENT}"
  by (auto simp: parse_request_header_def then_do_Inr_iff Let_def split: if_splits)

lemma file_request_changes: "\<exists>st a. snd (file_request fs path c) = c\<lparr>m_file_stat := st, m_file_address := a\<rparr>"
proof (cases "fs path")
  case None
  then show ?thesis by (intro exI [of _ "m_file_stat c"] exI [of _ "m_file_address c"]) (simp add: file_request_def)
next
  case (Some x)
  obtain st content where x: "x = (st, content)" by (cases x)
  show ?thesis
  proof (cases "S_ISDIR (st_mode st)")
    case True
    with Some x show ?thesis
      by (intro exI [of _ st] exI [of _ "m_file_address c"]) (simp add: file_request_def Let_def)
  next
    case False
    with Some x show ?thesis by (simp add: file_request_def Let_def) blast
  qed
qed

lemma do_request_changes:
  assumes "do_request fs c = Inr (r, c')"
  shows "r \<noteq> NO_REQUEST \<and> (\<exists>f st a. c' = c\<lparr>m_real_file := f, m_file_stat := st, m_file_address := a\<rparr>)"
proof -
  from assms obtain path f where "file_request fs path (c\<lparr>m_real_file := f\<rparr>) = (r, c')"
    by (auto simp: do_request_def Let_def then_do_Inr_iff split: option.splits)
  moreover from this file_request_changes [of fs path "c\<lparr>m_real_file := f\<rparr>"] obtain st a where
    "c' = c\<lparr>m_real_file := f, m_file_stat := st, m_file_address := a\<rparr>" by auto
  moreover have "fst (file_request fs path x) \<noteq> NO_REQUEST" for x
    by (simp add: file_request_def Let_def split: option.splits)
  ultimately show ?thesis by (metis fst_conv)
qed

lemma read_step_more:
  assumes inv: "http_inv c" and room: "m_read_index c + length d + 5 < READ_BUFFER_SIZE"
    and ends: "ends_before (m_checked_index c) (m_start_line c) c" and tgt: "target_ends c"
    and st: "m_check_state c \<noteq> CHECK_STATE_CONTENT" and step: "read_step fs LINE_OK c = Inr (ret, ls2, c2)"
  shows "(\<exists>k. read_step fs LINE_OK (arrives d c) = Inr (ret, ls2, with_host k (arrives d c2))) \<and> ret \<noteq> Some NO_REQUEST \<and>
    http_inv c2 \<and> (ret = None \<longrightarrow> ls2 = LINE_OK \<and> target_ends c2)"
proof -
  let ?c1 = "c\<lparr>m_start_line := m_checked_index c\<rparr>" and ?p = "m_start_line c" and ?n = "m_checked_index c"
  have inv1: "http_inv ?c1" using inv by (simp add: http_inv_def)
  have fits: "fits d ?c1" using http_inv_fits [OF inv, of d] room by simp
  have n: "?n \<le> m_read_index ?c1" and ends1: "ends_before ?n ?p ?c1" using inv ends by (simp_all add: http_inv_def)
  have p5: "?p + 5 < READ_BUFFER_SIZE" using http_inv_sizes(3,4) [OF inv] room by simp
  show ?thesis
  proof (cases "m_check_state c")
    case CHECK_STATE_REQUESTLITE
    with step obtain r where r: "parse_request_line ?p ?c1 = Inr (r, c2)" "ret = (if r = BAD_REQUEST then Some BAD_REQUEST else None)"
        "ls2 = LINE_OK"
      by (auto simp: read_step_def Let_def get_line_def then_do_Inr_iff split: prod.splits)
    have "parse_request_line ?p (arrives d ?c1) = Inr (r, arrives d c2)"
      using parse_request_line_more [OF fits ends1 n] r(1) by simp
    then have "read_step fs LINE_OK (arrives d c) = Inr (ret, ls2, with_host (m_host (arrives d c2)) (arrives d c2))"
      using CHECK_STATE_REQUESTLITE r(2,3) by (simp add: read_step_def Let_def get_line_def arrives_upd)
    moreover have "http_inv c2" using parse_request_line_inv [OF inv1, of ?p] p5 CHECK_STATE_REQUESTLITE r(1) by simp
    moreover have "target_ends c2"
      using parse_request_line_url [OF fits ends1 n r(1)] parse_request_line_frame [OF r(1)] CHECK_STATE_REQUESTLITE
      by (auto simp: target_ends_def split: if_splits)
    ultimately show ?thesis using r(2,3) by (intro conjI exI [of _ "m_host (arrives d c2)"]) (auto split: if_splits)
  next
    case CHECK_STATE_HEADER
    then have st1: "m_check_state ?c1 = CHECK_STATE_HEADER" by simp
    obtain r c3 where r: "parse_request_header ?p ?c1 = Inr (r, c3)" "http_inv c3" "m_check_state c3 \<noteq> CHECK_STATE_REQUESTLITE"
      using parse_request_header_inv [OF inv1 p5 st1] by blast
    note keep = parse_request_header_keeps [OF r(1)] parse_request_header_frame [OF r(1)]
    have "http_inv (arrives d ?c1)" using room by (intro http_inv_arrives [OF inv1]) simp
    from parse_request_header_more [OF fits ends1 n this p5 r(1)] obtain k where
      k: "parse_request_header ?p (arrives d ?c1) = Inr (r, with_host k (arrives d c3))" by (auto simp: with_host_def)
    have tgt3: "target_ends c3" and url: "\<exists>u. m_url c3 = Some u \<and> ends_before ?n u c3"
      using tgt keep CHECK_STATE_HEADER by (auto simp: target_ends_def ends_before_def)
    show ?thesis
    proof (cases "r = GET_REQUEST")
      case True
      from step CHECK_STATE_HEADER r(1) True obtain code where
        q: "do_request fs c3 = Inr (code, c2)" "ret = Some code" "ls2 = LINE_OK"
        by (auto simp: read_step_def Let_def get_line_def then_do_Inr_iff)
      from url obtain u where u: "m_url c3 = Some u" "ends_before ?n u c3" by blast
      have "fits d c3" "?n \<le> m_read_index c3" using http_inv_fits [OF r(2), of d] keep(2) room n by simp_all
      from do_request_more [OF this(1) u(2) this(2) u(1), of fs] q(1)
      have "do_request fs (with_host k (arrives d c3)) = Inr (code, with_host k (arrives d c2))" by (simp add: do_request_host)
      then have "read_step fs LINE_OK (arrives d c) = Inr (ret, ls2, with_host k (arrives d c2))"
        using CHECK_STATE_HEADER k True q by (simp add: read_step_def Let_def get_line_def arrives_upd)
      moreover have "http_inv c2" using do_request_inv [OF r(2,3), of fs] q(1) by simp
      ultimately show ?thesis using q do_request_changes [OF q(1)] by auto
    next
      case False
      then have "ret = None" "ls2 = LINE_OK" "c2 = c3" "r = NO_REQUEST"
        using step CHECK_STATE_HEADER r(1) keep(1) by (auto simp: read_step_def Let_def get_line_def)
      moreover have "read_step fs LINE_OK (arrives d c) = Inr (None, LINE_OK, with_host k (arrives d c3))"
        using CHECK_STATE_HEADER k \<open>r = NO_REQUEST\<close> by (simp add: read_step_def Let_def get_line_def arrives_upd)
      ultimately show ?thesis using r(2) tgt3 by auto
    qed
  qed (use st in simp)
qed

text \<open>A body, once announced, stays announced.\<close>

lemma content_stays:
  assumes "process_read_loop fs ls c = Inr (r, c1)" and "m_check_state c = CHECK_STATE_CONTENT"
  shows "m_check_state c1 = CHECK_STATE_CONTENT"
  using assms
proof (induction "read_measure ls c" arbitrary: ls c rule: less_induct)
  case less
  have step: "m_check_state x2 = CHECK_STATE_CONTENT"
    if "read_step fs l x = Inr (ret, l2, x2)" "m_check_state x = CHECK_STATE_CONTENT" for l x ret l2 x2
  proof -
    let ?x1 = "x\<lparr>m_start_line := m_checked_index x\<rparr>"
    from that obtain q x3 where q: "parse_request_content (get_line x) ?x1 = Inr (q, x3)"
        "x2 = x3 \<or> (\<exists>code. do_request fs x3 = Inr (code, x2))"
      by (auto simp: read_step_def Let_def then_do_Inr_iff split: if_splits prod.splits)
    from q(1) that(2) have "m_check_state x3 = CHECK_STATE_CONTENT"
      by (auto simp: parse_request_content_def then_do_Inr_iff split: if_splits dest: put_NUL_frame)
    with q(2) show ?thesis by (auto dest!: do_request_changes)
  qed
  from less.prems(1) obtain ret ls2 c2 where it: "read_iter fs ls c = Inr (ret, ls2, c2)"
    by (auto simp: process_read_loop_iter [of fs ls c] then_do_Inr_iff)
  then have c2: "m_check_state c2 = CHECK_STATE_CONTENT"
    using less.prems(2) step parse_line_keeps
    by (auto simp: read_iter_def then_do_Inr_iff split: if_splits prod.splits)
  show ?case
  proof (cases ret)
    case None
    with less.hyps [of ls2 c2] read_iter_decreases [of fs ls c] it c2 less.prems(1) show ?thesis
      by (simp add: process_read_loop_iter [of fs ls c])
  qed (use c2 it less.prems(1) in \<open>simp add: process_read_loop_iter [of fs ls c]\<close>)
qed

lemma parse_line_bad: "parse_line c = Inr (LINE_BAD, c1) \<Longrightarrow> parse_line c1 = Inr (LINE_BAD, c1)"
proof (induction c rule: parse_line.induct)
  case (1 c)
  let ?i = "m_checked_index c"
  show ?case
  proof (cases "?i < m_read_index c \<and> (\<exists>t. get_char ?i c = Inr t \<and> t \<noteq> CHR 0x0D \<and> t \<noteq> CHR 0x0A)")
    case True
    then obtain t where t: "?i < m_read_index c" "get_char ?i c = Inr t" "t \<noteq> CHR 0x0D" "t \<noteq> CHR 0x0A" by blast
    with "1.prems" have "parse_line (c\<lparr>m_checked_index := ?i + 1\<rparr>) = Inr (LINE_BAD, c1)" by (simp add: parse_line.simps [of c] Let_def)
    from "1.IH" [OF refl t this] show ?thesis .
  next
    case False
    with "1.prems" end_line_status [of ?i "?i + 1" c LINE_BAD c1] end_line_status [of "?i - 1" ?i c LINE_BAD c1] have "c1 = c"
      by (auto simp: parse_line.simps [of c] Let_def then_do_Inr_iff split: if_splits)
    with "1.prems" show ?thesis by simp
  qed
qed

lemma read_step_index: "read_step fs ls c = Inr (ret, ls2, c2) \<Longrightarrow> m_read_index c2 = m_read_index c"
  by (auto simp: read_step_def Let_def then_do_Inr_iff split: CHECK_STATE.splits if_splits prod.splits
      dest!: parse_request_line_frame parse_request_header_frame parse_request_content_frame do_request_changes)

lemma read_step_returns:
  assumes inv: "http_inv c" and idx: "m_read_index c + 5 < READ_BUFFER_SIZE" and st: "m_check_state c \<noteq> CHECK_STATE_CONTENT"
  shows "\<exists>ret ls2 c2. read_step fs ls c = Inr (ret, ls2, c2)"
proof -
  let ?c1 = "c\<lparr>m_start_line := m_checked_index c\<rparr>" and ?p = "m_start_line c"
  have c1: "http_inv ?c1" and p: "?p + 5 < READ_BUFFER_SIZE" using inv idx by (auto simp: http_inv_def)
  show ?thesis
  proof (cases "m_check_state c")
    case CHECK_STATE_REQUESTLITE
    with parse_request_line_inv [OF c1, of ?p] p show ?thesis by (auto simp: read_step_def Let_def get_line_def)
  next
    case CHECK_STATE_HEADER
    with parse_request_header_inv [OF c1 p] obtain r c2 where
      h: "parse_request_header ?p ?c1 = Inr (r, c2)" "http_inv c2" "m_check_state c2 \<noteq> CHECK_STATE_REQUESTLITE" by auto
    with CHECK_STATE_HEADER do_request_inv [OF h(2,3), of fs] show ?thesis by (auto simp: read_step_def Let_def get_line_def)
  qed (use st in simp)
qed

lemma process_read_loop_line:
  "m_check_state c \<noteq> CHECK_STATE_CONTENT \<Longrightarrow> process_read_loop fs LINE_OK c =
     then_do (parse_line c) (\<lambda>(ls1, c1).
       if ls1 = LINE_OK then then_do (read_step fs LINE_OK c1) (\<lambda>(ret, ls2, c2).
            case ret of Some r \<Rightarrow> Inr (r, c2) | None \<Rightarrow> process_read_loop fs ls2 c2)
       else Inr (NO_REQUEST, c1))"
  by (subst process_read_loop.simps) (auto simp: then_do_def split: sum.splits prod.splits)

text \<open>
  Where a run on more bytes comes from: the run without them, which either waits and can be resumed, or has
  already come to the same answer.
\<close>

definition resumed :: "file_system \<Rightarrow> string \<Rightarrow> http_conn \<Rightarrow> HTTP_CODE \<Rightarrow> http_conn \<Rightarrow> HTTP_CODE \<Rightarrow> http_conn \<Rightarrow> bool" where
  "resumed fs d c r c1 r2 c2 \<longleftrightarrow>
     process_read_loop fs LINE_OK c = Inr (r, c1) \<and> http_inv c1 \<and> m_read_index c1 = m_read_index c \<and>
     (if r = NO_REQUEST then target_ends c1 \<and> (\<exists>k. process_read_loop fs LINE_OK (arrives d c1) = Inr (r2, with_host k c2))
      else r2 = r \<and> (\<exists>k. c2 = with_host k (arrives d c1)))"

lemma process_read_loop_more:
  assumes "http_inv c" and "m_read_index c + length d + 5 < READ_BUFFER_SIZE" and "target_ends c"
    and "process_read_loop fs LINE_OK (arrives d c) = Inr (r2, c2)" and "m_check_state c2 \<noteq> CHECK_STATE_CONTENT"
  shows "\<exists>r c1. resumed fs d c r c1 r2 c2"
  using assms
proof (induction "read_measure LINE_OK c" arbitrary: c c2 rule: less_induct)
  case less
  note inv = less.prems(1) and room = less.prems(2) and run = less.prems(4)
  have st: "m_check_state c \<noteq> CHECK_STATE_CONTENT" using content_stays [OF run] less.prems(5) by auto
  have fits: "fits d c" using http_inv_fits [OF inv, of d] room by simp
  obtain ls x where x: "parse_line c = Inr (ls, x)" "http_inv x" using parse_line_inv [OF inv] by blast
  note more = parse_line_more [OF fits x(1)] and keeps = parse_line_keeps [OF x(1)]
  from parse_line_shape [OF x(1)] obtain k b where
    shape: "x = c\<lparr>m_checked_index := k, m_read_buf := b\<rparr>" "m_checked_index c \<le> k" "length b = length (m_read_buf c)"
      "\<forall>j. m_read_buf c ! j = NUL \<longrightarrow> b ! j = NUL"
      "ls = LINE_OK \<longrightarrow> m_checked_index c < k \<and> k \<le> m_read_index c \<and> (k \<le> length b \<longrightarrow> b ! (k - 1) = NUL)" by blast
  have tgt: "target_ends x" using less.prems(3) shape(1,2,4) by (fastforce simp: target_ends_def ends_before_def)
  have stx: "m_check_state x \<noteq> CHECK_STATE_CONTENT" using st keeps by simp
  have loop: "process_read_loop fs LINE_OK (arrives d y) = then_do (parse_line (arrives d y)) (\<lambda>(ls1, c1).
       if ls1 = LINE_OK then then_do (read_step fs LINE_OK c1) (\<lambda>(ret, ls2, c2).
            case ret of Some r \<Rightarrow> Inr (r, c2) | None \<Rightarrow> process_read_loop fs ls2 c2)
       else Inr (NO_REQUEST, c1))" if "m_check_state y \<noteq> CHECK_STATE_CONTENT" for y
    using that by (intro process_read_loop_line) simp
  show ?case
  proof (cases "ls = LINE_OK")
    case False
    then have "process_read_loop fs LINE_OK c = Inr (NO_REQUEST, x)" using st x(1) by (simp add: process_read_loop_line)
    moreover have "process_read_loop fs LINE_OK (arrives d x) = process_read_loop fs LINE_OK (arrives d c)"
    proof (cases "ls = LINE_OPEN")
      case True
      with more show ?thesis by (simp add: loop [OF st] loop [OF stx])
    next
      case open_not: False
      with False have bad: "ls = LINE_BAD" by (cases ls) simp_all
      have "fits d x" using http_inv_fits [OF x(2), of d] room keeps by simp
      from parse_line_more [OF this parse_line_bad [OF x(1) [unfolded bad]]] more bad show ?thesis
        by (simp add: loop [OF st] loop [OF stx])
    qed
    then have "process_read_loop fs LINE_OK (arrives d x) = Inr (r2, with_host (m_host c2) c2)" using run by simp
    ultimately show ?thesis using x(2) tgt keeps unfolding resumed_def by (intro exI [of _ NO_REQUEST] exI [of _ x]) auto
  next
    case ok: True
    have "m_read_index x + 5 < READ_BUFFER_SIZE" using room keeps by simp
    from read_step_returns [OF x(2) this stx] obtain ret ls2 c3 where step: "read_step fs LINE_OK x = Inr (ret, ls2, c3)" by blast
    have k: "m_checked_index c < k" "k \<le> m_read_index c" "b ! (k - 1) = NUL"
      using shape(3,5) ok http_inv_sizes(1,2) [OF inv] by auto
    have ends: "ends_before (m_checked_index x) (m_start_line x) x"
      using k http_inv_sizes(3) [OF inv] shape(1) unfolding ends_before_def by (intro exI [of _ "k - 1"]) auto
    have "m_read_index x + length d + 5 < READ_BUFFER_SIZE" using room keeps by simp
    from read_step_more [OF x(2) this ends tgt stx step] obtain h where
      h: "read_step fs LINE_OK (arrives d x) = Inr (ret, ls2, with_host h (arrives d c3))" "ret \<noteq> Some NO_REQUEST" "http_inv c3"
        "ret = None \<longrightarrow> ls2 = LINE_OK \<and> target_ends c3" by blast
    show ?thesis
    proof (cases ret)
      case (Some q)
      then have "process_read_loop fs LINE_OK c = Inr (q, c3)" using st x(1) ok step by (simp add: process_read_loop_line)
      moreover have "r2 = q" "c2 = with_host h (arrives d c3)" using run more ok h(1) Some by (simp_all add: loop [OF st])
      moreover have "m_read_index c3 = m_read_index c"
        using read_step_index [OF step] keeps by simp
      ultimately show ?thesis using h(2,3) Some unfolding resumed_def by (intro exI [of _ q] exI [of _ c3]) auto
    next
      case None
      note c3 = h(4) [rule_format, OF None]
      have frame: "m_read_index c3 = m_read_index c" "m_checked_index c3 = k"
        using read_step_frame [of fs LINE_OK x ls2 c3] step None keeps shape(1) by simp_all
      then have smaller: "read_measure LINE_OK c3 < read_measure LINE_OK c" using k by (simp add: read_measure_def)
      have "process_read_loop fs LINE_OK (with_host h (arrives d c3)) = Inr (r2, c2)"
        using run more ok h(1) None c3 by (simp add: loop [OF st])
      from process_read_loop_host [OF this, of "m_host (arrives d c3)"] obtain j where
        "process_read_loop fs LINE_OK (arrives d c3) = Inr (r2, with_host j c2)" by auto
      from less.hyps [OF smaller h(3) _ _ this] frame(1) room c3 less.prems(5) obtain r c1 where
        "resumed fs d c3 r c1 r2 (with_host j c2)" by auto
      moreover have "process_read_loop fs LINE_OK c = process_read_loop fs LINE_OK c3"
        using st x(1) ok step None c3 by (simp add: process_read_loop_line)
      moreover have "\<exists>i. c2 = with_host i z" if "with_host j c2 = with_host i z" for i z
        using that by (metis with_host_fields(10,11))
      ultimately show ?thesis using frame(1) unfolding resumed_def by (auto split: if_splits)
    qed
  qed
qed

section \<open>Any number of pieces\<close>

text \<open>
  Read events of one connection with a run of the parser after each, until it comes to an answer.  A \<open>read()\<close>
  that fails closes the connection.
\<close>

fun read_in_pieces :: "file_system \<Rightarrow> string list \<Rightarrow> http_conn \<Rightarrow> (HTTP_CODE \<times> http_conn) result" where
  "read_in_pieces fs [] c = Inr (NO_REQUEST, c)"
| "read_in_pieces fs (d # ds) c =
     (case http_read [ReadData d] c of (ok, c1) \<Rightarrow>
        if ok then then_do (process_read fs c1) (\<lambda>(r, c2). if r = NO_REQUEST then read_in_pieces fs ds c2 else Inr (r, c2))
        else Inr (CLOSED_CONNECTION, c1))"

lemma pieces_of_whole:
  assumes "\<forall>d \<in> set ds. d \<noteq> []" and "ds \<noteq> []" and "http_inv c" and "target_ends c"
    and "m_read_index c + length (concat ds) + 5 < READ_BUFFER_SIZE"
    and "process_read fs (arrives (concat ds) c) = Inr (r2, c2)" and "m_check_state c2 \<noteq> CHECK_STATE_CONTENT"
  shows "\<exists>c1 rest k. read_in_pieces fs ds c = Inr (r2, c1) \<and> c2 = with_host k (arrives rest c1) \<and> http_inv c1 \<and>
    m_read_index c1 + length rest = m_read_index c + length (concat ds)"
  using assms
proof (induction ds arbitrary: c c2)
  case (Cons d ds)
  let ?c = "arrives d c"
  have room: "m_read_index c + length d < READ_BUFFER_SIZE" "m_read_index ?c + length (concat ds) + 5 < READ_BUFFER_SIZE"
    using Cons.prems(5) by simp_all
  have read: "http_read [ReadData d] c = (True, ?c)" using Cons.prems(1) room(1) by (intro http_read_more) auto
  have inv: "http_inv ?c" using http_inv_arrives [OF Cons.prems(3) room(1)] .
  have "ends_before n p (arrives d c)" if "ends_before n p c" "n \<le> m_read_index c" for n p
    using that nth_more [OF http_inv_fits [OF Cons.prems(3) room(1)]] unfolding ends_before_def by fastforce
  then have tgt: "target_ends ?c"
    using Cons.prems(4) http_inv_sizes(4) [OF Cons.prems(3)] by (auto simp: target_ends_def)
  have "fits (d @ concat ds) c" using Cons.prems(3,5) by (simp add: http_inv_def fits_def)
  then have whole: "process_read_loop fs LINE_OK (arrives (concat ds) ?c) = Inr (r2, c2)"
    using Cons.prems(6) by (simp add: process_read_def arrives_more)
  from process_read_loop_more [OF inv room(2) tgt whole Cons.prems(7)] obtain r c1 where r: "resumed fs (concat ds) ?c r c1 r2 c2" by blast
  then have run: "process_read fs ?c = Inr (r, c1)" and inv1: "http_inv c1" and idx: "m_read_index c1 = m_read_index ?c"
    by (simp_all add: resumed_def process_read_def)
  show ?case
  proof (cases "r = NO_REQUEST")
    case False
    with r obtain k where "r2 = r" "c2 = with_host k (arrives (concat ds) c1)" by (auto simp: resumed_def)
    with False read run inv1 idx show ?thesis by (intro exI [of _ c1] exI [of _ "concat ds"] exI [of _ k]) simp
  next
    case waits: True
    with r obtain k where tgt1: "target_ends c1" and k: "process_read_loop fs LINE_OK (arrives (concat ds) c1) = Inr (r2, with_host k c2)"
      by (auto simp: resumed_def)
    show ?thesis
    proof (cases "ds = []")
      case True
      with whole run have "r2 = r" "c2 = c1" by (simp_all add: process_read_def)
      with True waits read run inv1 idx show ?thesis
        by (intro exI [of _ c1] exI [of _ "[]"] exI [of _ "m_host c1"]) simp
    next
      case False
      from Cons.IH [OF _ False inv1 tgt1, of "with_host k c2"] Cons.prems(1,7) idx room(2) k obtain x rest j where
        x: "read_in_pieces fs ds c1 = Inr (r2, x)" "with_host k c2 = with_host j (arrives rest x)" "http_inv x"
          "m_read_index x + length rest = m_read_index c1 + length (concat ds)" by (auto simp: process_read_def)
      from x(2) have "c2 = with_host (m_host c2) (arrives rest x)" by (metis with_host_fields(10,11))
      with x waits read run idx show ?thesis
        by (intro exI [of _ x] exI [of _ rest] exI [of _ "m_host c2"]) simp
    qed
  qed
qed simp

section \<open>Requests in full\<close>

lemma at_header_file:
  "http_inv (c\<lparr>m_real_file := f, m_file_stat := st, m_file_address := a\<rparr>) \<Longrightarrow> at_header u url pre rest c \<Longrightarrow>
     at_header u url pre rest (c\<lparr>m_real_file := f, m_file_stat := st, m_file_address := a\<rparr>)"
  by (simp add: at_header_def)

lemma do_request_keeps_header:
  assumes at: "at_header u url pre rest c" and r: "do_request fs c = Inr (r, c')"
  shows "at_header u url pre rest c' \<and> m_read_index c' = m_read_index c"
proof -
  have "http_inv c" "m_check_state c \<noteq> CHECK_STATE_REQUESTLITE" using at by (simp_all add: at_header_def)
  from do_request_inv [OF this, of fs] r have inv: "http_inv c'" by simp
  from do_request_changes [OF r] obtain f st a where "c' = c\<lparr>m_real_file := f, m_file_stat := st, m_file_address := a\<rparr>" by blast
  with at inv show ?thesis by (simp add: at_header_file)
qed

text \<open>After a request has been read its bytes are still there, and the parser stands behind them.\<close>

lemma request_left_behind:
  assumes "url_ok url" and "\<forall>h \<in> set hs. header_ok h" and "length (get_request url hs) + 5 < READ_BUFFER_SIZE"
    and "process_read fs (arrived (get_request url hs) c) = Inr (r, c2)"
  shows "\<exists>pre. at_header 4 url pre (replicate (READ_BUFFER_SIZE - length pre) NUL) c2 \<and>
    length pre = length (get_request url hs) \<and> m_read_index c2 = length pre"
proof -
  let ?d = "get_request url hs" and ?rest = "header_lines hs @ crlf"
  have d: "?d = ''GET '' @ url @ '' HTTP/1.1'' @ crlf @ ?rest" by (simp add: get_request_def)
  have len: "length ''GET '' + length url + length '' HTTP/1.1'' + 2 + length ?rest + 5 < READ_BUFFER_SIZE"
    using assms(3) by (simp add: d crlf_def)
  let ?pre = "''GET'' @ NUL # url @ NUL # ''HTTP/1.1'' @ [NUL, NUL]" and ?zeros = "replicate (READ_BUFFER_SIZE - length ?d) NUL"
  obtain c1 where c1: "process_read fs (arrived ?d c) = process_read_loop fs LINE_OK c1" "at_header 4 url ?pre (?rest @ ?zeros) c1"
      "m_read_index c1 = length ?d"
    using request_line_iter [OF assms(1) len, of fs c] unfolding d by auto
  have room: "length ?pre + length (header_lines hs) + 2 \<le> m_read_index c1" by (simp add: c1(3) get_request_def crlf_def)
  from at_header_loop [OF _ assms(2) room, of 4 url ?zeros fs] c1(2) obtain c3 pre where
    c3: "process_read_loop fs LINE_OK c1 = do_request fs c3" "m_read_index c3 = length ?d"
      "at_header 4 url pre ?zeros c3" "length pre = length ?pre + length (header_lines hs) + 2" using c1(3) by auto
  have "length pre = length ?d" using c3(4) by (simp add: get_request_def crlf_def)
  with do_request_keeps_header [OF c3(3), of fs r c2] assms(4) c1(1) c3(1,2) show ?thesis
    by (intro exI [of _ pre]) simp
qed

lemma get_request_state:
  assumes "url_ok url" and "\<forall>h \<in> set hs. header_ok h" and "length (get_request url hs) + 5 < READ_BUFFER_SIZE"
    and "process_read fs (arrived (get_request url hs) c) = Inr (r, c2)"
  shows "m_check_state c2 = CHECK_STATE_HEADER \<and> m_checked_index c2 = length (get_request url hs)"
  using request_left_behind [OF assms] by (auto simp: at_header_def)


section \<open>Properties\<close>



end
