(* ===== verification/Http_Write.thy ===== *)
theory Http_Write
  imports Http_Conn
begin

text \<open>
  The response side of \<^verbatim>\<open>src/bck/src/http_conn.cpp\<close>: the \<open>add_\<close> functions that print into
  \<open>m_write_buf\<close>, \<open>process_write\<close>, and \<open>write()\<close> with its two \<open>iovec\<close>s. The third argument of
  \<open>add_content_type\<close>'s format is a pointer printed with \<open>%d\<close>; the number it prints as is the
  argument \<open>ptr\<close>. \<open>write()\<close> runs on the answers of \<open>writev\<close> and yields what it returns, the event
  it re-arms the descriptor with, and the bytes the kernel was handed.
\<close>

definition eol :: string where
  "eol = [CHR 0x0D, CHR 0x0A]"

text \<open>A \<open>size_t\<close> or \<open>off_t\<close> passed as \<open>int\<close>.\<close>

definition as_int :: "nat \<Rightarrow> int" where
  "as_int n = sint (of_nat n :: 32 word)"


section \<open>Printing the response\<close>

text \<open>
  \<open>add_response\<close> with the text its format produces. \<open>vsnprintf\<close> gets \<open>WRITE_BUFFER_SIZE - 1 -
  m_write_index\<close> as the size, stores at most one byte less and a terminator, and returns the
  length of the whole text.
\<close>

definition add_response :: "string \<Rightarrow> http_conn \<Rightarrow> bool \<times> http_conn" where
  "add_response s c =
     (if WRITE_BUFFER_SIZE \<le> m_write_index c then (False, c)
      else
        let room = WRITE_BUFFER_SIZE - 1 - m_write_index c; len = length s;
            c1 = (if 0 < room
                  then c\<lparr>m_write_buf := write_at (m_write_index c) (take (room - 1) s @ [NUL]) (m_write_buf c)\<rparr> else c)
        in if len \<ge> room then (False, c1) else (True, c1\<lparr>m_write_index := m_write_index c + len\<rparr>))"

definition add_status_line :: "int \<Rightarrow> string \<Rightarrow> http_conn \<Rightarrow> bool \<times> http_conn" where
  "add_status_line status title = add_response (''HTTP/1.1 '' @ show_int status @ '' '' @ title @ eol)"

definition add_content_length :: "int \<Rightarrow> http_conn \<Rightarrow> bool \<times> http_conn" where
  "add_content_length n = add_response (''Content-Length: '' @ show_int n @ eol)"

definition add_content_type :: "int \<Rightarrow> http_conn \<Rightarrow> bool \<times> http_conn" where
  "add_content_type ptr = add_response (''Content-Type: '' @ show_int ptr @ eol)"

definition add_linger :: "http_conn \<Rightarrow> bool \<times> http_conn" where
  "add_linger c = add_response (''Connection:'' @ (if m_linger c then ''keep-alive'' else ''close'') @ eol) c"

definition add_blank_line :: "http_conn \<Rightarrow> bool \<times> http_conn" where
  "add_blank_line = add_response eol"

definition add_content :: "string \<Rightarrow> http_conn \<Rightarrow> bool \<times> http_conn" where
  "add_content content = add_response content"

text \<open>The four results are ignored.\<close>

definition add_headers :: "int \<Rightarrow> int \<Rightarrow> http_conn \<Rightarrow> bool \<times> http_conn" where
  "add_headers ptr content_len c =
     (True, snd (add_blank_line (snd (add_linger (snd (add_content_type ptr (snd (add_content_length content_len c))))))))"

definition ok_200_title :: string where "ok_200_title = ''OK''"
definition error_400_title :: string where "error_400_title = ''Bad Request''"
definition error_403_title :: string where "error_403_title = ''Forbidden''"
definition error_404_title :: string where "error_404_title = ''Not Found''"
definition error_500_title :: string where "error_500_title = ''Internal Error''"

definition error_400_form :: string where
  "error_400_form = ''Your request has bad syntax or is inherently impossible to satisfy.'' @ [CHR 0x0A]"
definition error_403_form :: string where
  "error_403_form = ''You do not have permission to get file from this server.'' @ [CHR 0x0A]"
definition error_404_form :: string where
  "error_404_form = ''The requested file was not found on this server.'' @ [CHR 0x0A]"
definition error_500_form :: string where
  "error_500_form = ''There was an unusual problem serving the requested file.'' @ [CHR 0x0A]"

lemmas response_texts = ok_200_title_def error_400_title_def error_403_title_def error_404_title_def
  error_500_title_def error_400_form_def error_403_form_def error_404_form_def error_500_form_def

text \<open>The branch all four error codes share.\<close>

definition error_response :: "int \<Rightarrow> int \<Rightarrow> string \<Rightarrow> string \<Rightarrow> http_conn \<Rightarrow> bool \<times> http_conn" where
  "error_response ptr status title form c =
     add_content form (snd (add_headers ptr (int (length form)) (snd (add_status_line status title c))))"

definition process_write :: "int \<Rightarrow> HTTP_CODE \<Rightarrow> http_conn \<Rightarrow> bool \<times> http_conn" where
  "process_write ptr ret c =
     (let finish = (\<lambda>c. (True, c\<lparr>m_iv0 := \<lparr>iov_base = InWriteBuf 0, iov_len = m_write_index c\<rparr>, m_iv_count := 1\<rparr>));
          error = (\<lambda>status title form.
             case error_response ptr status title form c of (ok, c1) \<Rightarrow> if \<not> ok then (False, c1) else finish c1)
      in case ret of
           INTERNAL_ERROR \<Rightarrow> error 500 error_500_title error_500_form
         | BAD_REQUEST \<Rightarrow> error 400 error_400_title error_400_form
         | NO_RESOURCE \<Rightarrow> error 404 error_404_title error_404_form
         | FORBIDDEN_REQUEST \<Rightarrow> error 403 error_403_title error_403_form
         | FILE_REQUEST \<Rightarrow>
             let c1 = snd (add_headers ptr (as_int (st_size (m_file_stat c))) (snd (add_status_line 200 ok_200_title c)))
             in (True, c1\<lparr>m_iv0 := \<lparr>iov_base = InWriteBuf 0, iov_len = m_write_index c1\<rparr>,
                          m_iv1 := \<lparr>iov_base = InFile 0, iov_len = st_size (m_file_stat c1)\<rparr>,
                          m_iv_count := 2,
                          m_bytes_to_send := as_int (m_write_index c1 + st_size (m_file_stat c1))\<rparr>)
         | _ \<Rightarrow> finish c)"


section \<open>Sending it\<close>

definition unmap :: "http_conn \<Rightarrow> http_conn" where
  "unmap c = (case m_file_address c of None \<Rightarrow> c | Some m \<Rightarrow> c\<lparr>m_file_address := None\<rparr>)"

text \<open>The first \<open>k\<close> bytes an \<open>iovec\<close> leads to.\<close>

definition iov_read :: "http_conn \<Rightarrow> iovec \<Rightarrow> nat \<Rightarrow> string result" where
  "iov_read c v k =
     (if k = 0 then Inr []
      else case iov_base v of
        InWriteBuf i \<Rightarrow> if i + k \<le> length (m_write_buf c) then Inr (take k (drop i (m_write_buf c))) else Inl OutOfBounds
      | InFile off \<Rightarrow>
          (case m_file_address c of
             Some (Mapped f) \<Rightarrow> if 0 \<le> off \<and> nat off + k \<le> length f then Inr (take k (drop (nat off) f)) else Inl OutOfBounds
           | _ \<Rightarrow> Inl OutOfBounds))"

definition gather :: "nat \<Rightarrow> http_conn \<Rightarrow> string result" where
  "gather n c =
     (let k = min n (iov_len (m_iv0 c)) in
      then_do (iov_read c (m_iv0 c) k) (\<lambda>b0.
        then_do (if m_iv_count c = 2 then iov_read c (m_iv1 c) (n - k) else Inr []) (\<lambda>b1. Inr (b0 @ b1))))"

text \<open>The counters and iovecs after \<open>writev\<close> took \<open>n\<close> bytes.\<close>

definition write_advance :: "nat \<Rightarrow> http_conn \<Rightarrow> http_conn" where
  "write_advance n c =
     (let have_sent = m_bytes_have_send c + int n; to_send = m_bytes_to_send c - int n;
          c1 = c\<lparr>m_bytes_have_send := have_sent, m_bytes_to_send := to_send\<rparr>
      in if have_sent \<ge> int (iov_len (m_iv0 c1)) then
           c1\<lparr>m_iv0 := (m_iv0 c1)\<lparr>iov_len := 0\<rparr>,
              m_iv1 := \<lparr>iov_base = InFile (have_sent - int (m_write_index c1)), iov_len = nat to_send\<rparr>\<rparr>
         else c1\<lparr>m_iv0 := \<lparr>iov_base = InWriteBuf (nat have_sent), iov_len = iov_len (m_iv0 c1) - n\<rparr>\<rparr>)"

type_synonym write_outcome = "bool \<times> events option \<times> string \<times> http_conn"

text \<open>The loop; when the list of answers is used up the socket buffer is full (\<open>EAGAIN\<close>).\<close>

fun http_write_loop :: "write_result list \<Rightarrow> string \<Rightarrow> http_conn \<Rightarrow> write_outcome result" where
  "http_write_loop [] out c = Inr (True, Some EPOLLOUT, out, c)"
| "http_write_loop (WriteErr e # rs) out c =
     (if e = EAGAIN then Inr (True, Some EPOLLOUT, out, c) else Inr (False, None, out, unmap c))"
| "http_write_loop (Wrote n # rs) out c =
     then_do (gather n c) (\<lambda>bytes.
       let c1 = write_advance n c in
       if m_bytes_to_send c1 \<le> 0 then
         (let c2 = unmap c1 in
          if m_linger c2 then Inr (True, Some EPOLLIN, out @ bytes, http_init c2)
          else Inr (False, Some EPOLLIN, out @ bytes, c2))
       else http_write_loop rs (out @ bytes) c1)"

definition http_write :: "write_result list \<Rightarrow> http_conn \<Rightarrow> write_outcome result" where
  "http_write rs c =
     (if m_bytes_to_send c = 0 then Inr (True, Some EPOLLIN, [], http_init c) else http_write_loop rs [] c)"


section \<open>The text of a response\<close>

text \<open>What the write buffer holds up to \<open>m_write_index\<close>.\<close>

definition response :: "http_conn \<Rightarrow> string" where
  "response c = take (m_write_index c) (m_write_buf c)"

definition wbuf_inv :: "http_conn \<Rightarrow> bool" where
  "wbuf_inv c \<longleftrightarrow> length (m_write_buf c) = WRITE_BUFFER_SIZE \<and> m_write_index c < WRITE_BUFFER_SIZE"

text \<open>What printing leaves alone.\<close>

definition same_request :: "http_conn \<Rightarrow> http_conn \<Rightarrow> bool" where
  "same_request c d \<longleftrightarrow> (\<exists>b i. d = c\<lparr>m_write_buf := b, m_write_index := i\<rparr>)"

lemma add_response_ok:
  assumes "wbuf_inv c" and "m_write_index c + length s < WRITE_BUFFER_SIZE - 1"
  shows "\<exists>d. add_response s c = (True, d) \<and> wbuf_inv d \<and> response d = response c @ s \<and>
     m_write_index d = m_write_index c + length s \<and> same_request c d"
proof -
  let ?i = "m_write_index c" and ?room = "WRITE_BUFFER_SIZE - 1 - m_write_index c"
  define d where "d = c\<lparr>m_write_buf := write_at ?i (take (?room - 1) s @ [NUL]) (m_write_buf c), m_write_index := ?i + length s\<rparr>"
  have short: "take (?room - 1) s = s" using assms(2) by simp
  have "add_response s c = (True, d)"
    using assms by (auto simp: add_response_def Let_def d_def wbuf_inv_def)
  moreover have "wbuf_inv d" using assms by (simp add: wbuf_inv_def d_def short)
  moreover have "response d = response c @ s"
    using assms take_write_at_le [of ?i "m_write_buf c" "length s" "s @ [NUL]"]
    by (simp add: response_def d_def short wbuf_inv_def)
  ultimately show ?thesis by (auto simp: d_def same_request_def)
qed

lemma same_request_trans: "same_request c d \<Longrightarrow> same_request d e \<Longrightarrow> same_request c e"
  unfolding same_request_def by (elim exE, intro exI) simp

lemma same_request_refl: "same_request c c"
  unfolding same_request_def by (intro exI [of _ "m_write_buf c"] exI [of _ "m_write_index c"]) simp

lemma same_requestD:
  "same_request c d \<Longrightarrow> m_linger d = m_linger c" "same_request c d \<Longrightarrow> m_bytes_to_send d = m_bytes_to_send c"
  "same_request c d \<Longrightarrow> m_bytes_have_send d = m_bytes_have_send c" "same_request c d \<Longrightarrow> m_file_stat d = m_file_stat c"
  "same_request c d \<Longrightarrow> m_file_address d = m_file_address c"
  by (auto simp: same_request_def)

text \<open>A sequence of prints whose results are ignored.\<close>

definition emit :: "string list \<Rightarrow> http_conn \<Rightarrow> http_conn" where
  "emit ss c = fold (\<lambda>s c. snd (add_response s c)) ss c"

lemma emit_ok:
  "wbuf_inv c \<Longrightarrow> m_write_index c + length (concat ss) < WRITE_BUFFER_SIZE - 1 \<Longrightarrow>
     wbuf_inv (emit ss c) \<and> response (emit ss c) = response c @ concat ss \<and>
     m_write_index (emit ss c) = m_write_index c + length (concat ss) \<and> same_request c (emit ss c)"
proof (induction ss arbitrary: c)
  case Nil
  then show ?case by (simp add: emit_def same_request_refl)
next
  case (Cons s ss)
  from add_response_ok [OF Cons.prems(1), of s] Cons.prems(2) obtain d where
    d: "add_response s c = (True, d)" "wbuf_inv d" "response d = response c @ s"
    "m_write_index d = m_write_index c + length s" "same_request c d" by auto
  have "emit (s # ss) c = emit ss d" by (simp add: emit_def d(1))
  moreover have "m_write_index d + length (concat ss) < WRITE_BUFFER_SIZE - 1" using Cons.prems(2) d(4) by simp
  ultimately show ?case using Cons.IH [OF d(2)] d(3,4,5) by (auto intro: same_request_trans)
qed

lemma add_response_frame [simp]:
  "m_linger (snd (add_response s c)) = m_linger c" "m_sockfd (snd (add_response s c)) = m_sockfd c"
  by (simp_all add: add_response_def Let_def)

definition header_text :: "int \<Rightarrow> int \<Rightarrow> string \<Rightarrow> int \<Rightarrow> bool \<Rightarrow> string list" where
  "header_text ptr status title len linger =
     [''HTTP/1.1 '' @ show_int status @ '' '' @ title @ eol, ''Content-Length: '' @ show_int len @ eol,
      ''Content-Type: '' @ show_int ptr @ eol, ''Connection:'' @ (if linger then ''keep-alive'' else ''close'') @ eol, eol]"

lemma headers_emit:
  "snd (add_headers ptr len (snd (add_status_line status title c))) = emit (header_text ptr status title len (m_linger c)) c"
  by (simp add: emit_def header_text_def add_headers_def add_status_line_def add_content_length_def add_content_type_def
      add_linger_def add_blank_line_def)

lemma length_show_int_32:
  assumes "- (2 ^ 31) \<le> i" and "i < 2 ^ 31"
  shows "length (show_int i) \<le> 11"
proof -
  have "nat \<bar>i\<bar> < 10 ^ 10" using assms by simp
  then have "length (show_nat (nat \<bar>i\<bar>)) \<le> 10" by (rule length_show_nat) simp
  then show ?thesis by (cases "i < 0") (simp_all add: show_int_def)
qed

lemma as_int_range: "- (2 ^ 31) \<le> as_int n" "as_int n < 2 ^ 31"
  using sint_ge [of "of_nat n :: 32 word"] sint_lt [of "of_nat n :: 32 word"] by (simp_all add: as_int_def)

lemma as_int_small: "n < 2 ^ 31 \<Longrightarrow> as_int n = int n"
  by (simp add: as_int_def signed_of_nat signed_take_bit_int_eq_self_iff)

text \<open>A status line and the headers take less than 200 bytes.\<close>

lemma length_header_text:
  assumes "- (2 ^ 31) \<le> ptr" and "ptr < 2 ^ 31" and "- (2 ^ 31) \<le> len" and "len < 2 ^ 31"
    and "- (2 ^ 31) \<le> status" and "status < 2 ^ 31" and "length title \<le> 20"
  shows "length (concat (header_text ptr status title len linger)) \<le> 200"
  using length_show_int_32 [OF assms(1,2)] length_show_int_32 [OF assms(3,4)] length_show_int_32 [OF assms(5,6)] assms(7)
  by (simp add: header_text_def eol_def)


section \<open>The response to a request\<close>

lemma process_write_file:
  assumes inv: "wbuf_inv c" and idx: "m_write_index c = 0" and size: "st_size (m_file_stat c) < 2 ^ 30"
    and ptr: "- (2 ^ 31) \<le> ptr" "ptr < 2 ^ 31"
  defines "H \<equiv> concat (header_text ptr 200 ok_200_title (int (st_size (m_file_stat c))) (m_linger c))"
  shows "\<exists>d. process_write ptr FILE_REQUEST c = (True, d) \<and> wbuf_inv d \<and> response d = H \<and> m_write_index d = length H \<and>
     m_iv0 d = \<lparr>iov_base = InWriteBuf 0, iov_len = length H\<rparr> \<and>
     m_iv1 d = \<lparr>iov_base = InFile 0, iov_len = st_size (m_file_stat c)\<rparr> \<and> m_iv_count d = 2 \<and>
     m_bytes_to_send d = int (length H + st_size (m_file_stat c)) \<and> m_bytes_have_send d = m_bytes_have_send c \<and>
     m_linger d = m_linger c \<and> m_file_address d = m_file_address c \<and> m_file_stat d = m_file_stat c"
proof -
  let ?n = "st_size (m_file_stat c)"
  let ?ss = "header_text ptr 200 ok_200_title (int ?n) (m_linger c)"
  have small: "as_int ?n = int ?n" using size by (intro as_int_small) simp
  have len: "length H \<le> 200"
    unfolding H_def using ptr size by (intro length_header_text) (simp_all add: ok_200_title_def)
  then have fits: "m_write_index c + length (concat ?ss) < WRITE_BUFFER_SIZE - 1"
    using idx by (simp add: H_def WRITE_BUFFER_SIZE_def)
  note em = emit_ok [OF inv fits]
  have r0: "response c = []" using idx by (simp add: response_def)
  note sm = same_requestD [of c "emit ?ss c"]
  have total: "as_int (length H + ?n) = int (length H + ?n)" using len size by (intro as_int_small) simp
  show ?thesis
    using em sm idx r0 total small
    by (auto simp: process_write_def Let_def headers_emit H_def [symmetric] wbuf_inv_def response_def)
qed

lemma error_response_ok:
  assumes inv: "wbuf_inv c" and idx: "m_write_index c = 0" and ptr: "- (2 ^ 31) \<le> ptr" "ptr < 2 ^ 31"
    and s: "status \<in> {400, 403, 404, 500}" and title: "length title \<le> 20" and form: "length form \<le> 100"
  defines "R \<equiv> concat (header_text ptr status title (int (length form)) (m_linger c)) @ form"
  shows "\<exists>d. error_response ptr status title form c = (True, d) \<and> response d = R \<and> m_write_index d = length R \<and> same_request c d"
proof -
  let ?ss = "header_text ptr status title (int (length form)) (m_linger c)"
  have len: "length (concat ?ss) \<le> 200"
    using ptr s title form by (intro length_header_text) auto
  then have fits: "m_write_index c + length (concat ?ss) < WRITE_BUFFER_SIZE - 1"
    using idx by (simp add: WRITE_BUFFER_SIZE_def)
  note em = emit_ok [OF inv fits]
  have fits2: "m_write_index (emit ?ss c) + length form < WRITE_BUFFER_SIZE - 1"
    using em idx len form by (simp add: WRITE_BUFFER_SIZE_def)
  obtain d where d: "add_response form (emit ?ss c) = (True, d)" "response d = response (emit ?ss c) @ form"
      "m_write_index d = m_write_index (emit ?ss c) + length form" "same_request (emit ?ss c) d"
    using add_response_ok [OF _ fits2] em by blast
  have r0: "response c = []" using idx by (simp add: response_def)
  have "same_request c d" using em d(4) by (blast intro: same_request_trans)
  with em d(1-3) r0 idx show ?thesis
    by (simp add: error_response_def headers_emit add_content_def R_def)
qed

lemma process_write_error:
  assumes "wbuf_inv c" and "m_write_index c = 0" and "- (2 ^ 31) \<le> ptr" and "ptr < 2 ^ 31"
    and "ret \<in> {INTERNAL_ERROR, BAD_REQUEST, NO_RESOURCE, FORBIDDEN_REQUEST}"
  shows "\<exists>d. process_write ptr ret c = (True, d) \<and> m_bytes_to_send d = m_bytes_to_send c \<and>
     m_iv0 d = \<lparr>iov_base = InWriteBuf 0, iov_len = m_write_index d\<rparr> \<and> m_iv_count d = 1 \<and> response d \<noteq> []"
proof -
  have er: "\<exists>d. (case error_response ptr status title form c of (ok, c1) \<Rightarrow> if \<not> ok then (False, c1)
        else (True, c1\<lparr>m_iv0 := \<lparr>iov_base = InWriteBuf 0, iov_len = m_write_index c1\<rparr>, m_iv_count := 1\<rparr>)) = (True, d) \<and>
      m_bytes_to_send d = m_bytes_to_send c \<and> m_iv0 d = \<lparr>iov_base = InWriteBuf 0, iov_len = m_write_index d\<rparr> \<and>
      m_iv_count d = 1 \<and> response d \<noteq> []"
    if "status \<in> {400, 403, 404, 500}" "length title \<le> 20" "length form \<le> 100" for status title form
    using error_response_ok [OF assms(1-4) that] same_requestD(2) [of c]
    by (auto simp: response_def header_text_def)
  have sizes: "length error_400_form \<le> 100" "length error_403_form \<le> 100" "length error_404_form \<le> 100"
    "length error_500_form \<le> 100" "length error_400_title \<le> 20" "length error_403_title \<le> 20"
    "length error_404_title \<le> 20" "length error_500_title \<le> 20"
    by (simp_all add: response_texts)
  show ?thesis
    using assms(5) er [of 500 error_500_title error_500_form] er [of 400 error_400_title error_400_form]
      er [of 404 error_404_title error_404_form] er [of 403 error_403_title error_403_form] sizes
    unfolding process_write_def Let_def by auto
qed


section \<open>The transfer\<close>

text \<open>Before the first \<open>writev\<close> of a file response, and with the header and \<open>k\<close> bytes of the file gone.\<close>

definition ready_to_send :: "string \<Rightarrow> string \<Rightarrow> http_conn \<Rightarrow> bool" where
  "ready_to_send H F c \<longleftrightarrow>
     m_iv0 c = \<lparr>iov_base = InWriteBuf 0, iov_len = length H\<rparr> \<and> m_iv1 c = \<lparr>iov_base = InFile 0, iov_len = length F\<rparr> \<and>
     m_iv_count c = 2 \<and> m_bytes_to_send c = int (length H + length F) \<and> m_bytes_have_send c = 0 \<and>
     m_write_index c = length H \<and> response c = H \<and> length H \<le> length (m_write_buf c) \<and> m_file_address c = Some (Mapped F)"

definition sending_body :: "string \<Rightarrow> nat \<Rightarrow> http_conn \<Rightarrow> bool" where
  "sending_body F k c \<longleftrightarrow>
     iov_len (m_iv0 c) = 0 \<and> m_iv1 c = \<lparr>iov_base = InFile (int k), iov_len = length F - k\<rparr> \<and> m_iv_count c = 2 \<and>
     m_bytes_have_send c = int (m_write_index c + k) \<and> m_bytes_to_send c = int (length F) - int k \<and> k \<le> length F \<and>
     m_file_address c = Some (Mapped F)"

lemma gather_body:
  "sending_body F k c \<Longrightarrow> n \<le> length F - k \<Longrightarrow> gather n c = Inr (take n (drop k F))"
  by (cases "n = 0") (auto simp: sending_body_def gather_def iov_read_def Let_def)

lemma advance_body:
  "sending_body F k c \<Longrightarrow> n \<le> length F - k \<Longrightarrow> sending_body F (k + n) (write_advance n c) \<and> m_linger (write_advance n c) = m_linger c"
  by (auto simp: sending_body_def write_advance_def Let_def)

lemma body_loop:
  assumes "sending_body F k c" and "k < length F" and "\<forall>n \<in> set ns. 0 < n" and "sum_list ns = length F - k"
  shows "\<exists>e. http_write_loop (map Wrote ns) out c = Inr (m_linger c, Some EPOLLIN, out @ drop k F, e)"
  using assms
proof (induction ns arbitrary: k c out)
  case (Cons n ns)
  have n: "n \<le> length F - k" "0 < n" using Cons.prems(3,4) by auto
  note adv = advance_body [OF Cons.prems(1) n(1)]
  have left: "m_bytes_to_send (write_advance n c) = int (length F) - int (k + n)" using adv by (simp add: sending_body_def)
  have addr: "m_linger (unmap (write_advance n c)) = m_linger c" using adv by (simp add: unmap_def split: option.splits)
  show ?case
  proof (cases "k + n = length F")
    case True
    then have "take n (drop k F) = drop k F" by simp
    with True left addr gather_body [OF Cons.prems(1) n(1)] show ?thesis by (auto simp: Let_def)
  next
    case False
    then have lt: "k + n < length F" using n Cons.prems(2) by simp
    have sum: "sum_list ns = length F - (k + n)" using Cons.prems(4) n by simp
    from Cons.IH [OF conjunct1 [OF adv] lt _ sum, of "out @ take n (drop k F)"] Cons.prems(3) obtain e where
      "http_write_loop (map Wrote ns) (out @ take n (drop k F)) (write_advance n c) =
        Inr (m_linger c, Some EPOLLIN, (out @ take n (drop k F)) @ drop (k + n) F, e)" using adv by auto
    moreover have "take n (drop k F) @ drop (k + n) F = drop k F"
      by (metis add.commute append_take_drop_id drop_drop)
    ultimately show ?thesis using lt left gather_body [OF Cons.prems(1) n(1)] by (simp add: Let_def)
  qed
qed simp

lemma gather_first:
  assumes "ready_to_send H F c" and "length H \<le> n" and "n \<le> length H + length F"
  shows "gather n c = Inr (H @ take (n - length H) F)"
proof -
  have "min n (length H) = length H" using assms(2) by simp
  then show ?thesis using assms by (auto simp: ready_to_send_def gather_def iov_read_def Let_def response_def)
qed

lemma advance_first:
  assumes "ready_to_send H F c" and "length H \<le> n" and "n \<le> length H + length F"
  shows "sending_body F (n - length H) (write_advance n c) \<and> m_linger (write_advance n c) = m_linger c"
  using assms by (auto simp: ready_to_send_def sending_body_def write_advance_def Let_def of_nat_diff)

lemma file_transfer:
  assumes rd: "ready_to_send H F c" and n1: "length H \<le> n1" and pos: "\<forall>n \<in> set ns. 0 < n"
    and sum: "n1 + sum_list ns = length H + length F" and F: "F \<noteq> []"
  shows "\<exists>e. http_write (map Wrote (n1 # ns)) c = Inr (m_linger c, Some EPOLLIN, H @ F, e)"
proof -
  let ?k = "n1 - length H"
  have le: "n1 \<le> length H + length F" using sum by simp
  note adv = advance_first [OF rd n1 le]
  have "m_bytes_to_send c = int (length H + length F)" using rd by (simp add: ready_to_send_def)
  moreover have "0 < length F" using F by simp
  ultimately have start: "m_bytes_to_send c \<noteq> 0" by linarith
  have left: "m_bytes_to_send (write_advance n1 c) = int (length F) - int ?k" using adv by (simp add: sending_body_def)
  have linger: "m_linger (unmap (write_advance n1 c)) = m_linger c" using adv by (simp add: unmap_def split: option.splits)
  show ?thesis
  proof (cases "?k = length F")
    case True
    with start left linger gather_first [OF rd n1 le] show ?thesis by (auto simp: http_write_def Let_def)
  next
    case False
    then have lt: "?k < length F" using le n1 by linarith
    have s: "sum_list ns = length F - ?k" using sum n1 by simp
    from body_loop [OF conjunct1 [OF adv] lt pos s, of "H @ take ?k F"] adv obtain e where
      "http_write_loop (map Wrote ns) (H @ take ?k F) (write_advance n1 c) = Inr (m_linger c, Some EPOLLIN, (H @ take ?k F) @ drop ?k F, e)"
      by auto
    then show ?thesis using start lt left gather_first [OF rd n1 le] by (simp add: http_write_def Let_def)
  qed
qed

text \<open>The second \<open>writev\<close> after a cut header: \<open>iov_len\<close> was reduced, the count was not.\<close>

lemma partial_header:
  assumes rd: "ready_to_send H F c" and n: "0 < n1" "n1 + n2 < length H" "length H \<le> 2 * n1 + n2" "0 < n3"
  shows "http_write [Wrote n1, Wrote n2, Wrote n3] c = Inl OutOfBounds"
proof -
  define c1 where "c1 = write_advance n1 c"
  define c2 where "c2 = write_advance n2 c1"
  have r: "length (m_write_buf c) \<ge> length H" "m_bytes_to_send c = int (length H + length F)" using rd by (simp_all add: ready_to_send_def)
  have c1: "m_iv0 c1 = \<lparr>iov_base = InWriteBuf n1, iov_len = length H - n1\<rparr>" "m_bytes_have_send c1 = int n1" "m_iv_count c1 = 2"
    "m_bytes_to_send c1 = int (length H + length F) - int n1" "m_write_index c1 = length H" "m_write_buf c1 = m_write_buf c"
    "m_file_address c1 = Some (Mapped F)"
    using rd n by (simp_all add: c1_def write_advance_def ready_to_send_def Let_def)
  have c2: "iov_len (m_iv0 c2) = 0" "m_iv1 c2 = \<lparr>iov_base = InFile (int n1 + int n2 - int (length H)), iov_len = length H + length F - n1 - n2\<rparr>"
    "m_iv_count c2 = 2" "m_bytes_to_send c2 = int (length H + length F) - int n1 - int n2" "m_file_address c2 = Some (Mapped F)"
    using c1 n by (simp_all add: c2_def write_advance_def Let_def)
  have g1: "\<exists>b. gather n1 c = Inr b"
    using rd n by (auto simp: gather_def iov_read_def ready_to_send_def Let_def)
  have g2: "\<exists>b. gather n2 c1 = Inr b"
    using c1 r(1) n by (auto simp: gather_def iov_read_def Let_def)
  have g3: "gather n3 c2 = Inl OutOfBounds"
    using c2 n by (simp add: gather_def iov_read_def Let_def)
  have "m_bytes_to_send c \<noteq> 0" "0 < m_bytes_to_send c1" "0 < m_bytes_to_send c2" using r(2) c1(4) c2(4) n by simp_all
  then show ?thesis
    using g1 g2 g3 by (auto simp: http_write_def Let_def c1_def [symmetric] c2_def [symmetric])
qed


section \<open>Properties\<close>


definition demo_file_conn :: http_conn where
  "demo_file_conn = demo_http\<lparr>m_file_address := Some (Mapped ''data''), m_file_stat := \<lparr>st_mode = 0x81A4, st_size = 4\<rparr>\<rparr>"

lemma demo_file_conn_facts:
  "wbuf_inv demo_file_conn" "m_write_index demo_file_conn = 0" "m_bytes_have_send demo_file_conn = 0"
  "m_bytes_to_send demo_file_conn = 0" "m_file_address demo_file_conn = Some (Mapped ''data'')"
  "st_size (m_file_stat demo_file_conn) = length ''data''" "m_linger demo_file_conn = False"
  by (simp_all add: demo_file_conn_def demo_http_def http_init_def wbuf_inv_def WRITE_BUFFER_SIZE_def)


text \<open>
  C21. When the first \<open>writev\<close> takes only part of the header and the second reaches the reduced
  \<open>iov_len\<close> but not the end of the header, \<open>write()\<close> believes the header is sent: the rest of the
  header is skipped and the next \<open>writev\<close> is given an address in front of the mapped file.
\<close>

theorem partial_header_misaddresses:
  assumes "wbuf_inv c" and "m_write_index c = 0" and "m_bytes_have_send c = 0"
    and "m_file_address c = Some (Mapped F)" and "st_size (m_file_stat c) = length F" and "length F < 2 ^ 30"
    and "- (2 ^ 31) \<le> ptr" and "ptr < 2 ^ 31"
    and "H = concat (header_text ptr 200 ok_200_title (int (length F)) (m_linger c))"
    and "0 < n1" and "n1 + n2 < length H" and "length H \<le> 2 * n1 + n2" and "0 < n3"
  shows "\<exists>d. process_write ptr FILE_REQUEST c = (True, d) \<and> http_write [Wrote n1, Wrote n2, Wrote n3] d = Inl OutOfBounds"
proof -
  from process_write_file [OF assms(1,2) _ assms(7,8)] assms(5,6,9) obtain d where
    d: "process_write ptr FILE_REQUEST c = (True, d)" "wbuf_inv d" "response d = H" "m_write_index d = length H"
      "m_iv0 d = \<lparr>iov_base = InWriteBuf 0, iov_len = length H\<rparr>" "m_iv1 d = \<lparr>iov_base = InFile 0, iov_len = length F\<rparr>"
      "m_iv_count d = 2" "m_bytes_to_send d = int (length H + length F)" "m_bytes_have_send d = m_bytes_have_send c"
      "m_file_address d = m_file_address c" by auto
  have "ready_to_send H F d"
    using d assms(3,4) by (simp add: ready_to_send_def wbuf_inv_def)
  from partial_header [OF this assms(10-13)] d(1) show ?thesis by blast
qed

theorem partial_header_misaddresses_witness:
  "\<exists>d. process_write 5 FILE_REQUEST demo_file_conn = (True, d) \<and> http_write [Wrote 60, Wrote 1, Wrote 1] d = Inl OutOfBounds"
proof -
  let ?H = "concat (header_text 5 200 ok_200_title 4 False)"
  have "length ?H = 73"
    by (simp add: header_text_def ok_200_title_def eol_def show_int_def show_nat.simps)
  from partial_header_misaddresses [OF demo_file_conn_facts(1,2,3,5,6), of 5 ?H 60 1 1] this demo_file_conn_facts(7)
  show ?thesis by simp
qed

text \<open>
  C22. Error responses are prepared and never sent: \<open>process_write\<close> prints the whole error page but
  leaves \<open>m_bytes_to_send\<close> at zero, so the following \<open>write()\<close> calls no \<open>writev\<close>, resets the
  connection and arms it for reading.
\<close>

theorem error_response_never_sent:
  assumes "wbuf_inv c" and "m_write_index c = 0" and "m_bytes_to_send c = 0" and "- (2 ^ 31) \<le> ptr" and "ptr < 2 ^ 31"
    and "ret \<in> {INTERNAL_ERROR, BAD_REQUEST, NO_RESOURCE, FORBIDDEN_REQUEST}"
  shows "\<exists>d. process_write ptr ret c = (True, d) \<and> response d \<noteq> [] \<and>
    http_write rs d = Inr (True, Some EPOLLIN, [], http_init d)"
  using process_write_error [OF assms(1,2,4,5,6)] assms(3) by (auto simp: http_write_def)

theorem error_response_never_sent_witness:
  "\<exists>d. process_write 5 NO_RESOURCE demo_file_conn = (True, d) \<and> http_write [Wrote 100] d = Inr (True, Some EPOLLIN, [], http_init d)"
  using error_response_never_sent [OF demo_file_conn_facts(1,2,4), of 5 NO_RESOURCE "[Wrote 100]"] by auto

end
