(* ===== verification/Threadpool.thy ===== *)
theory Threadpool
  imports Prelude
begin

text \<open>
  The thread pool of the older server, \<^verbatim>\<open>src/bck/include/threadpool.h\<close>, with the wrappers of
  \<^verbatim>\<open>src/bck/include/locker.h\<close> and \<^verbatim>\<open>src/bck/src/locker.cpp\<close>. The wrappers report the return code of the
  pthread call they make. The pool is a step relation: the appending thread and the workers, with
  a critical section as one step, since the lock serialises it. A request is a value of \<open>'a\<close>; null
  pointers are \<open>None\<close>.
\<close>

section \<open>Locks, conditions, semaphores\<close>

text \<open>Constructors throw when the initialising call fails; \<open>rc\<close> is what the call returned.\<close>

definition new_locker :: "int \<Rightarrow> unit result" where
  "new_locker rc = (if rc \<noteq> 0 then Inl StdException else Inr ())"

definition new_cond :: "int \<Rightarrow> unit result" where
  "new_cond rc = (if rc \<noteq> 0 then Inl StdException else Inr ())"

definition delete_cond :: "int \<Rightarrow> unit result" where
  "delete_cond rc = (if rc \<noteq> 0 then Inl StdException else Inr ())"

text \<open>\<open>sem::sem(num)\<close> starts the count at \<open>num\<close>, \<open>sem::sem()\<close> at 0.\<close>

definition new_sem :: "int \<Rightarrow> nat \<Rightarrow> nat result" where
  "new_sem rc num = (if rc \<noteq> 0 then Inl StdException else Inr num)"

text \<open>The destructor tests for success and throws then.\<close>

definition delete_sem :: "int \<Rightarrow> unit result" where
  "delete_sem rc = (if rc = 0 then Inl StdException else Inr ())"

text \<open>
  The other wrappers return whether the call they make returned 0. The destructor of the lock drops
  the code of \<open>pthread_mutex_destroy\<close>.
\<close>

definition call_ok :: "int \<Rightarrow> bool" where
  "call_ok rc = (rc = 0)"

definition delete_locker :: "int \<Rightarrow> unit result" where
  "delete_locker rc = Inr ()"

definition locker_unlock_ok :: "int \<Rightarrow> bool" where
  "locker_unlock_ok rc = call_ok rc"

definition cond_wait_ok :: "int \<Rightarrow> bool" where
  "cond_wait_ok rc = call_ok rc"

definition cond_timewait_ok :: "int \<Rightarrow> bool" where
  "cond_timewait_ok rc = call_ok rc"

definition cond_signal_ok :: "int \<Rightarrow> bool" where
  "cond_signal_ok rc = call_ok rc"

definition cond_broadcast_ok :: "int \<Rightarrow> bool" where
  "cond_broadcast_ok rc = call_ok rc"

definition new_sem_default :: "int \<Rightarrow> nat result" where
  "new_sem_default rc = new_sem rc 0"


section \<open>The pool\<close>

record 'a threadpool =
  m_thread_num :: int
  m_max_requests :: int
  m_workqueue :: "'a option list"
  m_queuestat :: nat
  m_stop :: bool

text \<open>
  The constructor: \<open>create\<close> and \<open>detach\<close> are what \<open>pthread_create\<close> and \<open>pthread_detach\<close> return
  for the threads in turn.
\<close>

definition new_threadpool :: "int \<Rightarrow> int \<Rightarrow> (nat \<Rightarrow> int) \<Rightarrow> (nat \<Rightarrow> int) \<Rightarrow> 'a threadpool result" where
  "new_threadpool thread_num max_requeues create detach =
     (if thread_num \<le> 0 \<or> max_requeues \<le> 0 then Inl StdException
      else if list_ex (\<lambda>i. create i \<noteq> 0 \<or> detach i \<noteq> 0) [0..<nat thread_num] then Inl StdException
      else Inr \<lparr>m_thread_num = thread_num, m_max_requests = max_requeues, m_workqueue = [], m_queuestat = 0, m_stop = False\<rparr>)"

text \<open>\<open>append\<close>: the part under the lock, and the \<open>post\<close> behind it.\<close>

definition append_locked :: "'a option \<Rightarrow> 'a threadpool \<Rightarrow> bool \<times> 'a threadpool" where
  "append_locked request p =
     (if int (length (m_workqueue p)) > m_max_requests p then (False, p)
      else (True, p\<lparr>m_workqueue := m_workqueue p @ [request]\<rparr>))"

definition sem_post :: "'a threadpool \<Rightarrow> 'a threadpool" where
  "sem_post p = p\<lparr>m_queuestat := m_queuestat p + 1\<rparr>"

definition threadpool_append :: "'a option \<Rightarrow> 'a threadpool \<Rightarrow> bool \<times> 'a threadpool" where
  "threadpool_append request p =
     (case append_locked request p of (ok, p1) \<Rightarrow> if ok then (True, sem_post p1) else (False, p1))"

text \<open>\<open>run\<close>: \<open>wait\<close>, then the part under the lock, which takes the oldest request or finds none.\<close>

definition sem_wait :: "'a threadpool \<Rightarrow> 'a threadpool option" where
  "sem_wait p = (if 0 < m_queuestat p then Some (p\<lparr>m_queuestat := m_queuestat p - 1\<rparr>) else None)"

definition take_locked :: "'a threadpool \<Rightarrow> 'a option option \<times> 'a threadpool" where
  "take_locked p =
     (case m_workqueue p of
        [] \<Rightarrow> (None, p)
      | r # rs \<Rightarrow> (Some r, p\<lparr>m_workqueue := rs\<rparr>))"

definition delete_threadpool :: "'a threadpool \<Rightarrow> 'a threadpool" where
  "delete_threadpool p = p\<lparr>m_stop := True\<rparr>"


section \<open>All threads together\<close>

text \<open>
  Where a worker is: at the test of \<open>m_stop\<close>, in \<open>wait\<close>, past it, in \<open>process()\<close> of a request, or at the
  end. \<open>unposted\<close> counts the appending threads between the unlock and the \<open>post\<close>; \<open>appended\<close> and
  \<open>processed\<close> record the requests accepted and those whose \<open>process()\<close> was entered (or, for a null
  pointer, skipped); \<open>idle_wakeups\<close> counts workers that found the queue empty.
\<close>

datatype 'a worker = AtTop | Waiting | Awake | Processing 'a | Finished

record 'a pool_state =
  pool :: "'a threadpool"
  workers :: "'a worker list"
  unposted :: nat
  appended :: "'a option list"
  processed :: "'a option list"
  idle_wakeups :: nat

inductive pool_step :: "'a pool_state \<Rightarrow> 'a pool_state \<Rightarrow> bool" where
  append_accept: "append_locked r (pool s) = (True, p) \<Longrightarrow>
     pool_step s (s\<lparr>pool := p, unposted := unposted s + 1, appended := appended s @ [r]\<rparr>)"
| append_refuse: "append_locked r (pool s) = (False, p) \<Longrightarrow> pool_step s (s\<lparr>pool := p\<rparr>)"
| append_post: "0 < unposted s \<Longrightarrow>
     pool_step s (s\<lparr>pool := sem_post (pool s), unposted := unposted s - 1\<rparr>)"
| worker_test: "i < length (workers s) \<Longrightarrow> workers s ! i = AtTop \<Longrightarrow> \<not> m_stop (pool s) \<Longrightarrow>
     pool_step s (s\<lparr>workers := (workers s)[i := Waiting]\<rparr>)"
| worker_wait: "i < length (workers s) \<Longrightarrow> workers s ! i = Waiting \<Longrightarrow> sem_wait (pool s) = Some p \<Longrightarrow>
     pool_step s (s\<lparr>pool := p, workers := (workers s)[i := Awake]\<rparr>)"
| worker_leave: "i < length (workers s) \<Longrightarrow> workers s ! i = AtTop \<Longrightarrow> m_stop (pool s) \<Longrightarrow>
     pool_step s (s\<lparr>workers := (workers s)[i := Finished]\<rparr>)"
| worker_empty: "i < length (workers s) \<Longrightarrow> workers s ! i = Awake \<Longrightarrow> take_locked (pool s) = (None, p) \<Longrightarrow>
     pool_step s (s\<lparr>pool := p, workers := (workers s)[i := AtTop], idle_wakeups := idle_wakeups s + 1\<rparr>)"
| worker_null: "i < length (workers s) \<Longrightarrow> workers s ! i = Awake \<Longrightarrow> take_locked (pool s) = (Some None, p) \<Longrightarrow>
     pool_step s (s\<lparr>pool := p, workers := (workers s)[i := AtTop], processed := processed s @ [None]\<rparr>)"
| worker_take: "i < length (workers s) \<Longrightarrow> workers s ! i = Awake \<Longrightarrow> take_locked (pool s) = (Some (Some r), p) \<Longrightarrow>
     pool_step s (s\<lparr>pool := p, workers := (workers s)[i := Processing r], processed := processed s @ [Some r]\<rparr>)"
| worker_done: "i < length (workers s) \<Longrightarrow> workers s ! i = Processing r \<Longrightarrow>
     pool_step s (s\<lparr>workers := (workers s)[i := AtTop]\<rparr>)"
| pool_deleted: "pool_step s (s\<lparr>pool := delete_threadpool (pool s)\<rparr>)"

definition pool_init :: "'a threadpool \<Rightarrow> 'a pool_state" where
  "pool_init p = \<lparr>pool = p, workers = replicate (nat (m_thread_num p)) AtTop, unposted = 0, appended = [],
     processed = [], idle_wakeups = 0\<rparr>"

inductive pool_reachable :: "'a threadpool \<Rightarrow> 'a pool_state \<Rightarrow> bool" for p0 where
  pool_begin: "pool_reachable p0 (pool_init p0)"
| pool_more: "pool_reachable p0 s \<Longrightarrow> pool_step s s' \<Longrightarrow> pool_reachable p0 s'"

definition awake :: "'a worker list \<Rightarrow> nat" where
  "awake ws = length (filter (\<lambda>w. w = Awake) ws)"

text \<open>
  Every request in the queue is announced exactly once: by the semaphore, by a worker that has
  taken the announcement, or by an appending thread that is about to post.
\<close>

definition pool_state_inv :: "'a threadpool \<Rightarrow> 'a pool_state \<Rightarrow> bool" where
  "pool_state_inv p0 s \<longleftrightarrow>
     length (m_workqueue (pool s)) = m_queuestat (pool s) + awake (workers s) + unposted s \<and>
     processed s @ m_workqueue (pool s) = appended s \<and>
     int (length (m_workqueue (pool s))) \<le> m_max_requests p0 + 1 \<and>
     m_max_requests (pool s) = m_max_requests p0 \<and> idle_wakeups s = 0 \<and> length (workers s) = nat (m_thread_num p0) \<and>
     (\<not> m_stop (pool s) \<longrightarrow> Finished \<notin> set (workers s))"

lemma awake_simps [simp]: "awake [] = 0" "awake (w # ws) = (if w = Awake then Suc (awake ws) else awake ws)"
  by (simp_all add: awake_def)

lemma awake_update:
  "i < length ws \<Longrightarrow> awake (ws[i := w]) + (if ws ! i = Awake then 1 else 0) = awake ws + (if w = Awake then 1 else 0)"
proof (induction ws arbitrary: i)
  case (Cons x xs)
  show ?case
  proof (cases i)
    case (Suc j)
    with Cons.IH [of j] Cons.prems show ?thesis by auto
  qed simp
qed simp

lemma awake_set:
  "i < length ws \<Longrightarrow> ws ! i = Awake \<Longrightarrow> w \<noteq> Awake \<Longrightarrow> Suc (awake (ws[i := w])) = awake ws"
  "i < length ws \<Longrightarrow> ws ! i \<noteq> Awake \<Longrightarrow> awake (ws[i := Awake]) = Suc (awake ws)"
  "i < length ws \<Longrightarrow> ws ! i \<noteq> Awake \<Longrightarrow> w \<noteq> Awake \<Longrightarrow> awake (ws[i := w]) = awake ws"
  using awake_update [of i ws w] awake_update [of i ws Awake] by simp_all

lemma awake_replicate [simp]: "awake (replicate n AtTop) = 0"
  by (simp add: awake_def)

lemma pool_inv_start:
  assumes "new_threadpool n m create detach = Inr p0"
  shows "pool_state_inv p0 (pool_init p0)"
  using assms by (auto simp: new_threadpool_def pool_state_inv_def pool_init_def split: if_splits)

lemma awake_nonempty: "pool_state_inv p0 s \<Longrightarrow> i < length (workers s) \<Longrightarrow> workers s ! i = Awake \<Longrightarrow> m_workqueue (pool s) \<noteq> []"
  using awake_set(1) [of i "workers s" AtTop] by (auto simp: pool_state_inv_def)

lemma Finished_update: "Finished \<in> set (ws[i := w]) \<Longrightarrow> w \<noteq> Finished \<Longrightarrow> Finished \<in> set ws"
  using set_update_subset_insert [of ws i w] by auto

lemma pool_inv_step: "pool_step s s' \<Longrightarrow> pool_state_inv p0 s \<Longrightarrow> pool_state_inv p0 s'"
proof (induction rule: pool_step.induct)
  case (worker_wait i s p)
  then show ?case
    using awake_set(2) [of i "workers s"] by (auto simp: pool_state_inv_def sem_wait_def split: if_splits dest: Finished_update)
next
  case (worker_empty i s p)
  with awake_nonempty show ?case by (fastforce simp: take_locked_def split: list.splits)
next
  case (worker_null i s p)
  then show ?case
    using awake_set(1) [of i "workers s" AtTop] by (auto simp: pool_state_inv_def take_locked_def split: list.splits dest: Finished_update)
next
  case (worker_take i s r p)
  then show ?case
    using awake_set(1) [of i "workers s" "Processing r"] by (auto simp: pool_state_inv_def take_locked_def split: list.splits dest: Finished_update)
next
  case (worker_test i s)
  then show ?case
    using awake_set(3) [of i "workers s" Waiting] by (auto simp: pool_state_inv_def dest: Finished_update)
next
  case (worker_leave i s)
  then show ?case using awake_set(3) [of i "workers s" Finished] by (auto simp: pool_state_inv_def)
next
  case (worker_done i s r)
  then show ?case using awake_set(3) [of i "workers s" AtTop] by (auto simp: pool_state_inv_def dest: Finished_update)
qed (auto simp: pool_state_inv_def append_locked_def sem_post_def delete_threadpool_def split: if_splits)

lemma pool_reachable_inv:
  assumes "pool_reachable p0 s" and "new_threadpool n m create detach = Inr p0"
  shows "pool_state_inv p0 s"
  using assms(1)
proof (induction rule: pool_reachable.induct)
  case pool_begin
  from assms(2) show ?case by (rule pool_inv_start)
next
  case (pool_more s s')
  then show ?case by (blast intro: pool_inv_step)
qed


section \<open>The queue empties\<close>

text \<open>What a run of the workers alone leaves as it is.\<close>

definition only_workers :: "'a pool_state \<Rightarrow> 'a pool_state \<Rightarrow> bool" where
  "only_workers s s' \<longleftrightarrow> pool_step\<^sup>*\<^sup>* s s' \<and> appended s' = appended s \<and> m_stop (pool s') = m_stop (pool s)"

lemma only_workers_refl: "only_workers s s"
  by (simp add: only_workers_def)

lemma only_workers_trans: "only_workers s s1 \<Longrightarrow> only_workers s1 s2 \<Longrightarrow> only_workers s s2"
  by (auto simp: only_workers_def)

lemma only_workers_step:
  "pool_step s s' \<Longrightarrow> appended s' = appended s \<Longrightarrow> m_stop (pool s') = m_stop (pool s) \<Longrightarrow> only_workers s s'"
  by (auto simp: only_workers_def)

lemma only_workers_inv: "only_workers s s' \<Longrightarrow> pool_state_inv p0 s \<Longrightarrow> pool_state_inv p0 s'"
proof -
  have "pool_step\<^sup>*\<^sup>* s s' \<Longrightarrow> pool_state_inv p0 s \<Longrightarrow> pool_state_inv p0 s'"
    by (induction rule: rtranclp_induct) (auto intro: pool_inv_step)
  then show "only_workers s s' \<Longrightarrow> pool_state_inv p0 s \<Longrightarrow> pool_state_inv p0 s'" by (simp add: only_workers_def)
qed

text \<open>A worker that is not past \<open>wait\<close> can get there to wait.\<close>

lemma worker_gets_to_wait:
  assumes i: "i < length (workers s)" and not: "workers s ! i \<noteq> Awake" "workers s ! i \<noteq> Finished" and run: "\<not> m_stop (pool s)"
  shows "\<exists>s'. only_workers s s' \<and> workers s' = (workers s)[i := Waiting] \<and> pool s' = pool s \<and> unposted s' = unposted s"
proof -
  have top: "\<exists>s'. only_workers t s' \<and> workers s' = (workers t)[i := Waiting] \<and> pool s' = pool t \<and> unposted s' = unposted t"
    if "i < length (workers t)" "workers t ! i = AtTop" "\<not> m_stop (pool t)" for t
    using pool_step.worker_test [OF that] by (intro exI conjI, rule only_workers_step) auto
  show ?thesis
  proof (cases "workers s ! i")
    case AtTop
    then show ?thesis using top [OF i] run by blast
  next
    case Waiting
    then have "(workers s)[i := Waiting] = workers s" by (metis list_update_id)
    then show ?thesis using only_workers_refl by metis
  next
    case (Processing r)
    let ?t = "s\<lparr>workers := (workers s)[i := AtTop]\<rparr>"
    have "only_workers s ?t" using pool_step.worker_done [OF i Processing] by (rule only_workers_step) simp_all
    moreover obtain s' where "only_workers ?t s'" "workers s' = (workers s)[i := Waiting]" "pool s' = pool s" "unposted s' = unposted s"
      using top [of ?t] i run by auto
    ultimately show ?thesis by (blast intro: only_workers_trans)
  qed (use not in simp_all)
qed

text \<open>Some worker can be brought past \<open>wait\<close> while there is a request.\<close>

lemma some_worker_awakes:
  assumes inv: "pool_state_inv p0 s" and run: "\<not> m_stop (pool s)" and work: "m_workqueue (pool s) \<noteq> []"
    and n: "0 < m_thread_num p0"
  shows "\<exists>s' i. only_workers s s' \<and> i < length (workers s') \<and> workers s' ! i = Awake \<and> m_workqueue (pool s') = m_workqueue (pool s)"
proof (cases "\<exists>i < length (workers s). workers s ! i = Awake")
  case True
  then show ?thesis using only_workers_refl by blast
next
  case False
  then have none: "awake (workers s) = 0" by (auto simp: awake_def filter_empty_conv in_set_conv_nth)
  have posted: "\<exists>s1. only_workers s s1 \<and> workers s1 = workers s \<and> m_workqueue (pool s1) = m_workqueue (pool s) \<and>
      0 < m_queuestat (pool s1) \<and> \<not> m_stop (pool s1)"
  proof (cases "0 < m_queuestat (pool s)")
    case True
    then show ?thesis using only_workers_refl run by blast
  next
    case False
    with inv none have "length (m_workqueue (pool s)) = unposted s" by (simp add: pool_state_inv_def)
    with work have "0 < unposted s" by (metis length_greater_0_conv)
    from only_workers_step [OF pool_step.append_post [OF this]] run show ?thesis
      by (intro exI [of _ "s\<lparr>pool := sem_post (pool s), unposted := unposted s - 1\<rparr>"]) (simp add: sem_post_def)
  qed
  then obtain s1 where s1: "only_workers s s1" "workers s1 = workers s" "m_workqueue (pool s1) = m_workqueue (pool s)"
      "0 < m_queuestat (pool s1)" "\<not> m_stop (pool s1)" by blast
  have i0: "0 < length (workers s1)" using inv n s1(2) by (simp add: pool_state_inv_def)
  have mem: "workers s1 ! 0 \<in> set (workers s)" using i0 s1(2) by (metis nth_mem)
  have "Finished \<notin> set (workers s)" using inv run by (simp add: pool_state_inv_def)
  with mem have "workers s1 ! 0 \<noteq> Finished" by metis
  moreover have "workers s1 ! 0 \<noteq> Awake" using False i0 s1(2) by metis
  ultimately have "workers s1 ! 0 \<noteq> Finished" "workers s1 ! 0 \<noteq> Awake" .
  from worker_gets_to_wait [OF i0 this(2,1) s1(5)] obtain s2 where
    s2: "only_workers s1 s2" "workers s2 = (workers s1)[0 := Waiting]" "pool s2 = pool s1" by blast
  obtain p where p: "sem_wait (pool s2) = Some p" "m_workqueue p = m_workqueue (pool s2)" "m_stop p = m_stop (pool s2)"
    using s1(4) s2(3) by (simp add: sem_wait_def)
  let ?s3 = "s2\<lparr>pool := p, workers := (workers s2)[0 := Awake]\<rparr>"
  have "only_workers s2 ?s3"
    by (rule only_workers_step [OF pool_step.worker_wait [of 0, OF _ _ p(1)]]) (use i0 s2(2) p(3) in simp_all)
  with s1(1) s2(1) have "only_workers s ?s3" by (blast intro: only_workers_trans)
  then show ?thesis using i0 s1(3) s2(2,3) p(2) by (intro exI [of _ ?s3] exI [of _ 0]) simp
qed

lemma one_request_less:
  assumes "pool_state_inv p0 s" and "\<not> m_stop (pool s)" and "m_workqueue (pool s) = r # rs" and "0 < m_thread_num p0"
  shows "\<exists>s'. only_workers s s' \<and> m_workqueue (pool s') = rs"
proof -
  from some_worker_awakes [OF assms(1,2) _ assms(4)] assms(3) obtain s1 i where
    s1: "only_workers s s1" "i < length (workers s1)" "workers s1 ! i = Awake" "m_workqueue (pool s1) = r # rs" by auto
  let ?p = "(pool s1)\<lparr>m_workqueue := rs\<rparr>"
  have t: "take_locked (pool s1) = (Some r, ?p)" using s1(4) by (simp add: take_locked_def)
  have "\<exists>s2. only_workers s1 s2 \<and> pool s2 = ?p"
  proof (cases r)
    case None
    with only_workers_step [OF pool_step.worker_null [OF s1(2,3)], of ?p] t show ?thesis by fastforce
  next
    case (Some q)
    with only_workers_step [OF pool_step.worker_take [OF s1(2,3)], of q ?p] t show ?thesis by fastforce
  qed
  then obtain s2 where "only_workers s1 s2" "m_workqueue (pool s2) = rs" by fastforce
  with s1(1) show ?thesis by (blast intro: only_workers_trans)
qed

lemma workers_drain:
  assumes "pool_state_inv p0 s" and "\<not> m_stop (pool s)" and "0 < m_thread_num p0"
  shows "\<exists>s'. only_workers s s' \<and> m_workqueue (pool s') = []"
  using assms
proof (induction "m_workqueue (pool s)" arbitrary: s)
  case Nil
  then show ?case using only_workers_refl by metis
next
  case (Cons r rs)
  from one_request_less [OF Cons.prems(1,2) Cons.hyps(2) [symmetric] Cons.prems(3)] obtain s1 where
    s1: "only_workers s s1" "m_workqueue (pool s1) = rs" by blast
  have "\<not> m_stop (pool s1)" using s1(1) Cons.prems(2) by (simp add: only_workers_def)
  from Cons.hyps(1) [OF s1(2) [symmetric] only_workers_inv [OF s1(1) Cons.prems(1)] this Cons.prems(3)] s1(1)
  show ?case by (blast intro: only_workers_trans)
qed


section \<open>Properties\<close>

text \<open>
  C24. The pool loses and repeats nothing. In every interleaving of appending threads and workers:
  the requests taken by workers followed by those in the queue are the requests accepted, in
  order; the queue never holds more than \<open>m_max_requests + 1\<close> requests (the test is \<open>>\<close>); a worker
  that comes back from the semaphore always finds a request; and the constructor accepts exactly
  positive sizes with all threads started.
\<close>

theorem threadpool_fifo_bounded:
  assumes "new_threadpool n m create detach = Inr p0" and "pool_reachable p0 s"
  shows "processed s @ m_workqueue (pool s) = appended s \<and> int (length (m_workqueue (pool s))) \<le> m + 1 \<and>
    idle_wakeups s = 0 \<and> m_queuestat (pool s) + awake (workers s) + unposted s = length (m_workqueue (pool s))"
  using pool_reachable_inv [OF assms(2,1)] assms(1)
  by (auto simp: pool_state_inv_def new_threadpool_def split: if_splits)

text \<open>
  C25. The pool cannot get stuck with work. From every state that any interleaving of appending threads
  and workers reaches, as long as the pool is not deleted, the threads at hand can go on, without any
  further \<open>append\<close>, to a state with an empty queue in which every request ever accepted has been
  taken by a worker, in the order of acceptance: no wake-up is lost between the test of \<open>m_stop\<close>, the
  semaphore and the lock.
\<close>

theorem threadpool_drains:
  assumes "new_threadpool n m create detach = Inr p0" and "pool_reachable p0 s" and "\<not> m_stop (pool s)"
  shows "\<exists>s'. pool_step\<^sup>*\<^sup>* s s' \<and> m_workqueue (pool s') = [] \<and> appended s' = appended s \<and> processed s' = appended s"
proof -
  from assms(1,2) have inv: "pool_state_inv p0 s" by (blast intro: pool_reachable_inv)
  have n: "0 < m_thread_num p0" using assms(1) by (auto simp: new_threadpool_def split: if_splits)
  obtain s' where s': "only_workers s s'" "m_workqueue (pool s') = []" using workers_drain [OF inv assms(3) n] by blast
  from only_workers_inv [OF s'(1) inv] s'(2) have "processed s' = appended s'" by (simp add: pool_state_inv_def)
  with s' show ?thesis by (auto simp: only_workers_def)
qed

definition demo_pool :: "nat threadpool" where
  "demo_pool = \<lparr>m_thread_num = 8, m_max_requests = 1, m_workqueue = [], m_queuestat = 0, m_stop = False\<rparr>"

lemma demo_pool_new: "new_threadpool 8 1 (\<lambda>i. 0) (\<lambda>i. 0) = Inr demo_pool"
  by (simp add: new_threadpool_def demo_pool_def list_ex_iff)

text \<open>With a limit of one, two requests are accepted.\<close>

lemma demo_pool_two:
  "pool_reachable demo_pool ((pool_init demo_pool)\<lparr>pool := demo_pool\<lparr>m_workqueue := [Some 5, Some 6]\<rparr>, unposted := 2,
     appended := [Some 5, Some 6]\<rparr>)"
proof -
  let ?s = "pool_init demo_pool"
  have "append_locked (Some 5) (pool ?s) = (True, demo_pool\<lparr>m_workqueue := [Some 5]\<rparr>)"
    by (simp add: append_locked_def pool_init_def demo_pool_def)
  from pool_step.append_accept [OF this] pool_begin have
    "pool_reachable demo_pool (?s\<lparr>pool := demo_pool\<lparr>m_workqueue := [Some 5]\<rparr>, unposted := 1, appended := [Some 5]\<rparr>)"
    using pool_more by (fastforce simp: pool_init_def)
  moreover have "append_locked (Some 6) (demo_pool\<lparr>m_workqueue := [Some 5]\<rparr>) = (True, demo_pool\<lparr>m_workqueue := [Some 5, Some 6]\<rparr>)"
    by (simp add: append_locked_def demo_pool_def)
  ultimately show ?thesis
    using pool_more [OF _ pool_step.append_accept] by (fastforce simp: numeral_2_eq_2)
qed

theorem threadpool_fifo_bounded_witness:
  "\<exists>s. pool_reachable demo_pool s \<and> length (m_workqueue (pool s)) = 2 \<and> processed s @ m_workqueue (pool s) = appended s"
  using threadpool_fifo_bounded [OF demo_pool_new demo_pool_two] demo_pool_two by fastforce

theorem threadpool_drains_witness:
  "\<exists>s s'. pool_reachable demo_pool s \<and> processed s = [] \<and> pool_step\<^sup>*\<^sup>* s s' \<and> processed s' = [Some 5, Some 6]"
  using threadpool_drains [OF demo_pool_new demo_pool_two] demo_pool_two by (fastforce simp: pool_init_def demo_pool_def)

end
