(* ===== verification/Http_Server.thy ===== *)
theory Http_Server
  imports Http_Write Threadpool
begin

text \<open>
  The older server as a whole: the \<open>epoll\<close> helpers and \<open>process()\<close> of
  \<^verbatim>\<open>src/bck/src/http_conn.cpp\<close>, and the loop of \<^verbatim>\<open>src/bck/src/main.cpp\<close>. The world holds the array
  \<open>users\<close>, the interest list of \<open>m_epollfd\<close>, the user count, the pool and the descriptors closed.
  An entry with \<open>EPOLLONESHOT\<close> is disabled by the kernel when it has reported once; that is what
  keeps the main thread and the workers apart, and it is modelled as a step relation.
\<close>

unbundle bit_operations_syntax

definition MAX_FD :: int where "MAX_FD = 65355"
definition MAX_EVENT_NUM :: int where "MAX_EVENT_NUM = 10000"

record http_world =
  users :: "fd \<Rightarrow> http_conn"
  m_epoll :: interest
  m_user_count :: int
  nonblocking :: "fd set"
  closed_fds :: "fd list"
  task_pool :: "fd threadpool"


section \<open>The helpers\<close>

definition setnonblock :: "fd \<Rightarrow> http_world \<Rightarrow> http_world" where
  "setnonblock fd w = w\<lparr>nonblocking := insert fd (nonblocking w)\<rparr>"

text \<open>The mask of \<open>addfd\<close>: the assignment behind the \<open>if\<close> overwrites the edge-triggered one.\<close>

definition addfd_events :: "bool \<Rightarrow> bool \<Rightarrow> events" where
  "addfd_events oneshot et =
     (let e0 = (if et then EPOLLIN OR EPOLLRDHUP OR EPOLLET else 0); e1 = EPOLLIN OR EPOLLRDHUP
      in if oneshot then e1 OR EPOLLONESHOT else e1)"

definition addfd :: "fd \<Rightarrow> bool \<Rightarrow> bool \<Rightarrow> http_world \<Rightarrow> http_world" where
  "addfd fd oneshot et w =
     setnonblock fd (w\<lparr>m_epoll := snd (epoll_ctl (m_epoll w) EPOLL_CTL_ADD fd (addfd_events oneshot et, nat fd))\<rparr>)"

definition rmfd :: "fd \<Rightarrow> http_world \<Rightarrow> http_world" where
  "rmfd fd w = w\<lparr>m_epoll := snd (epoll_ctl (m_epoll w) EPOLL_CTL_DEL fd (0, 0)), closed_fds := closed_fds w @ [fd]\<rparr>"

definition modfd_events :: "events \<Rightarrow> events" where
  "modfd_events ev = ev OR EPOLLONESHOT OR EPOLLRDHUP"

definition modfd :: "fd \<Rightarrow> events \<Rightarrow> http_world \<Rightarrow> http_world" where
  "modfd fd ev w = w\<lparr>m_epoll := snd (epoll_ctl (m_epoll w) EPOLL_CTL_MOD fd (modfd_events ev, nat fd))\<rparr>"

definition upd_user :: "fd \<Rightarrow> http_conn \<Rightarrow> http_world \<Rightarrow> http_world" where
  "upd_user u c w = w\<lparr>users := (users w)(u := c)\<rparr>"

text \<open>\<open>init(sockfd, addr)\<close> does not call \<open>init()\<close>: the parser members keep their old values.\<close>

definition http_conn_init :: "fd \<Rightarrow> fd \<Rightarrow> sockaddr_in \<Rightarrow> http_world \<Rightarrow> http_world" where
  "http_conn_init u sockfd addr w =
     (let w1 = upd_user u ((users w u)\<lparr>m_sockfd := sockfd, m_address := addr\<rparr>) w;
          w2 = addfd sockfd True True w1
      in w2\<lparr>m_user_count := m_user_count w2 + 1\<rparr>)"

definition close_conn :: "fd \<Rightarrow> http_world \<Rightarrow> http_world" where
  "close_conn u w =
     (let c = users w u in
      if m_sockfd c \<noteq> -1 then
        let w1 = upd_user u (c\<lparr>m_sockfd := -1\<rparr>) (rmfd (m_sockfd c) w) in w1\<lparr>m_user_count := m_user_count w1 - 1\<rparr>
      else w)"


section \<open>process() and the main loop\<close>

definition http_process :: "file_system \<Rightarrow> int \<Rightarrow> fd \<Rightarrow> http_world \<Rightarrow> http_world result" where
  "http_process fs ptr u w =
     then_do (process_read fs (users w u)) (\<lambda>(read_ret, c).
       if read_ret = NO_REQUEST then Inr (modfd (m_sockfd c) EPOLLIN (upd_user u c w))
       else
         let (write_ret, c1) = process_write ptr read_ret c;
             w1 = upd_user u c1 w;
             w2 = (if \<not> write_ret then close_conn u w1 else w1)
         in Inr (modfd (m_sockfd (users w2 u)) EPOLLOUT w2))"

definition apply_write :: "fd \<Rightarrow> write_outcome \<Rightarrow> http_world \<Rightarrow> bool \<times> http_world" where
  "apply_write u out w =
     (case out of (ret, ev, bytes, c) \<Rightarrow>
        let fd = m_sockfd (users w u); w1 = upd_user u c w
        in (ret, case ev of Some e \<Rightarrow> modfd fd e w1 | None \<Rightarrow> w1))"

text \<open>
  One entry of the event array: its descriptor and events, and the answers of the system calls
  its branch makes. An index outside \<open>users\<close> is a fault; the result of \<open>accept\<close> is used as it is,
  and that of \<open>append\<close> is ignored.
\<close>

record main_event =
  ev_fd :: fd
  ev_events :: events
  accepted :: "fd \<times> sockaddr_in"
  recvs :: "read_result list"
  writevs :: "write_result list"

definition in_users :: "fd \<Rightarrow> bool" where
  "in_users u = (0 \<le> u \<and> u < MAX_FD)"

definition main_event_step :: "fd \<Rightarrow> main_event \<Rightarrow> http_world \<Rightarrow> http_world result" where
  "main_event_step lfd ev w =
     (let sockfd = ev_fd ev; events = ev_events ev in
      if sockfd = lfd then
        (case accepted ev of (connfd, client_address) \<Rightarrow>
           if m_user_count w \<ge> MAX_FD then Inr (w\<lparr>closed_fds := closed_fds w @ [connfd]\<rparr>)
           else if in_users connfd then Inr (http_conn_init connfd connfd client_address w) else Inl OutOfBounds)
      else if \<not> in_users sockfd then Inl OutOfBounds
      else if events AND (EPOLLRDHUP OR EPOLLHUP OR EPOLLERR) \<noteq> 0 then Inr (close_conn sockfd w)
      else if events AND EPOLLIN \<noteq> 0 then
        (case http_read (recvs ev) (users w sockfd) of (ok, c) \<Rightarrow>
           let w1 = upd_user sockfd c w in
           Inr (if ok then w1\<lparr>task_pool := snd (threadpool_append (Some sockfd) (task_pool w1))\<rparr> else close_conn sockfd w1))
      else if events AND EPOLLOUT \<noteq> 0 then
        then_do (http_write (writevs ev) (users w sockfd)) (\<lambda>out.
          case apply_write sockfd out w of (ok, w1) \<Rightarrow> Inr (if \<not> ok then close_conn sockfd w1 else w1))
      else Inr w)"

definition main_round :: "fd \<Rightarrow> main_event list \<Rightarrow> http_world \<Rightarrow> http_world result" where
  "main_round lfd evs w = fold_result (main_event_step lfd) evs w"


section \<open>One descriptor, one thread\<close>

text \<open>
  An entry reports while one of its event bits is set; with \<open>EPOLLONESHOT\<close> the report clears them.
\<close>

definition event_bits :: "events \<Rightarrow> events" where
  "event_bits e = e AND NOT (EPOLLONESHOT OR EPOLLET)"

definition armed :: "interest \<Rightarrow> fd \<Rightarrow> bool" where
  "armed i fd = (case i fd of None \<Rightarrow> False | Some (e, d) \<Rightarrow> event_bits e \<noteq> 0)"

definition report :: "interest \<Rightarrow> fd \<Rightarrow> interest" where
  "report i fd =
     (case i fd of
        None \<Rightarrow> i
      | Some (e, d) \<Rightarrow> if e AND EPOLLONESHOT \<noteq> 0 then i(fd \<mapsto> (e AND (EPOLLONESHOT OR EPOLLET), d)) else i)"

text \<open>
  Who holds the connection of descriptor \<open>fd\<close>: the kernel, the main thread after a report, the
  queue, a worker, nobody after a refused append, nobody after \<open>close\<close>.
\<close>

datatype owner = WithKernel | InMain | InQueue | InWorker | Dropped | Gone

record oneshot_state =
  ep :: interest
  holder :: owner

definition ep_mod :: "fd \<Rightarrow> events \<Rightarrow> interest \<Rightarrow> interest" where
  "ep_mod fd ev i = snd (epoll_ctl i EPOLL_CTL_MOD fd (modfd_events ev, nat fd))"

inductive oneshot_step :: "fd \<Rightarrow> oneshot_state \<Rightarrow> oneshot_state \<Rightarrow> bool" for fd where
  kernel_report: "armed (ep s) fd \<Longrightarrow> oneshot_step fd s (s\<lparr>ep := report (ep s) fd, holder := InMain\<rparr>)"
| main_append: "holder s = InMain \<Longrightarrow> oneshot_step fd s (s\<lparr>holder := InQueue\<rparr>)"
| main_refused: "holder s = InMain \<Longrightarrow> oneshot_step fd s (s\<lparr>holder := Dropped\<rparr>)"
| main_rearm: "holder s = InMain \<Longrightarrow> oneshot_step fd s (s\<lparr>ep := ep_mod fd ev (ep s), holder := WithKernel\<rparr>)"
| main_close: "holder s = InMain \<Longrightarrow> oneshot_step fd s (s\<lparr>ep := (ep s)(fd := None), holder := Gone\<rparr>)"
| worker_takes: "holder s = InQueue \<Longrightarrow> oneshot_step fd s (s\<lparr>holder := InWorker\<rparr>)"
| worker_rearm: "holder s = InWorker \<Longrightarrow> oneshot_step fd s (s\<lparr>ep := ep_mod fd ev (ep s), holder := WithKernel\<rparr>)"
| worker_close: "holder s = InWorker \<Longrightarrow> oneshot_step fd s (s\<lparr>ep := (ep s)(fd := None), holder := Gone\<rparr>)"

inductive_simps dropped_step: "oneshot_step fd \<lparr>ep = i, holder = Dropped\<rparr> s'"

definition oneshot_start :: "fd \<Rightarrow> oneshot_state" where
  "oneshot_start fd = \<lparr>ep = [fd \<mapsto> (addfd_events True True, nat fd)], holder = WithKernel\<rparr>"

inductive oneshot_reachable :: "fd \<Rightarrow> oneshot_state \<Rightarrow> bool" for fd where
  oneshot_begin: "oneshot_reachable fd (oneshot_start fd)"
| oneshot_more: "oneshot_reachable fd s \<Longrightarrow> oneshot_step fd s s' \<Longrightarrow> oneshot_reachable fd s'"

definition oneshot_inv :: "fd \<Rightarrow> oneshot_state \<Rightarrow> bool" where
  "oneshot_inv fd s \<longleftrightarrow>
     (holder s = WithKernel \<longrightarrow> armed (ep s) fd) \<and> (holder s \<noteq> WithKernel \<longrightarrow> \<not> armed (ep s) fd) \<and>
     (case ep s fd of None \<Rightarrow> holder s = Gone | Some (e, d) \<Rightarrow> e AND EPOLLONESHOT \<noteq> 0)"

lemma event_bits_kept: "event_bits (e AND (EPOLLONESHOT OR EPOLLET)) = 0"
  by (rule bit_word_eqI) (auto simp: event_bits_def bit_simps)

lemma oneshot_kept: "e AND EPOLLONESHOT \<noteq> 0 \<Longrightarrow> (e AND (EPOLLONESHOT OR EPOLLET)) AND EPOLLONESHOT \<noteq> 0"
proof -
  have "(e AND (EPOLLONESHOT OR EPOLLET)) AND EPOLLONESHOT = e AND EPOLLONESHOT"
    by (rule bit_word_eqI) (auto simp: bit_simps)
  then show "e AND EPOLLONESHOT \<noteq> 0 \<Longrightarrow> (e AND (EPOLLONESHOT OR EPOLLET)) AND EPOLLONESHOT \<noteq> 0" by simp
qed

lemma modfd_events_bits: "event_bits (modfd_events ev) \<noteq> 0" "modfd_events ev AND EPOLLONESHOT \<noteq> 0"
proof -
  have "event_bits (modfd_events ev) AND EPOLLRDHUP = EPOLLRDHUP AND NOT (EPOLLONESHOT OR EPOLLET)"
    by (rule bit_word_eqI) (auto simp: event_bits_def modfd_events_def bit_simps)
  then show "event_bits (modfd_events ev) \<noteq> 0" by (auto simp: epoll_bits)
  have "modfd_events ev AND EPOLLONESHOT = EPOLLONESHOT"
    by (rule bit_word_eqI) (auto simp: modfd_events_def bit_simps)
  then show "modfd_events ev AND EPOLLONESHOT \<noteq> 0" by (simp add: epoll_bits)
qed

lemma addfd_events_bits: "event_bits (addfd_events True et) \<noteq> 0" "addfd_events True et AND EPOLLONESHOT \<noteq> 0"
  by (simp_all add: addfd_events_def event_bits_def epoll_bits Let_def)

lemma oneshot_inv_start: "oneshot_inv fd (oneshot_start fd)"
  by (simp add: oneshot_inv_def oneshot_start_def armed_def addfd_events_bits)

lemma oneshot_inv_step: "oneshot_step fd s s' \<Longrightarrow> oneshot_inv fd s \<Longrightarrow> oneshot_inv fd s'"
proof (induction rule: oneshot_step.induct)
  case (kernel_report s)
  then show ?case
    by (auto simp: oneshot_inv_def armed_def report_def event_bits_kept oneshot_kept split: option.splits)
qed (auto simp: oneshot_inv_def armed_def ep_mod_def epoll_ctl_def modfd_events_bits split: option.splits)

lemma oneshot_reachable_inv: "oneshot_reachable fd s \<Longrightarrow> oneshot_inv fd s"
  by (induction rule: oneshot_reachable.induct) (auto intro: oneshot_inv_start oneshot_inv_step)


section \<open>Properties\<close>


lemma first_report:
  "oneshot_reachable fd \<lparr>ep = report [fd \<mapsto> (addfd_events True True, nat fd)] fd, holder = InMain\<rparr>"
proof -
  have "armed (ep (oneshot_start fd)) fd" by (simp add: oneshot_start_def armed_def addfd_events_bits)
  from oneshot_more [OF oneshot_begin kernel_report [OF this]] show ?thesis by (simp add: oneshot_start_def)
qed


text \<open>
  C30. A request the pool refuses strands its connection: when the queue is over its limit the main
  thread drops the failed append, the world's queue and interest list stay as they were, and a
  descriptor left unarmed by its report has no further step at all.
\<close>

theorem refused_request_stranded:
  assumes "in_users u" and "u \<noteq> lfd" and "ev_fd ev = u" and "ev_events ev = EPOLLIN"
    and "http_read (recvs ev) (users w u) = (True, c)"
    and "m_max_requests (task_pool w) < int (length (m_workqueue (task_pool w)))"
  shows "(\<exists>w'. main_event_step lfd ev w = Inr w' \<and> m_workqueue (task_pool w') = m_workqueue (task_pool w) \<and>
      m_epoll w' = m_epoll w \<and> closed_fds w' = closed_fds w \<and> users w' u = c) \<and>
    (\<forall>i s'. \<not> armed i u \<longrightarrow> \<not> oneshot_step u \<lparr>ep = i, holder = Dropped\<rparr> s')"
proof -
  have "EPOLLIN AND (EPOLLRDHUP OR EPOLLHUP OR EPOLLERR) = 0" "EPOLLIN AND EPOLLIN \<noteq> 0" by (simp_all add: epoll_bits)
  then show ?thesis
    using assms by (auto simp: main_event_step_def Let_def upd_user_def threadpool_append_def append_locked_def dropped_step)
qed

definition demo_http_world :: "fd option list \<Rightarrow> http_world" where
  "demo_http_world q = \<lparr>users = (\<lambda>u. demo_http\<lparr>m_sockfd := u\<rparr>), m_epoll = [7 \<mapsto> (EPOLLONESHOT, 7)], m_user_count = 1,
     nonblocking = {7}, closed_fds = [], task_pool = \<lparr>m_thread_num = 8, m_max_requests = 1, m_workqueue = q, m_queuestat = 2, m_stop = False\<rparr>\<rparr>"

definition demo_read_event :: "string \<Rightarrow> main_event" where
  "demo_read_event d = \<lparr>ev_fd = 7, ev_events = EPOLLIN, accepted = (0, new_InetAddress 0 ''0.0.0.0''), recvs = [ReadData d], writevs = []\<rparr>"

theorem refused_request_stranded_witness:
  "\<exists>w'. main_event_step 3 (demo_read_event ''GET'') (demo_http_world [Some 5, Some 6]) = Inr w' \<and>
     m_workqueue (task_pool w') = [Some 5, Some 6] \<and> m_epoll w' = [7 \<mapsto> (EPOLLONESHOT, 7)]"
proof -
  have "fst (http_read (recvs (demo_read_event ''GET'')) (users (demo_http_world [Some 5, Some 6]) 7))"
    by (simp add: demo_read_event_def demo_http_world_def demo_http_def http_init_def http_read_def READ_BUFFER_SIZE_def Let_def)
  then obtain c where "http_read (recvs (demo_read_event ''GET'')) (users (demo_http_world [Some 5, Some 6]) 7) = (True, c)"
    by (metis (full_types) prod.collapse)
  from refused_request_stranded [OF _ _ _ _ this, of 3] show ?thesis
    by (auto simp: in_users_def MAX_FD_def demo_read_event_def demo_http_world_def)
qed

text \<open>
  \<open>process()\<close> always hands the descriptor back: an incomplete request arms it for reading, a
  complete one for writing, and nothing else of the interest list changes.
\<close>

theorem process_rearms:
  assumes "process_read fs (users w u) = Inr (r, c)" and "m_sockfd c = fd" and "m_epoll w fd = Some (e, d)"
    and "fst (process_write ptr r c)" and "m_sockfd (snd (process_write ptr r c)) = fd"
  shows "\<exists>w'. http_process fs ptr u w = Inr w' \<and>
    m_epoll w' = (m_epoll w)(fd \<mapsto> (modfd_events (if r = NO_REQUEST then EPOLLIN else EPOLLOUT), nat fd)) \<and>
    armed (m_epoll w') fd \<and> m_user_count w' = m_user_count w"
  using assms modfd_events_bits
  by (cases "process_write ptr r c")
    (auto simp: http_process_def upd_user_def modfd_def epoll_ctl_def Let_def armed_def)

theorem process_rearms_witness:
  "\<exists>w'. http_process (\<lambda>path. None) 5 7 (demo_http_world []) = Inr w' \<and> armed (m_epoll w') 7"
proof -
  let ?c = "demo_http\<lparr>m_sockfd := 7\<rparr>"
  have "process_read (\<lambda>path. None) ?c = Inr (NO_REQUEST, ?c)"
    by (simp add: process_read_def process_read_loop.simps parse_line.simps Let_def demo_http_def http_init_def)
  from process_rearms [of _ "demo_http_world []" 7, OF _ _ _ _ _, of "\<lambda>path. None" NO_REQUEST ?c 7 EPOLLONESHOT 7 5] this
  show ?thesis by (auto simp: demo_http_world_def process_write_def Let_def)
qed

section \<open>\<open>main()\<close>\<close>

text \<open>
  The start of the program and its loop.  \<open>addsig\<close> ignores \<open>SIGPIPE\<close>; the results of \<open>socket\<close>, \<open>bind\<close>,
  \<open>listen\<close> and \<open>epoll_create\<close> are used unchecked.  The members of the new \<open>users\<close> are uninitialised
  and so an argument.
\<close>

datatype main_wait = MainWaitErr errno | MainEvents "main_event list"

record main_calls =
  pool_create :: "nat \<Rightarrow> int"
  pool_detach :: "nat \<Rightarrow> int"
  lfd_ret :: fd
  epollfd_ret :: fd
  users_junk :: "fd \<Rightarrow> http_conn"

record main_result =
  main_address :: sockaddr_in
  main_status :: "int option"
  ignored_signals :: "string list"
  main_world :: http_world

text \<open>An interrupted \<open>epoll_wait\<close> goes round again, any other error leaves the loop.\<close>

fun main_loop :: "fd \<Rightarrow> main_wait list \<Rightarrow> http_world \<Rightarrow> (bool \<times> http_world) result" where
  "main_loop lfd [] w = Inr (False, w)"
| "main_loop lfd (MainWaitErr e # xs) w = (if e \<noteq> EINTR then Inr (True, w) else main_loop lfd xs w)"
| "main_loop lfd (MainEvents evs # xs) w = then_do (main_round lfd evs w) (main_loop lfd xs)"

definition main_listen_address :: "string \<Rightarrow> sockaddr_in" where
  "main_listen_address arg = \<lparr>sin_family = AF_INET, sin_port = htons (word_of_int (atol arg)), sin_addr = 0\<rparr>"

definition main_start :: "main_calls \<Rightarrow> fd threadpool \<Rightarrow> http_world" where
  "main_start c tp =
     addfd (lfd_ret c) False False
       \<lparr>users = users_junk c, m_epoll = (\<lambda>_. None), m_user_count = 0, nonblocking = {}, closed_fds = [], task_pool = tp\<rparr>"

definition http_main :: "main_calls \<Rightarrow> string list \<Rightarrow> main_wait list \<Rightarrow> main_result result" where
  "http_main c argv ws =
     (if length argv \<le> 1 then Inl Exited
      else case new_threadpool 8 1 (pool_create c) (pool_detach c) of
          Inl _ \<Rightarrow> Inl Exited
        | Inr tp \<Rightarrow>
            then_do (main_loop (lfd_ret c) ws (main_start c tp)) (\<lambda>(left, w).
              Inr \<lparr>main_address = main_listen_address (argv ! 1), main_status = (if left then Some 0 else None),
                   ignored_signals = [''SIGPIPE''],
                   main_world =
                     (if left then w\<lparr>closed_fds := closed_fds w @ [epollfd_ret c, lfd_ret c],
                                     task_pool := delete_threadpool (task_pool w)\<rparr>
                      else w)\<rparr>))"

text \<open>
  Before the first event the listener is watched, not for one report only, and stays so: nobody
  changes its entry but a connection that got its number.
\<close>

lemma main_start_listens:
  "armed (m_epoll (main_start c tp)) (lfd_ret c)"
  "report (m_epoll (main_start c tp)) (lfd_ret c) = m_epoll (main_start c tp)"
  by (simp_all add: main_start_def addfd_def setnonblock_def epoll_ctl_def armed_def report_def addfd_events_def
      event_bits_def epoll_bits Let_def)

lemma http_main_no_pool:
  assumes "2 \<le> length argv" and "pool_create c 0 \<noteq> 0"
  shows "http_main c argv ws = Inl Exited"
  using assms by (auto simp: http_main_def new_threadpool_def list_ex_iff numeral_eq_Suc)

text \<open>A failed \<open>accept\<close> is taken for a descriptor and indexes \<open>users\<close> at -1.\<close>

lemma failed_accept_faults:
  assumes "ev_fd ev = lfd" and "accepted ev = (-1, addr)" and "m_user_count w < MAX_FD"
  shows "main_event_step lfd ev w = Inl OutOfBounds"
  using assms by (simp add: main_event_step_def Let_def in_users_def)

lemma main_loop_interrupted: "main_loop lfd (MainWaitErr EINTR # xs) w = main_loop lfd xs w"
  by simp

end
