(* ===== verification/Http_State.thy ===== *)
theory Http_State
  imports Http_Server
begin

text \<open>
  The array \<open>users\<close> over the life of the older server: every index of every connection stays inside the
  array it is an index of, whatever the clients send and in whatever order the main thread and the workers
  run; and what a connection object keeps from one client to the next, since \<open>init(sockfd, addr)\<close> does not
  reset it.
\<close>

section \<open>Connections with their indices in range\<close>

definition http_typed :: "http_conn \<Rightarrow> bool" where
  "http_typed c \<longleftrightarrow>
     length (m_read_buf c) = READ_BUFFER_SIZE \<and> m_start_line c \<le> m_checked_index c \<and>
     m_checked_index c \<le> m_read_index c \<and> m_read_index c \<le> READ_BUFFER_SIZE \<and>
     length (m_write_buf c) = WRITE_BUFFER_SIZE \<and> m_write_index c < WRITE_BUFFER_SIZE \<and>
     length (m_real_file c) = FILENAME_LEN \<and> (\<forall>u. m_url c = Some u \<longrightarrow> u \<le> READ_BUFFER_SIZE)"

text \<open>Members that are no index and no array.\<close>

lemma http_typed_upd [simp]:
  "http_typed (c\<lparr>m_method := x\<rparr>) = http_typed c" "http_typed (c\<lparr>m_version := y\<rparr>) = http_typed c"
  "http_typed (c\<lparr>m_linger := b\<rparr>) = http_typed c" "http_typed (c\<lparr>m_content_length := n\<rparr>) = http_typed c"
  "http_typed (c\<lparr>m_host := z\<rparr>) = http_typed c" "http_typed (c\<lparr>m_file_stat := st\<rparr>) = http_typed c"
  "http_typed (c\<lparr>m_file_address := a\<rparr>) = http_typed c" "http_typed (c\<lparr>m_check_state := k\<rparr>) = http_typed c"
  "http_typed (c\<lparr>m_sockfd := s\<rparr>) = http_typed c" "http_typed (c\<lparr>m_address := d\<rparr>) = http_typed c"
  "http_typed (c\<lparr>m_iv0 := v\<rparr>) = http_typed c" "http_typed (c\<lparr>m_iv1 := v\<rparr>) = http_typed c"
  "http_typed (c\<lparr>m_iv_count := i\<rparr>) = http_typed c" "http_typed (c\<lparr>m_bytes_to_send := p\<rparr>) = http_typed c"
  "http_typed (c\<lparr>m_bytes_have_send := p\<rparr>) = http_typed c"
  by (simp_all add: http_typed_def)

lemma http_typed_init [simp]: "http_typed (http_init c)"
  by (simp add: http_typed_def http_init_def WRITE_BUFFER_SIZE_def)

lemma http_typed_url: "http_typed c \<Longrightarrow> (\<And>u. x = Some u \<Longrightarrow> u \<le> READ_BUFFER_SIZE) \<Longrightarrow> http_typed (c\<lparr>m_url := x\<rparr>)"
  by (simp add: http_typed_def)

lemma http_typed_start_line: "http_typed c \<Longrightarrow> http_typed (c\<lparr>m_start_line := m_checked_index c\<rparr>)"
  by (simp add: http_typed_def)

lemma put_NUL_typed: "http_typed c \<Longrightarrow> put_NUL i c = Inr c' \<Longrightarrow> http_typed c' \<and> 0 \<le> i \<and> i < int READ_BUFFER_SIZE"
  by (auto simp: put_NUL_def http_typed_def split: if_splits)

lemma cut_blank_typed:
  assumes "http_typed c" and "cut_blank p c = Inr (q, c')"
  shows "http_typed c'" "q = Some u \<Longrightarrow> u \<le> READ_BUFFER_SIZE"
  using assms put_NUL_typed [OF assms(1)]
  by (auto simp: cut_blank_def then_do_Inr_iff split: option.splits) force+

lemma end_line_typed:
  assumes "http_typed c" and "m_start_line c \<le> j" and "j < m_read_index c" and "end_line i j c = Inr (ls, c')"
  shows "http_typed c'"
  using assms by (auto simp: end_line_def put_NUL_def http_typed_def split: sum.splits if_splits)

lemma parse_line_typed: "parse_line c = Inr (ls, c') \<Longrightarrow> http_typed c \<Longrightarrow> http_typed c'"
proof (induction c rule: parse_line.induct)
  case (1 c)
  let ?i = "m_checked_index c"
  show ?case
  proof (cases "?i < m_read_index c")
    case True
    with "1.prems"(1) obtain temp where t: "get_char ?i c = Inr temp"
      by (auto simp: parse_line.simps [of c] Let_def then_do_Inr_iff)
    show ?thesis
    proof (cases "temp = CHR 0x0D \<or> temp = CHR 0x0A")
      case False
      have "http_typed (c\<lparr>m_checked_index := ?i + 1\<rparr>)" using "1.prems"(2) True by (simp add: http_typed_def)
      with "1.IH" [OF refl True t] "1.prems"(1) True t False show ?thesis
        by (simp add: parse_line.simps [of c] Let_def)
    next
      case sep: True
      have "m_start_line c \<le> ?i" using "1.prems"(2) by (simp add: http_typed_def)
      with sep "1.prems" True t end_line_typed [OF "1.prems"(2), of "?i + 1" ?i ls c'] end_line_typed [OF "1.prems"(2), of ?i "?i - 1" ls c']
      show ?thesis
        by (auto simp: parse_line.simps [of c] Let_def then_do_Inr_iff split: if_splits)
    qed
  qed (use 1 in \<open>simp add: parse_line.simps [of c]\<close>)
qed

lemma get_char_range: "get_char i c = Inr ch \<Longrightarrow> i < READ_BUFFER_SIZE"
  by (simp add: get_char_def split: if_splits)

lemma parse_request_line_typed:
  assumes c: "http_typed c" and r: "parse_request_line p c = Inr (r, c')"
  shows "http_typed c'"
proof -
  from r obtain url c0 where c0: "cut_blank p c = Inr (url, c0)"
    by (auto simp: parse_request_line_def then_do_Inr_iff)
  note t0 = cut_blank_typed [OF c c0]
  have t1: "http_typed (c0\<lparr>m_url := url\<rparr>)" using t0 by (auto intro: http_typed_url)
  show ?thesis
  proof (cases url)
    case None
    with r c0 t1 show ?thesis by (simp add: parse_request_line_def Let_def)
  next
    case (Some u)
    let ?c2 = "c0\<lparr>m_url := Some u, m_method := GET\<rparr>"
    from t1 Some have t2: "http_typed ?c2" by simp
    show ?thesis
    proof (cases "\<exists>version c3. cut_blank u ?c2 = Inr (version, c3) \<and> c' \<noteq> c0\<lparr>m_url := Some u\<rparr>")
      case False
      with r c0 Some t1 show ?thesis
        by (auto simp: parse_request_line_def Let_def then_do_Inr_iff split: if_splits)
    next
      case True
      then obtain version c3 where c3: "cut_blank u ?c2 = Inr (version, c3)" "c' \<noteq> c0\<lparr>m_url := Some u\<rparr>" by blast
      note t3 = cut_blank_typed(1) [OF t2 c3(1)]
      from r c0 Some c3 t3 show ?thesis
        by (auto simp: parse_request_line_def Let_def then_do_Inr_iff split: if_splits option.splits
            intro!: http_typed_url dest!: get_char_range)
    qed
  qed
qed

lemma parse_request_header_typed:
  "http_typed c \<Longrightarrow> parse_request_header p c = Inr (r, c') \<Longrightarrow> http_typed c'"
  by (auto simp: parse_request_header_def Let_def then_do_Inr_iff split: if_splits)

lemma parse_request_content_typed:
  "http_typed c \<Longrightarrow> parse_request_content p c = Inr (r, c') \<Longrightarrow> http_typed c'"
  by (auto simp: parse_request_content_def then_do_Inr_iff split: if_splits dest: put_NUL_typed)

lemma file_request_typed: "http_typed (snd (file_request fs path c)) = http_typed c"
  by (simp add: file_request_def Let_def split: option.splits prod.splits)

lemma do_request_typed:
  assumes "http_typed c" and "do_request fs c = Inr (r, c')"
  shows "http_typed c'"
proof -
  from assms(2) obtain url path where "file_request fs path (c\<lparr>m_real_file :=
      strncpy 41 url (FILENAME_LEN - 41 - 1) (write_at 0 (doc_root @ [NUL]) (m_real_file c))\<rparr>) = (r, c')"
    by (auto simp: do_request_def then_do_Inr_iff Let_def length_doc_root split: option.splits)
  moreover have "http_typed (c\<lparr>m_real_file := strncpy 41 url (FILENAME_LEN - 41 - 1) (write_at 0 (doc_root @ [NUL]) (m_real_file c))\<rparr>)"
    using assms(1) by (simp add: http_typed_def strncpy_def FILENAME_LEN_def length_doc_root)
  ultimately show ?thesis using file_request_typed by (metis snd_conv)
qed

lemma read_step_typed:
  assumes "http_typed c" and "read_step fs ls c = Inr (ret, ls2, c')"
  shows "http_typed c'"
proof -
  note t = http_typed_start_line [OF assms(1)]
  show ?thesis
    using assms(2) parse_request_line_typed [OF t] parse_request_header_typed [OF t] parse_request_content_typed [OF t]
    by (auto simp: read_step_def Let_def then_do_Inr_iff split: CHECK_STATE.splits if_splits prod.splits)
      (blast intro: do_request_typed)+
qed

lemma process_read_typed:
  assumes "http_typed c" and "process_read fs c = Inr (r, c')"
  shows "http_typed c'"
proof -
  have "process_read_loop fs ls c = Inr (r, c') \<Longrightarrow> http_typed c \<Longrightarrow> http_typed c'" for ls
  proof (induction fs ls c rule: process_read_loop.induct)
    case (1 fs ls c)
    let ?pl = "if m_check_state c = CHECK_STATE_CONTENT \<and> ls = LINE_OK then Inr (LINE_OK, c) else parse_line c"
    from "1.prems"(1) obtain ls1 c1 where p: "?pl = Inr (ls1, c1)"
      by (auto simp: process_read_loop.simps [of fs ls c] then_do_Inr_iff)
    have t1: "http_typed c1" using p "1.prems"(2) parse_line_typed by (auto split: if_splits)
    show ?case
    proof (cases "ls1 = LINE_OK")
      case True
      with "1.prems"(1) p obtain ret ls2 c2 where s: "read_step fs ls1 c1 = Inr (ret, ls2, c2)"
        by (auto simp: process_read_loop.simps [of fs ls c] then_do_Inr_iff simp del: if_split_asm)
      note t2 = read_step_typed [OF t1 s]
      show ?thesis
      proof (cases ret)
        case None
        with "1.prems"(1) p True s have "process_read_loop fs ls2 c2 = Inr (r, c')"
          by (simp add: process_read_loop.simps [of fs ls c])
        with "1.IH" [OF p refl True s refl refl None] t2 show ?thesis by blast
      next
        case (Some v)
        with "1.prems"(1) p True s have "c' = c2" by (simp add: process_read_loop.simps [of fs ls c])
        with t2 show ?thesis by simp
      qed
    qed (use "1.prems"(1) p t1 in \<open>simp add: process_read_loop.simps [of fs ls c]\<close>)
  qed
  with assms show ?thesis by (simp add: process_read_def)
qed

lemma http_read_typed:
  assumes "http_typed c" and "http_read rs c = (ok, c')"
  shows "http_typed c'"
proof -
  have "http_read_loop rs c = (ok, c') \<Longrightarrow> http_typed c \<Longrightarrow> http_typed c'"
  proof (induction rs c rule: http_read_loop.induct)
    case (3 d rs c)
    let ?data = "take (READ_BUFFER_SIZE - m_read_index c) d"
    have fits: "m_read_index c + length ?data \<le> length (m_read_buf c)" using 3(3) by (auto simp: http_typed_def)
    have "http_typed (c\<lparr>m_read_buf := write_at (m_read_index c) ?data (m_read_buf c), m_read_index := m_read_index c + length ?data\<rparr>)"
      using 3(3) fits length_write_at [OF fits] by (simp add: http_typed_def del: length_take)
    with 3 show ?case by (auto simp: Let_def split: if_splits)
  qed auto
  with assms show ?thesis by (auto simp: http_read_def split: if_splits)
qed

lemma add_response_typed: "http_typed c \<Longrightarrow> http_typed (snd (add_response s c))"
  by (auto simp: add_response_def Let_def http_typed_def)

lemma add_headers_typed: "http_typed c \<Longrightarrow> http_typed (snd (add_headers ptr n c))"
  by (simp add: add_headers_def add_blank_line_def add_linger_def add_content_type_def add_content_length_def
      add_response_typed)

lemma error_response_typed: "http_typed c \<Longrightarrow> http_typed (snd (error_response ptr status title form c))"
  by (simp add: error_response_def add_content_def add_status_line_def add_headers_typed add_response_typed)

lemma process_write_typed:
  assumes "http_typed c"
  shows "http_typed (snd (process_write ptr ret c))"
  using assms add_headers_typed [OF add_response_typed [OF assms]] error_response_typed [OF assms]
  by (cases ret) (simp_all add: process_write_def Let_def add_status_line_def case_prod_unfold)

lemma write_advance_typed [simp]: "http_typed (write_advance n c) = http_typed c"
  by (simp add: write_advance_def Let_def)

lemma unmap_typed [simp]: "http_typed (unmap c) = http_typed c"
  by (simp add: unmap_def split: option.splits)

lemma http_write_typed:
  assumes "http_typed c" and "http_write rs c = Inr (ok, ev, out, c')"
  shows "http_typed c'"
proof -
  have "http_write_loop rs out0 c = Inr (ok, ev, out, c') \<Longrightarrow> http_typed c \<Longrightarrow> http_typed c'" for out0
    by (induction rs out0 c rule: http_write_loop.induct) (auto simp: Let_def then_do_Inr_iff split: if_splits)
  with assms show ?thesis by (auto simp: http_write_def split: if_splits)
qed


section \<open>The main thread and the workers\<close>

text \<open>One handled event of the main thread, or one call of \<open>process()\<close> by a worker.\<close>

datatype http_step = MainHandles main_event | WorkerProcesses file_system int fd

definition http_world_step :: "fd \<Rightarrow> http_step \<Rightarrow> http_world \<Rightarrow> http_world result" where
  "http_world_step lfd st w =
     (case st of MainHandles ev \<Rightarrow> main_event_step lfd ev w | WorkerProcesses fs ptr u \<Rightarrow> http_process fs ptr u w)"

definition users_typed :: "http_world \<Rightarrow> bool" where
  "users_typed w \<longleftrightarrow> (\<forall>u. http_typed (users w u))"

lemma users_typed_helpers [simp]:
  "users_typed w \<Longrightarrow> http_typed c \<Longrightarrow> users_typed (upd_user u c w)"
  "users_typed (modfd fd ev w) = users_typed w" "users_typed (rmfd fd w) = users_typed w"
  "users_typed (addfd fd os et w) = users_typed w"
  "users_typed (w\<lparr>m_user_count := n\<rparr>) = users_typed w" "users_typed (w\<lparr>closed_fds := l\<rparr>) = users_typed w"
  "users_typed (w\<lparr>task_pool := p\<rparr>) = users_typed w"
  by (simp_all add: users_typed_def upd_user_def modfd_def rmfd_def addfd_def setnonblock_def)

lemma users_typedD: "users_typed w \<Longrightarrow> http_typed (users w u)"
  by (simp add: users_typed_def)

lemma close_conn_typed: "users_typed w \<Longrightarrow> users_typed (close_conn u w)"
  by (simp add: close_conn_def Let_def users_typedD)

lemma http_conn_init_typed: "users_typed w \<Longrightarrow> users_typed (http_conn_init u s a w)"
  by (simp add: http_conn_init_def Let_def users_typedD)

lemma main_event_step_typed:
  assumes "users_typed w" and "main_event_step lfd ev w = Inr w'"
  shows "users_typed w'"
proof -
  have rd: "users_typed (upd_user s c w)" if "http_read rs (users w s) = (ok, c)" for rs s ok c
    using http_read_typed [OF users_typedD [OF assms(1)] that] assms(1) by simp
  have wr: "users_typed (snd (apply_write s out w))" if "http_write ws (users w s) = Inr out" for ws s out
    using http_write_typed [OF users_typedD [OF assms(1)]] that assms(1)
    by (cases out) (auto simp: apply_write_def Let_def split: option.splits)
  consider "ev_fd ev = lfd" | "ev_fd ev \<noteq> lfd" "ev_events ev AND (EPOLLRDHUP OR EPOLLHUP OR EPOLLERR) \<noteq> 0"
    | "ev_fd ev \<noteq> lfd" "ev_events ev AND (EPOLLRDHUP OR EPOLLHUP OR EPOLLERR) = 0" "ev_events ev AND EPOLLIN \<noteq> 0"
    | "ev_fd ev \<noteq> lfd" "ev_events ev AND (EPOLLRDHUP OR EPOLLHUP OR EPOLLERR) = 0" "ev_events ev AND EPOLLIN = 0"
    by blast
  then show ?thesis
  proof cases
    case 1
    with assms show ?thesis
      by (cases "accepted ev") (auto simp: main_event_step_def Let_def intro: http_conn_init_typed split: if_splits)
  next
    case 2
    with assms show ?thesis by (auto simp: main_event_step_def Let_def intro: close_conn_typed split: if_splits)
  next
    case 3
    obtain ok c where "http_read (recvs ev) (users w (ev_fd ev)) = (ok, c)" by fastforce
    with 3 assms rd [OF this] show ?thesis
      by (auto simp: main_event_step_def Let_def intro: close_conn_typed split: if_splits)
  next
    case 4
    show ?thesis
    proof (cases "w' = w")
      case False
      with 4 assms(2) obtain out where out: "http_write (writevs ev) (users w (ev_fd ev)) = Inr out"
        by (auto simp: main_event_step_def Let_def then_do_Inr_iff split: if_splits)
      with 4 False assms(2) wr [OF out] show ?thesis
        by (auto simp: main_event_step_def Let_def case_prod_unfold intro: close_conn_typed split: if_splits)
    qed (use assms(1) in simp)
  qed
qed

lemma http_process_typed:
  assumes "users_typed w" and "http_process fs ptr u w = Inr w'"
  shows "users_typed w'"
proof -
  from assms(2) obtain r c where r: "process_read fs (users w u) = Inr (r, c)"
    by (auto simp: http_process_def then_do_Inr_iff)
  note c = process_read_typed [OF users_typedD [OF assms(1)] r]
  have "http_typed (snd (process_write ptr r c))" by (rule process_write_typed [OF c])
  with c r assms show ?thesis
    by (auto simp: http_process_def Let_def split: prod.splits if_splits intro!: close_conn_typed)
qed

text \<open>
  C27. The connections of the older server stay well-formed.  Let every entry of \<open>users\<close> have its line
  start, scan position and fill level in order and within the read buffer, its write position within the
  write buffer, and its target within the read buffer.  Then after any sequence of events handled by the
  main thread and calls of \<open>process()\<close> by the workers, with any answers of the system and any file system,
  every entry still has, and the arrays have kept their sizes.
\<close>

theorem http_users_wellformed:
  assumes "users_typed w" and "fold_result (http_world_step lfd) steps w = Inr w'"
  shows "users_typed w'"
  using assms
proof (induction steps arbitrary: w)
  case (Cons st steps)
  then obtain w1 where "http_world_step lfd st w = Inr w1" "fold_result (http_world_step lfd) steps w1 = Inr w'"
    by (auto split: sum.splits)
  with Cons show ?case
    by (auto simp: http_world_step_def split: http_step.splits intro: main_event_step_typed http_process_typed)
qed simp

theorem http_users_wellformed_witness:
  "\<exists>w'. fold_result (http_world_step 3) [MainHandles (demo_read_event ''GET''), MainHandles (demo_read_event '' /'')]
       (demo_http_world []) = Inr w' \<and> users_typed w'"
proof -
  let ?steps = "[MainHandles (demo_read_event ''GET''), MainHandles (demo_read_event '' /'')]"
  have typed: "users_typed (demo_http_world [])" by (simp add: users_typed_def demo_http_world_def demo_http_def)
  have "\<exists>w'. fold_result (http_world_step 3) ?steps (demo_http_world []) = Inr w'"
    by (simp add: http_world_step_def main_event_step_def demo_read_event_def Let_def in_users_def MAX_FD_def
        epoll_bits case_prod_unfold)
  then obtain w' where w': "fold_result (http_world_step 3) ?steps (demo_http_world []) = Inr w'" by blast
  from http_users_wellformed [OF typed w'] w' show ?thesis by blast
qed


section \<open>What the next client finds\<close>

lemma init_keeps [simp]:
  "m_read_index (users (http_conn_init u s a w) v) = m_read_index (users w v)"
  "m_read_buf (users (http_conn_init u s a w) v) = m_read_buf (users w v)"
  "m_check_state (users (http_conn_init u s a w) v) = m_check_state (users w v)"
  "m_checked_index (users (http_conn_init u s a w) v) = m_checked_index (users w v)"
  by (simp_all add: http_conn_init_def upd_user_def addfd_def setnonblock_def Let_def)

lemma close_keeps [simp]:
  "m_read_index (users (close_conn u w) v) = m_read_index (users w v)"
  "m_read_buf (users (close_conn u w) v) = m_read_buf (users w v)"
  "m_check_state (users (close_conn u w) v) = m_check_state (users w v)"
  "m_checked_index (users (close_conn u w) v) = m_checked_index (users w v)"
  by (simp_all add: close_conn_def upd_user_def rmfd_def Let_def)

text \<open>The main thread on one event of a descriptor whose read buffer is full.\<close>

lemma full_buffer_step:
  assumes full: "READ_BUFFER_SIZE \<le> m_read_index (users w u)" and step: "main_event_step lfd ev w = Inr w'"
    and no_out: "ev_fd ev = u \<longrightarrow> ev_events ev AND EPOLLOUT = 0"
  shows "READ_BUFFER_SIZE \<le> m_read_index (users w' u)"
proof (cases "ev_fd ev = u \<and> u \<noteq> lfd")
  case True
  with assms show ?thesis
    by (auto simp: main_event_step_def Let_def http_read_def upd_user_def split: if_splits)
next
  case False
  show ?thesis
  proof (cases "ev_fd ev = lfd")
    case True
    with step full show ?thesis
      by (cases "accepted ev") (auto simp: main_event_step_def Let_def split: if_splits)
  next
    case other: False
    with False have "ev_fd ev \<noteq> u" by auto
    with other step full show ?thesis
      by (auto simp: main_event_step_def Let_def then_do_Inr_iff case_prod_unfold apply_write_def modfd_def upd_user_def
          split: if_splits option.splits)
  qed
qed

lemma process_other: "http_process fs ptr v w = Inr w' \<Longrightarrow> v \<noteq> u \<Longrightarrow> users w' u = users w u"
  by (auto simp: http_process_def then_do_Inr_iff Let_def modfd_def upd_user_def close_conn_def rmfd_def
      split: prod.splits if_splits)

text \<open>
  Steps in which descriptor \<open>u\<close> is not reported writable and no worker has its connection: it is armed for
  reading only, and was not queued.
\<close>

definition reading_only :: "fd \<Rightarrow> http_step \<Rightarrow> bool" where
  "reading_only u st =
     (case st of MainHandles ev \<Rightarrow> ev_fd ev = u \<longrightarrow> ev_events ev AND EPOLLOUT = 0 | WorkerProcesses fs ptr v \<Rightarrow> v \<noteq> u)"

lemma full_buffer_run:
  assumes "READ_BUFFER_SIZE \<le> m_read_index (users w u)" and "\<forall>st \<in> set steps. reading_only u st"
    and "fold_result (http_world_step lfd) steps w = Inr w'"
  shows "READ_BUFFER_SIZE \<le> m_read_index (users w' u)"
  using assms
proof (induction steps arbitrary: w)
  case (Cons st steps)
  then obtain w1 where w1: "http_world_step lfd st w = Inr w1" "fold_result (http_world_step lfd) steps w1 = Inr w'"
    by (auto split: sum.splits)
  have "READ_BUFFER_SIZE \<le> m_read_index (users w1 u)"
    using Cons.prems(1,2) w1(1) full_buffer_step [of w u lfd _ w1] process_other [of _ _ _ w w1 u]
    by (cases st) (auto simp: http_world_step_def reading_only_def)
  with Cons w1(2) show ?case by simp
qed simp

lemma read_to_the_end:
  assumes "m_read_index c < READ_BUFFER_SIZE" and "READ_BUFFER_SIZE \<le> m_read_index c + length d"
  shows "\<exists>c1. http_read [ReadData d] c = (False, c1) \<and> m_read_index c1 = READ_BUFFER_SIZE"
proof -
  have "length (take (READ_BUFFER_SIZE - m_read_index c) d) = READ_BUFFER_SIZE - m_read_index c"
    using assms by simp
  moreover from this have "take (READ_BUFFER_SIZE - m_read_index c) d \<noteq> []" using assms(1) by fastforce
  ultimately show ?thesis using assms(1) by (simp add: http_read_def Let_def del: length_take take_eq_Nil)
qed


text \<open>Descriptor 7 gets a buffer full of bytes, and a new client.\<close>

definition demo_accept_event :: "fd \<Rightarrow> main_event" where
  "demo_accept_event fd = \<lparr>ev_fd = 3, ev_events = EPOLLIN, accepted = (fd, new_InetAddress 1 ''1.2.3.4''), recvs = [], writevs = []\<rparr>"


text \<open>
  The next client on a descriptor inherits the unfinished request of the one before.  When a client
  hangs up, the descriptor is given to a new client and that client sends bytes, the parser's buffer holds
  the old client's bytes followed by the new client's, with the state of the parser and its scan position
  where the old client's request left them.
\<close>

theorem reused_descriptor_keeps_bytes:
  assumes "in_users u" and "u \<noteq> lfd" and "http_typed (users w u)" and "m_sockfd (users w u) \<noteq> -1" and "m_user_count w \<le> MAX_FD"
    and "ev_fd ev1 = u" and "ev_events ev1 AND (EPOLLRDHUP OR EPOLLHUP OR EPOLLERR) \<noteq> 0"
    and "ev_fd ev2 = lfd" and "accepted ev2 = (u, addr)"
    and "ev_fd ev3 = u" and "ev_events ev3 = EPOLLIN" and "recvs ev3 = [ReadData b]"
    and "b \<noteq> []" and "m_read_index (users w u) + length b < READ_BUFFER_SIZE"
  shows "\<exists>w'. main_round lfd [ev1, ev2, ev3] w = Inr w' \<and>
    take (m_read_index (users w' u)) (m_read_buf (users w' u)) = take (m_read_index (users w u)) (m_read_buf (users w u)) @ b \<and>
    m_check_state (users w' u) = m_check_state (users w u) \<and> m_checked_index (users w' u) = m_checked_index (users w u)"
proof -
  have bits: "EPOLLIN AND (EPOLLRDHUP OR EPOLLHUP OR EPOLLERR) = 0" "EPOLLIN AND EPOLLIN \<noteq> 0" by (simp_all add: epoll_bits)
  define w1 where "w1 = close_conn u w"
  define w2 where "w2 = http_conn_init u u addr w1"
  have s1: "main_event_step lfd ev1 w = Inr w1" using assms(1,2,6,7) by (simp add: main_event_step_def w1_def Let_def)
  have "m_user_count w1 < MAX_FD" using assms(4,5) by (simp add: w1_def close_conn_def rmfd_def upd_user_def Let_def)
  then have s2: "main_event_step lfd ev2 w1 = Inr w2" using assms(1,8,9) by (simp add: main_event_step_def w2_def Let_def)
  let ?c = "users w2 u"
  have c: "m_read_index ?c = m_read_index (users w u)" "m_read_buf ?c = m_read_buf (users w u)"
    "m_check_state ?c = m_check_state (users w u)" "m_checked_index ?c = m_checked_index (users w u)"
    by (simp_all add: w2_def w1_def)
  let ?c3 = "?c\<lparr>m_read_buf := write_at (m_read_index ?c) b (m_read_buf ?c), m_read_index := m_read_index ?c + length b\<rparr>"
  have "http_read (recvs ev3) ?c = (True, ?c3)" using assms(12-14) c(1) by (simp add: http_read_def Let_def)
  then obtain w3 where s3: "main_event_step lfd ev3 w2 = Inr w3" "users w3 u = ?c3"
    using assms(1,2,10,11) bits by (simp add: main_event_step_def Let_def upd_user_def)
  have "m_read_index (users w u) \<le> length (m_read_buf (users w u))" using assms(3) by (simp add: http_typed_def)
  then have "take (m_read_index ?c3) (m_read_buf ?c3) = take (m_read_index (users w u)) (m_read_buf (users w u)) @ b"
    using c(1,2) by (simp add: take_write_at_end)
  with s1 s2 s3 c show ?thesis by (simp add: main_round_def)
qed

theorem reused_descriptor_keeps_bytes_witness:
  "\<exists>w'. main_round 3 [(demo_read_event [])\<lparr>ev_events := EPOLLRDHUP\<rparr>, demo_accept_event 7, demo_read_event ''GET / HT'']
       ((demo_http_world [])\<lparr>users := (\<lambda>u. arrived ''POST'' demo_http\<lparr>m_sockfd := u\<rparr>)\<rparr>) = Inr w' \<and>
     take (m_read_index (users w' 7)) (m_read_buf (users w' 7)) = ''POSTGET / HT''"
proof -
  let ?w = "(demo_http_world [])\<lparr>users := (\<lambda>u. arrived ''POST'' demo_http\<lparr>m_sockfd := u\<rparr>)\<rparr>"
  have w: "http_typed (users ?w 7)" "m_sockfd (users ?w 7) \<noteq> -1" "m_user_count ?w \<le> MAX_FD" "m_read_index (users ?w 7) = 4"
      "take (m_read_index (users ?w 7)) (m_read_buf (users ?w 7)) = ''POST''"
    by (simp_all add: demo_http_world_def MAX_FD_def arrived_def http_typed_def http_init_def READ_BUFFER_SIZE_def WRITE_BUFFER_SIZE_def)
  have "in_users 7" "(7 :: fd) \<noteq> 3" "EPOLLRDHUP AND (EPOLLRDHUP OR EPOLLHUP OR EPOLLERR) \<noteq> 0"
    by (simp_all add: in_users_def MAX_FD_def epoll_bits)
  from reused_descriptor_keeps_bytes [OF this(1,2) w(1-3), of "(demo_read_event [])\<lparr>ev_events := EPOLLRDHUP\<rparr>" "demo_accept_event 7"
      "new_InetAddress 1 ''1.2.3.4''" "demo_read_event ''GET / HT''" "''GET / HT''"] this(3) w(4,5)
  show ?thesis by (auto simp: demo_read_event_def demo_accept_event_def READ_BUFFER_SIZE_def)
qed

end
