(* ===== verification/Http_Session.thy ===== *)
theory Http_Session
  imports Http_State Http_Fragments
begin

unbundle bit_operations_syntax

text \<open>
  The older server from the side of a client: the connection is accepted, requests arrive one after the
  other, each is read by the main thread, taken by a worker, answered and written, and the connection is
  kept or closed as the client asked.  The last section follows the descriptor to its next client.
\<close>

section \<open>A request and its response\<close>

text \<open>The members the parser works with; the host is not among them.\<close>

definition parser_side :: "http_conn \<Rightarrow> char list \<times> nat \<times> CHECK_STATE \<times> int \<times> nat \<times> nat \<times> nat option \<times> char list" where
  "parser_side c = (m_read_buf c, m_read_index c, m_check_state c, m_content_length c, m_checked_index c, m_start_line c,
     m_url c, m_real_file c)"

lemma at_header_side: "parser_side c = parser_side d \<Longrightarrow> at_header u url pre rest c = at_header u url pre rest d"
  by (simp add: at_header_def http_inv_def parser_side_def)

lemma arrived_arrives: "length d < READ_BUFFER_SIZE \<Longrightarrow> arrived d c = arrives d (http_init c)"
  by (simp add: arrived_def arrives_def http_init_def write_at_def)

text \<open>
  A well-formed request is understood only with its last byte, so in pieces it leaves what it leaves whole.
\<close>

lemma request_in_pieces:
  assumes "url_ok url" and "\<forall>h \<in> set hs. header_ok h" and len: "length (get_request url hs) + 5 < READ_BUFFER_SIZE"
    and ds: "concat ds = get_request url hs" "\<forall>d \<in> set ds. d \<noteq> []"
    and whole: "process_read fs (arrived (get_request url hs) c) = Inr (r, c2)"
  shows "\<exists>c1 k. read_in_pieces fs ds (http_init c) = Inr (r, c1) \<and> c2 = with_host k c1 \<and>
    m_read_index c1 = length (get_request url hs)"
proof -
  let ?d = "get_request url hs"
  have ne: "ds \<noteq> []" using ds(1) by (auto simp: get_request_def)
  have start: "http_inv (http_init c)" "target_ends (http_init c)" "m_read_index (http_init c) = 0"
    by (simp_all add: http_inv_init target_ends_def) (simp_all add: http_init_def)
  have "process_read fs (arrives (concat ds) (http_init c)) = Inr (r, c2)"
    using whole len ds(1) by (simp add: arrived_arrives)
  moreover note end_state = get_request_state [OF assms(1-3) whole]
  ultimately obtain c1 rest k where c1: "read_in_pieces fs ds (http_init c) = Inr (r, c1)" "c2 = with_host k (arrives rest c1)"
      "http_inv c1" "m_read_index c1 + length rest = length ?d"
    using pieces_of_whole [OF ds(2) ne start(1,2), of fs r c2] start(3) len ds(1) by auto
  have "m_checked_index c1 \<le> m_read_index c1" using c1(3) by (simp add: http_inv_def)
  moreover have "m_checked_index c1 = length ?d" using end_state c1(2) by (simp add: arrives_def)
  ultimately have "length rest = 0" using c1(4) by linarith
  with c1 show ?thesis by auto
qed

lemma request_to_response:
  assumes req: "url_ok url" "\<forall>h \<in> set hs. header_ok h" "length (get_request url hs) + 5 < READ_BUFFER_SIZE"
    and ds: "concat ds = get_request url hs" "\<forall>d \<in> set ds. d \<noteq> []"
    and f: "fs (real_path url) = Some (st, Some F)" "\<not> S_ISDIR (st_mode st)" "st_size st = length F" "F \<noteq> []" "length F < 2 ^ 30"
    and ptr: "- (2 ^ 31) \<le> ptr" "ptr < 2 ^ 31"
    and linger: "linger = (\<exists>h \<in> set hs. keep_alive h)" and H: "H = concat (header_text ptr 200 ok_200_title (int (length F)) linger)"
  shows "\<exists>c1 d pre. read_in_pieces fs ds (http_init c) = Inr (FILE_REQUEST, c1) \<and> m_sockfd c1 = m_sockfd c \<and>
    process_write ptr FILE_REQUEST c1 = (True, d) \<and> ready_to_send H F d \<and> m_linger d = linger \<and>
    m_read_index c1 = length (get_request url hs) \<and> length pre = length (get_request url hs) \<and>
    at_header 4 url pre (replicate (READ_BUFFER_SIZE - length pre) NUL) c1"
proof -
  let ?d = "get_request url hs"
  have "http_read [ReadData ?d] (http_init c) = (True, arrived ?d c)"
    by (rule arrived_read) (use req(3) in \<open>auto simp: get_request_def\<close>)
  from request_understood [OF req this, of fs] f linger obtain c2 where
    c2: "process_read fs (arrived ?d c) = Inr (FILE_REQUEST, c2)" "m_linger c2 = linger" "m_file_stat c2 = st"
      "m_file_address c2 = Some (Mapped F)"
    by (auto simp: served_def)
  from request_in_pieces [OF req ds c2(1)] obtain c1 k where c1: "read_in_pieces fs ds (http_init c) = Inr (FILE_REQUEST, c1)"
      "c2 = with_host k c1" "m_read_index c1 = length ?d" by blast
  have out: "m_write_buf c1 = replicate WRITE_BUFFER_SIZE NUL" "m_write_index c1 = 0" "m_bytes_have_send c1 = 0" "m_sockfd c1 = m_sockfd c"
    using process_read_output [OF c2(1)] c1(2) by (simp_all add: output_side_def arrived_def http_init_def with_host_def)
  then have inv: "wbuf_inv c1" by (simp add: wbuf_inv_def WRITE_BUFFER_SIZE_def)
  have st: "m_linger c1 = linger" "m_file_stat c1 = st" "m_file_address c1 = Some (Mapped F)"
    using c2(2-4) c1(2) by (simp_all add: with_host_def)
  from process_write_file [OF inv out(2) _ ptr] st f(3,5) H obtain d where
    d: "process_write ptr FILE_REQUEST c1 = (True, d)" "wbuf_inv d" "response d = H" "m_write_index d = length H"
      "m_iv0 d = \<lparr>iov_base = InWriteBuf 0, iov_len = length H\<rparr>" "m_iv1 d = \<lparr>iov_base = InFile 0, iov_len = length F\<rparr>"
      "m_iv_count d = 2" "m_bytes_to_send d = int (length H + length F)" "m_bytes_have_send d = m_bytes_have_send c1"
      "m_linger d = linger" "m_file_address d = m_file_address c1" by auto
  have ready: "ready_to_send H F d" using d st(3) out(3) by (simp add: ready_to_send_def wbuf_inv_def)
  from request_left_behind [OF req c2(1)] obtain pre where
    pre: "at_header 4 url pre (replicate (READ_BUFFER_SIZE - length pre) NUL) c2" "length pre = length ?d" by blast
  have "parser_side c1 = parser_side c2" using c1(2) by (simp add: parser_side_def)
  with pre(1) have "at_header 4 url pre (replicate (READ_BUFFER_SIZE - length pre) NUL) c1" using at_header_side by blast
  with c1 out(4) d(1,10) ready pre(2) show ?thesis by blast
qed

lemma process_write_file_sockfd: "m_sockfd (snd (process_write ptr FILE_REQUEST c)) = m_sockfd c"
  by (simp add: process_write_def Let_def add_headers_def add_blank_line_def add_linger_def add_content_type_def
      add_content_length_def add_status_line_def)

text \<open>The parser reads what has arrived and takes nothing back.\<close>

lemma read_iter_fill: "read_iter fs ls c = Inr (ret, ls2, c') \<Longrightarrow> m_read_index c' = m_read_index c"
  by (auto simp: read_iter_def then_do_Inr_iff split: if_splits prod.splits dest!: parse_line_keeps read_step_index)

lemmas process_read_index = process_read_keeps [where f = m_read_index, OF _ read_iter_fill]


section \<open>The steps of an exchange\<close>

text \<open>
  The body of the loop of \<open>run\<close> on a server whose tasks are connections: the semaphore, the oldest request,
  \<open>process()\<close>.  \<open>None\<close> is a worker that stays in \<open>wait\<close>.
\<close>

definition worker_turn :: "file_system \<Rightarrow> int \<Rightarrow> http_world \<Rightarrow> http_world result option" where
  "worker_turn fs ptr w =
     (case sem_wait (task_pool w) of
        None \<Rightarrow> None
      | Some p \<Rightarrow>
          (case take_locked p of
             (Some (Some u), p1) \<Rightarrow> Some (http_process fs ptr u (w\<lparr>task_pool := p1\<rparr>))
           | (_, p1) \<Rightarrow> Some (Inr (w\<lparr>task_pool := p1\<rparr>))))"

text \<open>
  One request of a client: its target and headers, the pieces it arrives in, what the file system holds at the
  time, the address the header printer shows, the file it finds, and how the kernel cuts the transfer.
\<close>

record visit =
  v_url :: string
  v_headers :: "string list"
  v_pieces :: "string list"
  v_fs :: file_system
  v_stat :: file_stat
  v_file :: string
  v_ptr :: int
  v_first :: nat
  v_rest :: "nat list"

definition v_request :: "visit \<Rightarrow> string" where
  "v_request v = get_request (v_url v) (v_headers v)"

definition v_keeps :: "visit \<Rightarrow> bool" where
  "v_keeps v = list_ex keep_alive (v_headers v)"

definition v_header :: "visit \<Rightarrow> string" where
  "v_header v = concat (header_text (v_ptr v) 200 ok_200_title (int (length (v_file v))) (v_keeps v))"

definition v_response :: "visit \<Rightarrow> string" where
  "v_response v = v_header v @ v_file v"

text \<open>
  A well-formed request that fits into the buffer, cut anywhere, for a regular file that is not empty, over a
  socket whose first \<open>writev\<close> takes at least the header.
\<close>

definition visit_ok :: "visit \<Rightarrow> bool" where
  "visit_ok v \<longleftrightarrow>
     url_ok (v_url v) \<and> (\<forall>h \<in> set (v_headers v). header_ok h) \<and> length (v_request v) + 5 < READ_BUFFER_SIZE \<and>
     concat (v_pieces v) = v_request v \<and> (\<forall>d \<in> set (v_pieces v). d \<noteq> []) \<and>
     v_fs v (real_path (v_url v)) = Some (v_stat v, Some (v_file v)) \<and> \<not> S_ISDIR (st_mode (v_stat v)) \<and>
     st_size (v_stat v) = length (v_file v) \<and> v_file v \<noteq> [] \<and> length (v_file v) < 2 ^ 30 \<and>
     - (2 ^ 31) \<le> v_ptr v \<and> v_ptr v < 2 ^ 31 \<and>
     length (v_header v) \<le> v_first v \<and> (\<forall>n \<in> set (v_rest v). 0 < n) \<and>
     v_first v + sum_list (v_rest v) = length (v_response v)"

definition client_event :: "fd \<Rightarrow> events \<Rightarrow> read_result list \<Rightarrow> write_result list \<Rightarrow> main_event" where
  "client_event u ev rs ws =
     \<lparr>ev_fd = u, ev_events = ev, accepted = (0, new_InetAddress 0 ''0.0.0.0''), recvs = rs, writevs = ws\<rparr>"

definition accept_event :: "fd \<Rightarrow> fd \<Rightarrow> sockaddr_in \<Rightarrow> main_event" where
  "accept_event lfd u addr = \<lparr>ev_fd = lfd, ev_events = EPOLLIN, accepted = (u, addr), recvs = [], writevs = []\<rparr>"

text \<open>
  The kernel reports an event only while the interest list asks for it, and with \<open>EPOLLONESHOT\<close> the report
  clears the entry; then the main thread has its turn.  \<open>None\<close> is an event that is not reported, or a fault.
\<close>

definition asked_for :: "events \<Rightarrow> fd \<Rightarrow> http_world \<Rightarrow> bool" where
  "asked_for ev u w = (case m_epoll w u of None \<Rightarrow> False | Some (e, _) \<Rightarrow> e AND ev \<noteq> 0)"

definition notified :: "fd \<Rightarrow> fd \<Rightarrow> events \<Rightarrow> read_result list \<Rightarrow> write_result list \<Rightarrow> http_world \<Rightarrow> http_world option" where
  "notified lfd u ev rs ws w =
     (if asked_for ev u w then
        case main_event_step lfd (client_event u ev rs ws) (w\<lparr>m_epoll := report (m_epoll w) u\<rparr>) of
          Inl e \<Rightarrow> None
        | Inr w1 \<Rightarrow> Some w1
      else None)"

text \<open>A request in pieces: each is read by the main thread and looked at by a worker before the next is reported.\<close>

fun receive :: "fd \<Rightarrow> fd \<Rightarrow> file_system \<Rightarrow> int \<Rightarrow> string list \<Rightarrow> http_world \<Rightarrow> http_world option" where
  "receive lfd u fs ptr [] w = Some w"
| "receive lfd u fs ptr (d # ds) w =
     (case notified lfd u EPOLLIN [ReadData d] [] w of
        None \<Rightarrow> None
      | Some w1 \<Rightarrow> (case worker_turn fs ptr w1 of Some (Inr w2) \<Rightarrow> receive lfd u fs ptr ds w2 | _ \<Rightarrow> None))"

text \<open>
  The steps of one exchange, with the bytes the kernel is handed; \<open>None\<close> when a step faults, an event is not
  reported or the worker is not woken.
\<close>

definition run_visit :: "fd \<Rightarrow> fd \<Rightarrow> visit \<Rightarrow> http_world \<Rightarrow> (string \<times> http_world) option" where
  "run_visit lfd u v w =
     (case receive lfd u (v_fs v) (v_ptr v) (v_pieces v) w of
        None \<Rightarrow> None
      | Some w2 \<Rightarrow>
          (let ws = map Wrote (v_first v # v_rest v) in
           case http_write ws (users w2 u) of
             Inl e \<Rightarrow> None
           | Inr (ret, ev, bytes, c) \<Rightarrow>
               (case notified lfd u EPOLLOUT [] ws w2 of None \<Rightarrow> None | Some w3 \<Rightarrow> Some (bytes, w3))))"

fun run_visits :: "fd \<Rightarrow> fd \<Rightarrow> visit list \<Rightarrow> http_world \<Rightarrow> (string \<times> http_world) option" where
  "run_visits lfd u [] w = Some ([], w)"
| "run_visits lfd u (v # vs) w =
     (case run_visit lfd u v w of
        None \<Rightarrow> None
      | Some (out, w1) \<Rightarrow>
          (case run_visits lfd u vs w1 of None \<Rightarrow> None | Some (out', w2) \<Rightarrow> Some (out @ out', w2)))"


section \<open>One exchange\<close>

text \<open>What \<open>write()\<close> leaves of the connection: reset when it is kept, and with the parser untouched otherwise.\<close>

lemma write_advance_side [simp]: "parser_side (write_advance n c) = parser_side c" "m_sockfd (write_advance n c) = m_sockfd c"
  by (simp_all add: write_advance_def parser_side_def Let_def)

lemma unmap_side [simp]: "parser_side (unmap c) = parser_side c" "m_sockfd (unmap c) = m_sockfd c"
  by (simp_all add: unmap_def parser_side_def split: option.splits)

lemma http_init_sockfd [simp]: "m_sockfd (http_init c) = m_sockfd c"
  by (simp add: http_init_def)

lemma http_write_loop_leaves:
  "http_write_loop ws out c = Inr (ret, Some EPOLLIN, bytes, e) \<Longrightarrow>
     m_sockfd e = m_sockfd c \<and> (if ret then (\<exists>d. e = http_init d) else parser_side e = parser_side c)"
proof (induction ws out c rule: http_write_loop.induct)
  case (3 n ws out c)
  then show ?case by (auto simp: then_do_Inr_iff Let_def split: if_splits)
qed (auto simp: epoll_bits split: if_splits)

lemma add_response_side [simp]: "parser_side (snd (add_response s c)) = parser_side c"
  by (simp add: add_response_def Let_def parser_side_def)

lemma process_write_file_side: "parser_side (snd (process_write ptr FILE_REQUEST c)) = parser_side c"
proof -
  have "parser_side (d\<lparr>m_iv0 := a, m_iv1 := b, m_iv_count := n, m_bytes_to_send := k\<rparr>) = parser_side d" for d a b n k
    by (simp add: parser_side_def)
  then show ?thesis
    by (simp add: process_write_def Let_def add_headers_def add_blank_line_def add_linger_def add_content_type_def
        add_content_length_def add_status_line_def)
qed

text \<open>With nothing else to do the worker takes the connection just queued.\<close>

lemma worker_takes:
  assumes "m_workqueue (task_pool w) = []"
  shows "worker_turn fs ptr (w\<lparr>task_pool := sem_post ((task_pool w)\<lparr>m_workqueue := [Some u]\<rparr>)\<rparr>) = Some (http_process fs ptr u w)"
proof -
  have same: "(task_pool w)\<lparr>m_workqueue := []\<rparr> = task_pool w" using assms by (cases "task_pool w") simp
  have "worker_turn fs ptr (w\<lparr>task_pool := sem_post ((task_pool w)\<lparr>m_workqueue := [Some u]\<rparr>)\<rparr>) =
      Some (http_process fs ptr u (w\<lparr>task_pool := (task_pool w)\<lparr>m_workqueue := []\<rparr>\<rparr>))"
    by (simp add: worker_turn_def sem_post_def sem_wait_def take_locked_def)
  then show ?thesis unfolding same by simp
qed

text \<open>The connection \<open>c\<close> listens for bytes of its client, on a server with nothing else to do.\<close>

definition listens :: "fd \<Rightarrow> http_conn \<Rightarrow> http_world \<Rightarrow> bool" where
  "listens u c w \<longleftrightarrow> users w u = c \<and> m_sockfd c = u \<and> (\<exists>ev. m_epoll w u = Some (ev, nat u) \<and> ev AND EPOLLIN \<noteq> 0) \<and>
     m_workqueue (task_pool w) = [] \<and> 0 \<le> m_max_requests (task_pool w)"

lemma report_watched: "\<exists>e'. report i u u = Some (e', x)" if "i u = Some (e, x)"
  using that by (simp add: report_def)

lemma read_event_queues:
  assumes u: "in_users u" "u \<noteq> lfd" and w: "listens u c w" and d: "http_read [ReadData d] c = (True, c')"
    and x: "x = upd_user u c' (w\<lparr>m_epoll := report (m_epoll w) u\<rparr>)"
  shows "notified lfd u EPOLLIN [ReadData d] [] w = Some (x\<lparr>task_pool := sem_post ((task_pool x)\<lparr>m_workqueue := [Some u]\<rparr>)\<rparr>)"
proof -
  have "EPOLLIN AND (EPOLLRDHUP OR EPOLLHUP OR EPOLLERR) = 0" "EPOLLIN AND EPOLLIN \<noteq> 0" by (simp_all add: epoll_bits)
  moreover have "asked_for EPOLLIN u w" using w by (auto simp: listens_def asked_for_def)
  ultimately show ?thesis
    using u w d by (simp add: notified_def main_event_step_def client_event_def Let_def upd_user_def threadpool_append_def
        append_locked_def listens_def x)
qed

lemma receive_piece:
  assumes u: "in_users u" "u \<noteq> lfd" and w: "listens u c w" and d: "http_read [ReadData d] c = (True, c')"
    and x: "x = upd_user u c' (w\<lparr>m_epoll := report (m_epoll w) u\<rparr>)" and p: "http_process fs ptr u x = Inr w2"
  shows "receive lfd u fs ptr (d # ds) w = receive lfd u fs ptr ds w2"
proof -
  have "m_workqueue (task_pool x) = []" using w by (simp add: x listens_def upd_user_def)
  from worker_takes [OF this, of fs ptr u] p read_event_queues [OF u w d x] show ?thesis by simp
qed

lemma receive_pieces:
  assumes u: "in_users u" "u \<noteq> lfd" and out: "process_write ptr FILE_REQUEST c1 = (True, e)"
  shows "\<forall>d \<in> set ds. d \<noteq> [] \<Longrightarrow> m_read_index c + length (concat ds) < READ_BUFFER_SIZE \<Longrightarrow>
    read_in_pieces fs ds c = Inr (FILE_REQUEST, c1) \<Longrightarrow> m_read_index c1 = m_read_index c + length (concat ds) \<Longrightarrow> listens u c w \<Longrightarrow>
    \<exists>w2. receive lfd u fs ptr ds w = Some w2 \<and> users w2 u = e \<and> m_epoll w2 u = Some (modfd_events EPOLLOUT, nat u) \<and>
      task_pool w2 = task_pool w \<and> m_user_count w2 = m_user_count w"
proof (induction ds arbitrary: c w)
  case (Cons d ds)
  have d: "http_read [ReadData d] c = (True, arrives d c)" using http_read_more Cons.prems(1,2) by simp
  with Cons.prems(3) obtain r c2 where c2: "process_read fs (arrives d c) = Inr (r, c2)"
      "(if r = NO_REQUEST then read_in_pieces fs ds c2 else Inr (r, c2)) = Inr (FILE_REQUEST, c1)"
    by (auto simp: then_do_Inr_iff)
  have idx: "m_read_index c2 = m_read_index c + length d" using process_read_index [OF c2(1)] by (simp add: arrives_def)
  have fd: "m_sockfd c2 = u" using process_read_output [OF c2(1)] Cons.prems(5) by (simp add: output_side_def arrives_def listens_def)
  define x where "x = upd_user u (arrives d c) (w\<lparr>m_epoll := report (m_epoll w) u\<rparr>)"
  have x: "users x u = arrives d c" "task_pool x = task_pool w" "m_user_count x = m_user_count w" "\<exists>e'. m_epoll x u = Some (e', nat u)"
    using Cons.prems(5) report_watched by (auto simp: x_def upd_user_def listens_def)
  note piece = receive_piece [OF u Cons.prems(5) d x_def]
  show ?case
  proof (cases "r = NO_REQUEST")
    case True
    define y where "y = modfd u EPOLLIN (upd_user u c2 x)"
    have "http_process fs ptr u x = Inr y" using True c2(1) x(1) fd by (simp add: http_process_def y_def)
    moreover have "modfd_events EPOLLIN AND EPOLLIN \<noteq> 0" by (simp add: modfd_events_def epoll_bits)
    with fd x Cons.prems(5) have "listens u c2 y" by (auto simp: listens_def y_def modfd_def upd_user_def epoll_ctl_def)
    moreover have "task_pool y = task_pool w" "m_user_count y = m_user_count w" using x by (simp_all add: y_def modfd_def upd_user_def)
    ultimately show ?thesis using Cons.IH [of c2 y] Cons.prems(1,2,4) c2(2) True idx piece [of fs ptr y ds] by simp
  next
    case False
    with c2(2) have r: "r = FILE_REQUEST" "c2 = c1" by simp_all
    have "length (concat ds) = 0" using idx r(2) Cons.prems(4) by simp
    then have ds: "ds = []" using Cons.prems(1) by (cases ds) auto
    define y where "y = modfd u EPOLLOUT (upd_user u e x)"
    have "m_sockfd e = u" using process_write_file_sockfd [of ptr c1] out fd r(2) by simp
    then have "http_process fs ptr u x = Inr y" using r c2(1) x(1) out by (simp add: http_process_def y_def upd_user_def Let_def)
    moreover have "users y u = e" "m_epoll y u = Some (modfd_events EPOLLOUT, nat u)" "task_pool y = task_pool w" "m_user_count y = m_user_count w"
      using x by (auto simp: y_def modfd_def upd_user_def epoll_ctl_def)
    ultimately show ?thesis using piece [of fs ptr y ds] ds by (intro exI [of _ y]) simp
  qed
qed simp

lemma write_event_step:
  assumes "in_users u" and "u \<noteq> lfd" and "http_write ws (users w u) = Inr (ret, Some EPOLLIN, out, e)" and "m_sockfd (users w u) = u"
    and "m_epoll w u = Some (modfd_events EPOLLOUT, nat u)" and x: "x = w\<lparr>m_epoll := report (m_epoll w) u\<rparr>"
  shows "notified lfd u EPOLLOUT rs ws w =
    (let w1 = modfd u EPOLLIN (upd_user u e x) in Some (if ret then w1 else close_conn u w1))"
proof -
  have "EPOLLOUT AND (EPOLLRDHUP OR EPOLLHUP OR EPOLLERR) = 0" "EPOLLOUT AND EPOLLIN = 0" "EPOLLOUT AND EPOLLOUT \<noteq> 0"
      "modfd_events EPOLLOUT AND EPOLLOUT \<noteq> 0"
    by (simp_all add: modfd_events_def epoll_bits)
  with assms show ?thesis
    by (simp add: notified_def asked_for_def main_event_step_def client_event_def Let_def apply_write_def)
qed

lemma run_visit_served:
  assumes v: "visit_ok v" and u: "in_users u" "u \<noteq> lfd" and w: "listens u (http_init c) w"
  shows "\<exists>w3. run_visit lfd u v w = Some (v_response v, w3) \<and> task_pool w3 = task_pool w \<and>
    (if v_keeps v then (\<exists>d. listens u (http_init d) w3) \<and> m_user_count w3 = m_user_count w
     else m_sockfd (users w3 u) = -1 \<and> m_epoll w3 u = None \<and> m_user_count w3 = m_user_count w - 1 \<and>
       (\<exists>pre. at_header 4 (v_url v) pre (replicate (READ_BUFFER_SIZE - length pre) NUL) (users w3 u) \<and>
          length pre = length (v_request v) \<and> m_read_index (users w3 u) = length pre))"
proof -
  let ?d = "v_request v" and ?ws = "map Wrote (v_first v # v_rest v)" and ?H = "v_header v" and ?F = "v_file v"
  note ok = v [unfolded visit_ok_def v_request_def]
  have keeps: "v_keeps v = (\<exists>h \<in> set (v_headers v). keep_alive h)" by (auto simp: v_keeps_def list_ex_iff)
  obtain c1 d pre where
    c1: "read_in_pieces (v_fs v) (v_pieces v) (http_init c) = Inr (FILE_REQUEST, c1)" "m_sockfd c1 = m_sockfd c"
      "process_write (v_ptr v) FILE_REQUEST c1 = (True, d)" "ready_to_send ?H ?F d" "m_linger d = v_keeps v"
      "m_read_index c1 = length ?d" "length pre = length ?d" "at_header 4 (v_url v) pre (replicate (READ_BUFFER_SIZE - length pre) NUL) c1"
    using request_to_response [OF _ _ _ _ _ _ _ _ _ _ _ _ keeps v_header_def, of "v_url v" "v_pieces v" "v_fs v" "v_stat v" c] ok
    unfolding v_request_def by blast
  have fd: "m_sockfd c = u" using w by (simp add: listens_def)
  have d: "m_sockfd d = u" "parser_side d = parser_side c1"
    using process_write_file_sockfd [of "v_ptr v" c1] process_write_file_side [of "v_ptr v" c1] c1(2,3) fd by simp_all
  have "m_read_index (http_init c) = 0" by (simp add: http_init_def)
  with receive_pieces [OF u c1(3) _ _ c1(1) _ w] c1(6) ok obtain w2 where
    w2: "receive lfd u (v_fs v) (v_ptr v) (v_pieces v) w = Some w2" "users w2 u = d" "m_epoll w2 u = Some (modfd_events EPOLLOUT, nat u)"
      "task_pool w2 = task_pool w" "m_user_count w2 = m_user_count w"
    by (auto simp: v_request_def)
  obtain y where y: "http_write ?ws d = Inr (v_keeps v, Some EPOLLIN, v_response v, y)"
    using file_transfer [OF c1(4), of "v_first v" "v_rest v"] ok c1(5) by (auto simp: v_response_def)
  have "m_bytes_to_send d = int (length ?H + length ?F)" "0 < length ?F" using c1(4) ok by (simp_all add: ready_to_send_def)
  then have "m_bytes_to_send d \<noteq> 0" by linarith
  then have leaves: "m_sockfd y = u" "if v_keeps v then (\<exists>z. y = http_init z) else parser_side y = parser_side d"
    using http_write_loop_leaves [of ?ws "[]" d] y d(1) by (auto simp: http_write_def)
  define w3 where "w3 = modfd u EPOLLIN (upd_user u y (w2\<lparr>m_epoll := report (m_epoll w2) u\<rparr>))"
  have "notified lfd u EPOLLOUT [] ?ws w2 = Some (if v_keeps v then w3 else close_conn u w3)"
    using write_event_step [OF u, of ?ws w2] y w2(2,3) d(1) by (simp add: w3_def Let_def)
  then have run: "run_visit lfd u v w = Some (v_response v, if v_keeps v then w3 else close_conn u w3)"
    using w2(1,2) y by (simp add: run_visit_def)
  have w3: "users w3 u = y" "task_pool w3 = task_pool w" "m_epoll w3 u = Some (modfd_events EPOLLIN, nat u)" "m_user_count w3 = m_user_count w"
    using w2(3-5) report_watched [of "m_epoll w2" u] by (auto simp: w3_def modfd_def upd_user_def epoll_ctl_def)
  show ?thesis
  proof (cases "v_keeps v")
    case True
    with leaves(2) have "\<exists>z. y = http_init z" by presburger
    then obtain z where z: "y = http_init z" by blast
    have "modfd_events EPOLLIN AND EPOLLIN \<noteq> 0" by (simp add: modfd_events_def epoll_bits)
    with z w w3 leaves(1) have "listens u (http_init z) w3" by (simp add: listens_def)
    with True run w3(2,4) show ?thesis by (intro exI [of _ w3]) auto
  next
    case False
    let ?y = "y\<lparr>m_sockfd := -1\<rparr>"
    have u0: "u \<noteq> -1" using u(1) by (simp add: in_users_def)
    have "parser_side ?y = parser_side c1" using leaves(2) d(2) False by (simp add: parser_side_def)
    with c1(6-8) have "at_header 4 (v_url v) pre (replicate (READ_BUFFER_SIZE - length pre) NUL) ?y" "m_read_index ?y = length pre"
      using at_header_side [of ?y c1] by (simp_all add: parser_side_def)
    moreover have "users (close_conn u w3) u = ?y" "m_epoll (close_conn u w3) u = None" "task_pool (close_conn u w3) = task_pool w"
      "m_user_count (close_conn u w3) = m_user_count w - 1"
      using w3 u0 leaves(1) by (simp_all add: close_conn_def Let_def upd_user_def rmfd_def epoll_ctl_def)
    ultimately show ?thesis using False run c1(7)
      by (intro exI [of _ "close_conn u w3"]) (simp, intro exI [of _ pre], simp)
  qed
qed


section \<open>Whole sessions\<close>

text \<open>A connection that waits for the next request of its client.\<close>

definition waiting_for_request :: "fd \<Rightarrow> http_world \<Rightarrow> bool" where
  "waiting_for_request u w \<longleftrightarrow> (\<exists>c. listens u (http_init c) w)"

lemma kept_visit:
  assumes "visit_ok v" and "v_keeps v" and "in_users u" and "u \<noteq> lfd" and "waiting_for_request u w"
  shows "\<exists>w'. run_visit lfd u v w = Some (v_response v, w') \<and> waiting_for_request u w' \<and>
    task_pool w' = task_pool w \<and> m_user_count w' = m_user_count w"
  using run_visit_served [OF assms(1,3,4)] assms(2,5) by (fastforce simp: waiting_for_request_def)

lemma kept_visits:
  assumes "in_users u" and "u \<noteq> lfd"
  shows "\<forall>v \<in> set vs. visit_ok v \<and> v_keeps v \<Longrightarrow> waiting_for_request u w \<Longrightarrow>
    \<exists>w'. run_visits lfd u vs w = Some (concat (map v_response vs), w') \<and> waiting_for_request u w' \<and>
      task_pool w' = task_pool w \<and> m_user_count w' = m_user_count w"
proof (induction vs arbitrary: w)
  case (Cons v vs)
  from kept_visit [OF _ _ assms Cons.prems(2), of v] Cons.prems(1) obtain w1 where
    w1: "run_visit lfd u v w = Some (v_response v, w1)" "waiting_for_request u w1" "task_pool w1 = task_pool w"
      "m_user_count w1 = m_user_count w" by auto
  from Cons.IH [OF _ w1(2)] Cons.prems(1) obtain w2 where
    "run_visits lfd u vs w1 = Some (concat (map v_response vs), w2)" "waiting_for_request u w2" "task_pool w2 = task_pool w1"
      "m_user_count w2 = m_user_count w1" by auto
  with w1 show ?case by simp
qed simp

lemma accept_waits:
  assumes "in_users u" and "users w u = http_init c" and "m_user_count w < MAX_FD" and "m_epoll w u = None"
    and "m_workqueue (task_pool w) = []" and "0 \<le> m_max_requests (task_pool w)"
  shows "\<exists>w'. main_event_step lfd (accept_event lfd u addr) w = Inr w' \<and> waiting_for_request u w' \<and>
    task_pool w' = task_pool w \<and> m_user_count w' = m_user_count w + 1"
proof -
  let ?w = "http_conn_init u u addr w"
  have "main_event_step lfd (accept_event lfd u addr) w = Inr ?w"
    using assms(1,3) by (simp add: main_event_step_def accept_event_def Let_def)
  moreover have "addfd_events True True AND EPOLLIN \<noteq> 0" by (simp add: addfd_events_def epoll_bits)
  moreover have "users ?w u = http_init (c\<lparr>m_sockfd := u, m_address := addr\<rparr>)"
    using assms(2) by (simp add: http_conn_init_def Let_def addfd_def setnonblock_def upd_user_def http_init_def)
  moreover have "m_epoll ?w u = Some (addfd_events True True, nat u)" "task_pool ?w = task_pool w" "m_user_count ?w = m_user_count w + 1"
    using assms(4) by (simp_all add: http_conn_init_def Let_def addfd_def setnonblock_def upd_user_def epoll_ctl_def)
  ultimately show ?thesis using assms(5,6) by (fastforce simp: waiting_for_request_def listens_def)
qed


section \<open>The next client on the descriptor\<close>

text \<open>A request line is no header, so a parser behind the headers takes it for one it does not know.\<close>

lemma request_line_as_header:
  assumes "url_ok url"
  shows "header_ok (''GET '' @ url @ '' HTTP/1.1'')"
proof -
  have "tolower CHR ''T'' \<noteq> tolower CHR ''n''" by code_simp
  then show ?thesis using assms by (simp add: header_ok_def url_ok_def line_ok_def strncasecmp_def)
qed

lemma request_as_headers: "get_request url hs = header_lines ((''GET '' @ url @ '' HTTP/1.1'') # hs) @ crlf"
  by (simp add: get_request_def header_lines_def)

lemma old_target_served:
  assumes at: "at_header u url pre (get_request url2 hs2 @ post) c" and idx: "m_read_index c = length pre + length (get_request url2 hs2)"
    and req: "url_ok url2" "\<forall>h \<in> set hs2. header_ok h"
  shows "\<exists>c'. process_read fs c = Inr (served fs url, c')"
proof -
  let ?hs = "(''GET '' @ url2 @ '' HTTP/1.1'') # hs2"
  have "at_header u url pre (header_lines ?hs @ crlf @ post) c" using at by (simp add: request_as_headers)
  moreover have "\<forall>h \<in> set ?hs. header_ok h" using req request_line_as_header by simp
  moreover have "length pre + length (header_lines ?hs) + 2 \<le> m_read_index c" using idx by (simp add: request_as_headers crlf_def)
  ultimately obtain c' where c': "process_read_loop fs LINE_OK c = do_request fs c'" "http_inv c'" "m_url c' = Some u" "text_at u c' = Inr url"
    using at_header_loop [of u url pre ?hs post c fs] by blast
  from do_request_served [OF c'(2-4), of fs] c'(1) show ?thesis by (auto simp: process_read_def)
qed

text \<open>Bytes that arrive behind an old request are put where the parser stands.\<close>

lemma read_behind:
  assumes at: "at_header u url pre (replicate (READ_BUFFER_SIZE - length pre) NUL) c" and idx: "m_read_index c = length pre"
    and d: "d \<noteq> []" "length pre + length d + 5 < READ_BUFFER_SIZE"
  shows "\<exists>c'. http_read [ReadData d] c = (True, c') \<and> m_read_index c' = length pre + length d \<and>
    at_header u url pre (d @ replicate (READ_BUFFER_SIZE - length pre - length d) NUL) c'"
proof -
  let ?z = "replicate (READ_BUFFER_SIZE - length pre - length d) NUL"
  define c' where "c' = c\<lparr>m_read_buf := pre @ d @ ?z, m_read_index := length pre + length d\<rparr>"
  note a = at [unfolded at_header_def]
  have buf: "m_read_buf c = pre @ replicate (READ_BUFFER_SIZE - length pre) NUL" using a by simp
  have "write_at (length pre) d (m_read_buf c) = pre @ d @ ?z" unfolding buf using d(2) by (simp add: write_at_def)
  then have "http_read [ReadData d] c = (True, c')"
    using idx d by (simp add: http_read_def Let_def c'_def)
  moreover have "http_inv c'"
    using a d(2) by (auto simp: http_inv_def c'_def nth_append)
  then have "at_header u url pre (d @ ?z) c'" using a d(2) by (simp add: at_header_def c'_def)
  ultimately show ?thesis by (auto simp: c'_def)
qed

text \<open>
  C29. A client can be given the file another client asked for.  When a request without keep-alive has been
  answered, the connection is closed but its parser is not reset; the next client on that descriptor number may
  send any well-formed request for any other target: the worker reads it as further headers of the old
  request and looks up the old target, with the access result and file of that one.
\<close>

theorem next_client_gets_old_file:
  assumes "visit_ok v" and "\<not> v_keeps v" and u: "in_users u" "u \<noteq> lfd" and w: "waiting_for_request u w" "m_user_count w \<le> MAX_FD"
    and req: "url_ok url2" "\<forall>h \<in> set hs2. header_ok h" "length (v_request v) + length (get_request url2 hs2) + 5 < READ_BUFFER_SIZE"
  shows "\<exists>w1 w2 w3 c. run_visit lfd u v w = Some (v_response v, w1) \<and> m_sockfd (users w1 u) = -1 \<and>
    main_event_step lfd (accept_event lfd u addr) w1 = Inr w2 \<and> m_sockfd (users w2 u) = u \<and>
    main_event_step lfd (client_event u EPOLLIN [ReadData (get_request url2 hs2)] []) w2 = Inr w3 \<and>
    process_read fs (users w3 u) = Inr (served fs (v_url v), c)"
proof -
  let ?d = "get_request url2 hs2"
  from w(1) obtain c where c: "listens u (http_init c) w" by (auto simp: waiting_for_request_def)
  from run_visit_served [OF assms(1) u c] assms(2) obtain w1 pre where
    w1: "run_visit lfd u v w = Some (v_response v, w1)" "m_sockfd (users w1 u) = -1" "m_user_count w1 = m_user_count w - 1"
      "at_header 4 (v_url v) pre (replicate (READ_BUFFER_SIZE - length pre) NUL) (users w1 u)"
      "length pre = length (v_request v)" "m_read_index (users w1 u) = length pre" by auto
  define w2 where "w2 = http_conn_init u u addr w1"
  have s2: "main_event_step lfd (accept_event lfd u addr) w1 = Inr w2"
    using u(1) w(2) w1(3) by (simp add: main_event_step_def accept_event_def Let_def w2_def)
  have "users w2 u = (users w1 u)\<lparr>m_sockfd := u, m_address := addr\<rparr>"
    by (simp add: w2_def http_conn_init_def Let_def addfd_def setnonblock_def upd_user_def)
  then have side: "parser_side (users w2 u) = parser_side (users w1 u)" "m_read_index (users w2 u) = length pre" "m_sockfd (users w2 u) = u"
    using w1(6) by (simp_all add: parser_side_def)
  from read_behind [of 4 "v_url v" pre "users w2 u" ?d] at_header_side [OF side(1)] side(2) w1(4,5) req(3) obtain c3 where
    c3: "http_read [ReadData ?d] (users w2 u) = (True, c3)" "m_read_index c3 = length pre + length ?d"
      "at_header 4 (v_url v) pre (?d @ replicate (READ_BUFFER_SIZE - length pre - length ?d) NUL) c3"
    by (auto simp: get_request_def)
  have bits: "EPOLLIN AND (EPOLLRDHUP OR EPOLLHUP OR EPOLLERR) = 0" "EPOLLIN AND EPOLLIN \<noteq> 0" by (simp_all add: epoll_bits)
  obtain w3 where s3: "main_event_step lfd (client_event u EPOLLIN [ReadData ?d] []) w2 = Inr w3" "users w3 u = c3"
    using u c3(1) bits by (simp add: main_event_step_def client_event_def Let_def upd_user_def)
  from old_target_served [OF c3(3,2) req(1,2), of fs] s3(2) obtain c4 where
    "process_read fs (users w3 u) = Inr (served fs (v_url v), c4)" by blast
  with w1(1,2) s2 s3(1) side(3) show ?thesis by blast
qed

text \<open>Two visits for a file of four bytes, one with keep-alive.\<close>

definition demo_visit :: "bool \<Rightarrow> visit" where
  "demo_visit keep =
     \<lparr>v_url = ''/'', v_headers = (if keep then [''Connection: Keep-Alive''] else []),
      v_pieces = [''GE'', drop 2 (get_request ''/'' (if keep then [''Connection: Keep-Alive''] else []))],
      v_fs = (\<lambda>path. Some (\<lparr>st_mode = 0x81A4, st_size = 4\<rparr>, Some ''data'')), v_stat = \<lparr>st_mode = 0x81A4, st_size = 4\<rparr>,
      v_file = ''data'', v_ptr = 5, v_first = length (concat (header_text 5 200 ok_200_title 4 keep)), v_rest = [3, 1]\<rparr>"

lemma demo_visit_ok: "visit_ok (demo_visit keep)" "v_keeps (demo_visit keep) = keep" "length (v_request (demo_visit False)) = 18"
proof -
  have k: "v_keeps (demo_visit b) = b" for b using demo_request by (simp add: v_keeps_def demo_visit_def)
  have "header_text 5 200 ok_200_title (int (length ''data'')) b = header_text 5 200 ok_200_title 4 b" for b by simp
  with k demo_request show "visit_ok (demo_visit keep)"
    by (cases keep) (simp_all add: visit_ok_def v_request_def v_header_def v_response_def, simp_all add: demo_visit_def S_ISDIR_def
        get_request_def header_lines_def crlf_def READ_BUFFER_SIZE_def)
  show "v_keeps (demo_visit keep) = keep" by (rule k)
  show "length (v_request (demo_visit False)) = 18" by (simp add: v_request_def demo_visit_def get_request_def header_lines_def crlf_def)
qed

lemma demo_world_waits: "waiting_for_request 7 ((demo_http_world [])\<lparr>m_epoll := [7 \<mapsto> (modfd_events EPOLLIN, 7)]\<rparr>)"
proof -
  have "modfd_events EPOLLIN AND EPOLLIN \<noteq> 0" by (simp add: modfd_events_def epoll_bits)
  moreover have "users (demo_http_world []) 7 = http_init (demo_http\<lparr>m_sockfd := 7\<rparr>)"
    by (simp add: demo_http_world_def demo_http_def http_init_def)
  ultimately show ?thesis by (auto simp: waiting_for_request_def listens_def demo_http_world_def intro!: exI [of _ "demo_http\<lparr>m_sockfd := 7\<rparr>"])
qed

theorem next_client_gets_old_file_witness:
  "\<exists>w1 w2 w3 c. run_visit 3 7 (demo_visit False) ((demo_http_world [])\<lparr>m_epoll := [7 \<mapsto> (modfd_events EPOLLIN, 7)]\<rparr>) =
       Some (v_response (demo_visit False), w1) \<and>
     main_event_step 3 (accept_event 3 7 (new_InetAddress 1 ''1.2.3.4'')) w1 = Inr w2 \<and>
     main_event_step 3 (client_event 7 EPOLLIN [ReadData (get_request ''/b'' [])] []) w2 = Inr w3 \<and>
     process_read (\<lambda>path. if path = real_path ''/'' then Some (\<lparr>st_mode = 0x81A4, st_size = 4\<rparr>, Some ''data'') else None) (users w3 7) =
       Inr (FILE_REQUEST, c)"
proof -
  let ?fs = "\<lambda>path. if path = real_path ''/'' then Some (\<lparr>st_mode = 0x81A4, st_size = 4\<rparr>, Some ''data'') else None"
  let ?w = "(demo_http_world [])\<lparr>m_epoll := [7 \<mapsto> (modfd_events EPOLLIN, 7)]\<rparr>"
  have u: "in_users 7" "(7 :: fd) \<noteq> 3" "m_user_count ?w \<le> MAX_FD" by (simp_all add: in_users_def MAX_FD_def demo_http_world_def)
  have r: "url_ok ''/b''" "\<forall>h \<in> set []. header_ok h" "length (v_request (demo_visit False)) + length (get_request ''/b'' []) + 5 < READ_BUFFER_SIZE"
    using demo_visit_ok(3) by (simp_all add: url_ok_def line_ok_def get_request_def header_lines_def crlf_def READ_BUFFER_SIZE_def)
  have "served ?fs (v_url (demo_visit False)) = FILE_REQUEST" by (simp add: served_def demo_visit_def S_ISDIR_def)
  moreover have "\<not> v_keeps (demo_visit False)" using demo_visit_ok(2) by simp
  from next_client_gets_old_file [OF demo_visit_ok(1) this u(1,2) demo_world_waits u(3) r, of "new_InetAddress 1 ''1.2.3.4''" ?fs]
  have "\<exists>w1 w2 w3 c. run_visit 3 7 (demo_visit False) ?w = Some (v_response (demo_visit False), w1) \<and>
     main_event_step 3 (accept_event 3 7 (new_InetAddress 1 ''1.2.3.4'')) w1 = Inr w2 \<and>
     main_event_step 3 (client_event 7 EPOLLIN [ReadData (get_request ''/b'' [])] []) w2 = Inr w3 \<and>
     process_read ?fs (users w3 7) = Inr (served ?fs (v_url (demo_visit False)), c)" by blast
  ultimately show ?thesis by (simp only:)
qed

end
