(* ===== verification/Train_Tickets.thy ===== *)
theory Train_Tickets
  imports Interleaving
begin

text \<open>
  The ticket windows of \<open>src/bck/train/chapter 3\<close>: \<open>mutex.c\<close>, three windows that sell 1000 tickets
  under a mutex, and \<open>sell.c\<close>, the same loop with no lock.  A window is its program counter, one
  value per atomic action; \<open>ticket--\<close> is a load and a store.  \<open>ticket\<close> only moves
  down from 1000 (100 in \<open>sell.c\<close>) and only after a test against 0, far from the ends of \<open>int\<close>, so it
  is kept as an integer.  What the windows print is recorded as the pairs of the window and the
  number printed.
\<close>

section \<open>\<open>mutex.c\<close>\<close>

datatype sell_pc =
    SellLock | SellTest | SellPrint | SellLoad | SellStore int | SellUnlock | SellUnlockBreak
  | SellReturned

datatype main_pc = MainInit | MainCreate | MainDetach | MainExited

datatype actor = MainThread | Window nat

record tickets =
  ticket :: int
  owner :: "nat option"
  windows :: "sell_pc list"
  printed :: "(nat \<times> int) list"
  main_at :: main_pc

definition mutex_start :: tickets where
  "mutex_start = \<lparr>ticket = 1000, owner = None, windows = [], printed = [], main_at = MainInit\<rparr>"

definition goto :: "nat \<Rightarrow> sell_pc \<Rightarrow> tickets \<Rightarrow> tickets" where
  "goto i pc s = s\<lparr>windows := (windows s)[i := pc]\<rparr>"

text \<open>\<open>sellticket\<close> of \<open>mutex.c\<close>, from lock to unlock.\<close>

definition mutex_sellticket :: "nat \<Rightarrow> tickets \<Rightarrow> tickets option" where
  "mutex_sellticket i s =
     (case windows s ! i of
        SellLock \<Rightarrow>
          (if owner s = None then Some (goto i SellTest (s\<lparr>owner := Some i\<rparr>)) else None)
      | SellTest \<Rightarrow> Some (goto i (if 0 < ticket s then SellPrint else SellUnlockBreak) s)
      | SellPrint \<Rightarrow> Some (goto i SellLoad (s\<lparr>printed := printed s @ [(i, ticket s)]\<rparr>))
      | SellLoad \<Rightarrow> Some (goto i (SellStore (ticket s)) s)
      | SellStore v \<Rightarrow> Some (goto i SellUnlock (s\<lparr>ticket := v - 1\<rparr>))
      | SellUnlock \<Rightarrow> Some (goto i SellLock (s\<lparr>owner := None\<rparr>))
      | SellUnlockBreak \<Rightarrow> Some (goto i SellReturned (s\<lparr>owner := None\<rparr>))
      | SellReturned \<Rightarrow> None)"

text \<open>
  \<open>main\<close> of \<open>mutex.c\<close>: it creates three windows, detaches them and exits; what is written after
  \<open>pthread_exit\<close>, the wait for the tickets to run out and \<open>pthread_mutex_destroy\<close>, is never run.
\<close>

definition mutex_main :: "tickets \<Rightarrow> tickets option" where
  "mutex_main s =
     (case main_at s of
        MainInit \<Rightarrow> Some (s\<lparr>owner := None, main_at := MainCreate\<rparr>)
      | MainCreate \<Rightarrow>
          (if length (windows s) < 3 then Some (s\<lparr>windows := windows s @ [SellLock]\<rparr>)
           else Some (s\<lparr>main_at := MainDetach\<rparr>))
      | MainDetach \<Rightarrow> Some (s\<lparr>main_at := MainExited\<rparr>)
      | MainExited \<Rightarrow> None)"

definition mutex_step :: "actor \<Rightarrow> tickets \<Rightarrow> tickets option" where
  "mutex_step a s =
     (case a of
        MainThread \<Rightarrow> mutex_main s
      | Window i \<Rightarrow> if i < length (windows s) then mutex_sellticket i s else None)"


subsection \<open>What every interleaving keeps\<close>

definition inside_pc :: "sell_pc \<Rightarrow> bool" where
  "inside_pc pc \<longleftrightarrow> pc \<noteq> SellLock \<and> pc \<noteq> SellReturned"

definition selling :: "tickets \<Rightarrow> actor \<Rightarrow> bool" where
  "selling s a =
     (case a of
        MainThread \<Rightarrow> False
      | Window i \<Rightarrow> i < length (windows s) \<and> inside_pc (windows s ! i))"

definition pc_ok :: "int \<Rightarrow> sell_pc \<Rightarrow> bool" where
  "pc_ok t pc =
     (case pc of
        SellPrint \<Rightarrow> 0 < t | SellLoad \<Rightarrow> 0 < t | SellStore v \<Rightarrow> 0 < t \<and> v = t
      | SellUnlockBreak \<Rightarrow> t = 0 | SellReturned \<Rightarrow> t = 0 | _ \<Rightarrow> True)"

text \<open>The lowest number printed: a window prints before it takes the ticket off the total.\<close>

definition pending :: "sell_pc \<Rightarrow> bool" where
  "pending pc = (case pc of SellLoad \<Rightarrow> True | SellStore _ \<Rightarrow> True | _ \<Rightarrow> False)"

definition sold_upto :: "int \<Rightarrow> sell_pc \<Rightarrow> int" where
  "sold_upto t pc = (if pending pc then t else t + 1)"

definition tickets_down :: "int \<Rightarrow> int list" where
  "tickets_down t = rev [t..1000]"

definition holder_pc :: "tickets \<Rightarrow> sell_pc" where
  "holder_pc s = (case owner s of Some i \<Rightarrow> windows s ! i | None \<Rightarrow> SellLock)"

definition tickets_inv :: "tickets \<Rightarrow> bool" where
  "tickets_inv s \<longleftrightarrow>
     0 \<le> ticket s \<and> ticket s \<le> 1000 \<and> length (windows s) \<le> 3
   \<and> (\<forall>i < length (windows s). pc_ok (ticket s) (windows s ! i))
   \<and> (\<forall>i < length (windows s). inside_pc (windows s ! i) \<longleftrightarrow> owner s = Some i)
   \<and> (\<forall>i. owner s = Some i \<longrightarrow> i < length (windows s))
   \<and> (main_at s = MainInit \<longrightarrow> windows s = [])
   \<and> (main_at s \<in> {MainDetach, MainExited} \<longrightarrow> length (windows s) = 3)
   \<and> map snd (printed s) = tickets_down (sold_upto (ticket s) (holder_pc s))"

lemmas ticket_defs = mutex_step_def mutex_main_def mutex_sellticket_def goto_def

lemmas pc_defs = inside_pc_def pc_ok_def pending_def sold_upto_def

lemma holder_pc_inv:
  assumes "tickets_inv s" and "i < length (windows s)" and "inside_pc (windows s ! i)"
  shows "owner s = Some i" "holder_pc s = windows s ! i"
  using assms by (auto simp: tickets_inv_def holder_pc_def)

lemma tickets_down_start: "tickets_down 1001 = []"
  by (simp add: tickets_down_def)

lemma tickets_down_next: "t \<le> 1000 \<Longrightarrow> tickets_down (t + 1) @ [t] = tickets_down t"
  using upto_rec1 [of t 1000] by (simp add: tickets_down_def)

lemma mutex_start_inv: "tickets_inv mutex_start"
  by (simp add: tickets_inv_def mutex_start_def holder_pc_def pc_defs tickets_down_start)

lemma tickets_inv_create:
  assumes inv: "tickets_inv s" and n: "length (windows s) < 3" and m: "main_at s = MainCreate"
  shows "tickets_inv (s\<lparr>windows := windows s @ [SellLock]\<rparr>)"
proof -
  have h: "holder_pc (s\<lparr>windows := windows s @ [SellLock]\<rparr>) = holder_pc s"
    using inv by (auto simp: holder_pc_def tickets_inv_def nth_append split: option.splits)
  show ?thesis
    unfolding tickets_inv_def h
    using inv n m by (auto simp: tickets_inv_def nth_append less_Suc_eq pc_ok_def inside_pc_def)
qed

lemma holder_pc_main [simp]: "holder_pc (s\<lparr>main_at := m\<rparr>) = holder_pc s"
  by (cases "owner s") (simp_all add: holder_pc_def)

lemma mutex_main_inv:
  assumes "tickets_inv s" and "mutex_main s = Some s'"
  shows "tickets_inv s'"
proof (cases "main_at s")
  case MainInit
  with assms show ?thesis
    by (cases "owner s") (auto simp: mutex_main_def tickets_inv_def holder_pc_def)
next
  case MainCreate
  show ?thesis
  proof (cases "length (windows s) < 3")
    case True
    with assms MainCreate show ?thesis by (auto simp: mutex_main_def tickets_inv_create)
  next
    case False
    with assms MainCreate show ?thesis by (auto simp: mutex_main_def tickets_inv_def)
  qed
next
  case MainDetach
  with assms show ?thesis by (auto simp: mutex_main_def tickets_inv_def)
next
  case MainExited
  with assms show ?thesis by (simp add: mutex_main_def)
qed

text \<open>One move of window \<open>i\<close>, which holds the lock before it or finds it free.\<close>

lemma tickets_inv_move:
  assumes inv: "tickets_inv s" and i: "i < length (windows s)"
    and free: "owner s = None \<or> owner s = Some i"
    and s': "windows s' = (windows s)[i := pc']" "main_at s' = main_at s"
      "owner s' = (if inside_pc pc' then Some i else None)"
    and pc': "pc_ok (ticket s') pc'"
    and t': "0 \<le> ticket s'" "ticket s' \<le> 1000" "ticket s' = ticket s \<or> 0 < ticket s"
    and pr: "map snd (printed s') =
               tickets_down (sold_upto (ticket s') (if inside_pc pc' then pc' else SellLock))"
  shows "tickets_inv s'"
proof -
  have others: "\<not> inside_pc (windows s ! j)" if "j < length (windows s)" "j \<noteq> i" for j
    using inv free that by (auto simp: tickets_inv_def)
  have ok: "pc_ok (ticket s') (windows s ! j)" if j: "j < length (windows s)" "j \<noteq> i" for j
  proof (cases "ticket s' = ticket s")
    case True
    with inv j show ?thesis by (simp add: tickets_inv_def)
  next
    case False
    with t'(3) have "0 < ticket s" by simp
    moreover have "pc_ok (ticket s) (windows s ! j)" using inv j by (simp add: tickets_inv_def)
    ultimately show ?thesis using others [OF j] by (auto simp: pc_ok_def inside_pc_def)
  qed
  have "holder_pc s' = (if inside_pc pc' then pc' else SellLock)"
    using s' i by (simp add: holder_pc_def)
  then show ?thesis
    using inv i pc' t'(1,2) pr others ok s'
    by (auto simp: tickets_inv_def nth_list_update)
qed

lemma mutex_sellticket_inv:
  assumes inv: "tickets_inv s" and i: "i < length (windows s)"
    and step: "mutex_sellticket i s = Some s'"
  shows "tickets_inv s'"
proof -
  have bounds: "0 \<le> ticket s" "ticket s \<le> 1000" and ok: "pc_ok (ticket s) (windows s ! i)"
    and pr: "map snd (printed s) = tickets_down (sold_upto (ticket s) (holder_pc s))"
    using inv i by (auto simp: tickets_inv_def)
  show ?thesis
  proof (cases "inside_pc (windows s ! i)")
    case False
    then have "windows s ! i = SellLock" "owner s = None"
      and s': "s' = goto i SellTest (s\<lparr>owner := Some i\<rparr>)"
      using step by (auto simp: inside_pc_def mutex_sellticket_def split: if_splits)
    then show ?thesis
      using tickets_inv_move [OF inv i, of s' SellTest] bounds pr
      by (simp add: pc_defs holder_pc_def goto_def)
  next
    case True
    note own = holder_pc_inv [OF inv i True]
    note move = tickets_inv_move [OF inv i disjI2 [OF own(1)], of s']
    show ?thesis
    proof (cases "windows s ! i")
      case SellTest
      then show ?thesis
        using step own pr bounds
        by (intro move [of "if 0 < ticket s then SellPrint else SellUnlockBreak"])
           (auto simp: pc_defs mutex_sellticket_def goto_def)
    next
      case SellPrint
      then show ?thesis
        using step own pr bounds ok
        by (intro move [of SellLoad])
           (auto simp: pc_defs mutex_sellticket_def goto_def tickets_down_next)
    next
      case SellLoad
      then show ?thesis
        using step own pr bounds ok
        by (intro move [of "SellStore (ticket s)"]) (auto simp: pc_defs mutex_sellticket_def goto_def)
    next
      case (SellStore v)
      then show ?thesis
        using step own pr bounds ok
        by (intro move [of SellUnlock]) (auto simp: pc_defs mutex_sellticket_def goto_def)
    next
      case SellUnlock
      then show ?thesis
        using step own pr bounds ok
        by (intro move [of SellLock]) (auto simp: pc_defs mutex_sellticket_def goto_def)
    next
      case SellUnlockBreak
      then show ?thesis
        using step own pr bounds ok
        by (intro move [of SellReturned]) (auto simp: pc_defs mutex_sellticket_def goto_def)
    qed (use True in \<open>auto simp: inside_pc_def\<close>)
  qed
qed

lemma mutex_step_inv:
  assumes "tickets_inv s" and "mutex_step a s = Some s'"
  shows "tickets_inv s'"
proof (cases a)
  case MainThread
  with assms(2) have "mutex_main s = Some s'" by (simp add: mutex_step_def)
  with assms(1) show ?thesis by (rule mutex_main_inv)
next
  case (Window i)
  with assms(2) have "i < length (windows s)" "mutex_sellticket i s = Some s'"
    by (simp_all add: mutex_step_def split: if_splits)
  with assms(1) show ?thesis by (rule mutex_sellticket_inv)
qed


subsection \<open>Progress\<close>

text \<open>A bound on the steps left: six for each ticket, and what the windows and \<open>main\<close> still do.\<close>

definition pc_work :: "sell_pc \<Rightarrow> nat" where
  "pc_work pc =
     (case pc of
        SellUnlock \<Rightarrow> 6 | SellLock \<Rightarrow> 5 | SellTest \<Rightarrow> 4 | SellPrint \<Rightarrow> 3 | SellLoad \<Rightarrow> 2
      | SellStore _ \<Rightarrow> 1 | SellUnlockBreak \<Rightarrow> 1 | SellReturned \<Rightarrow> 0)"

definition main_work :: "tickets \<Rightarrow> nat" where
  "main_work s =
     (case main_at s of
        MainInit \<Rightarrow> 21 | MainCreate \<Rightarrow> 2 + 6 * (3 - length (windows s))
      | MainDetach \<Rightarrow> 1 | MainExited \<Rightarrow> 0)"

definition tickets_work :: "tickets \<Rightarrow> nat" where
  "tickets_work s = 6 * nat (ticket s) + sum_list (map pc_work (windows s)) + main_work s"

lemma sum_list_map_update:
  fixes f :: "'a \<Rightarrow> nat"
  shows "i < length xs \<Longrightarrow> sum_list (map f (xs[i := y])) + f (xs ! i) = sum_list (map f xs) + f y"
  by (induction xs arbitrary: i) (auto split: nat.split)

lemma mutex_main_work:
  "tickets_inv s \<Longrightarrow> mutex_main s = Some s' \<Longrightarrow> tickets_work s' < tickets_work s"
  by (auto simp: mutex_main_def tickets_inv_def tickets_work_def main_work_def pc_work_def
      split: main_pc.splits if_splits)

lemma mutex_sellticket_work:
  assumes inv: "tickets_inv s" and i: "i < length (windows s)"
    and step: "mutex_sellticket i s = Some s'"
  shows "tickets_work s' < tickets_work s"
proof -
  have ok: "pc_ok (ticket s) (windows s ! i)" using inv i by (simp add: tickets_inv_def)
  obtain pc' where w: "windows s' = (windows s)[i := pc']" and m: "main_at s' = main_at s"
    and drop: "6 * nat (ticket s') + pc_work pc' < 6 * nat (ticket s) + pc_work (windows s ! i)"
    using step ok
    by (cases "windows s ! i")
       (auto simp: mutex_sellticket_def goto_def pc_work_def pc_ok_def split: if_splits)
  have "main_work s' = main_work s"
    by (cases "main_at s") (simp_all add: main_work_def w m)
  then show ?thesis
    using sum_list_map_update [OF i, of pc_work pc'] drop by (simp add: tickets_work_def w)
qed

lemma mutex_step_work:
  assumes "tickets_inv s" and "mutex_step a s = Some s'"
  shows "tickets_work s' < tickets_work s"
  using assms(2) mutex_main_work [OF assms(1)] mutex_sellticket_work [OF assms(1)]
  by (auto simp: mutex_step_def split: actor.splits if_splits)

interpretation tickets: lock_discipline mutex_step mutex_start tickets_inv selling
  "\<lambda>s. map_option Window (owner s)"
proof unfold_locales
  show "tickets_inv mutex_start" by (rule mutex_start_inv)
  show "tickets_inv s'" if "tickets_inv s" "mutex_step t s = Some s'" for s t s'
    using that by (rule mutex_step_inv)
  show "map_option Window (owner s) = Some t" if "tickets_inv s" "selling s t" for s t
    using that by (auto simp: selling_def tickets_inv_def split: actor.splits)
qed

interpretation tickets: bounded_threads mutex_step mutex_start tickets_inv tickets_work
  by unfold_locales (rule mutex_step_work)

lemma tickets_at_rest:
  assumes inv: "tickets_inv s" and rest: "at_rest mutex_step s"
  shows "windows s = replicate 3 SellReturned" "ticket s = 0" "map snd (printed s) = tickets_down 1"
proof -
  have win: "mutex_sellticket i s = None" if "i < length (windows s)" for i
    using rest that by (auto simp: at_rest_def mutex_step_def dest: spec [of _ "Window i"])
  have "mutex_main s = None"
    using rest by (auto simp: at_rest_def mutex_step_def dest: spec [of _ MainThread])
  then have "main_at s = MainExited" by (auto simp: mutex_main_def split: main_pc.splits if_splits)
  with inv have n: "length (windows s) = 3" by (simp add: tickets_inv_def)
  have free: "owner s = None"
  proof (cases "owner s")
    case (Some i)
    with inv have "i < length (windows s)" "inside_pc (windows s ! i)" by (auto simp: tickets_inv_def)
    with win [of i] show ?thesis
      by (auto simp: mutex_sellticket_def inside_pc_def split: sell_pc.splits)
  qed
  have ret: "windows s ! i = SellReturned" if "i < length (windows s)" for i
    using win [OF that] free by (auto simp: mutex_sellticket_def split: sell_pc.splits)
  then show "windows s = replicate 3 SellReturned" using n by (auto intro: nth_equalityI)
  have "pc_ok (ticket s) (windows s ! 0)" using inv n by (simp add: tickets_inv_def)
  then show "ticket s = 0" using ret [of 0] n by (simp add: pc_ok_def)
  then show "map snd (printed s) = tickets_down 1"
    using inv free by (simp add: tickets_inv_def holder_pc_def sold_upto_def pending_def)
qed

lemma distinct_tickets_down: "distinct (tickets_down t)"
  by (simp add: tickets_down_def)

text \<open>
  C31. The windows of \<open>mutex.c\<close>: however the three windows and \<open>main\<close> are interleaved, at most one
  window is between lock and unlock, no ticket number is printed twice, the run takes at most 6021
  steps, and when nothing can move any more every window has returned, no ticket is left and the
  numbers printed are 1000, 999 and so on down to 1, each once and in that order.
\<close>

theorem tickets_sold_once:
  assumes "run_schedule mutex_step sched mutex_start = Some s"
  shows "(\<forall>a b. selling s a \<and> selling s b \<longrightarrow> a = b)
       \<and> 0 \<le> ticket s \<and> distinct (map snd (printed s)) \<and> length sched \<le> 6021
       \<and> (at_rest mutex_step s \<longrightarrow>
            windows s = replicate 3 SellReturned \<and> ticket s = 0
          \<and> map snd (printed s) = rev [1..1000])"
proof -
  have r: "reachable mutex_step mutex_start s"
    using assms by (auto simp: reachable_iff_run)
  note inv = tickets.always [OF r]
  have "tickets_work mutex_start = 6021" by (simp add: tickets_work_def main_work_def mutex_start_def)
  then have "length sched \<le> 6021" using tickets.schedule_bounded [OF assms] by simp
  moreover have "0 \<le> ticket s" "distinct (map snd (printed s))"
    using inv by (auto simp: tickets_inv_def distinct_tickets_down)
  ultimately show ?thesis
    using tickets.exclusive [OF r] tickets_at_rest [OF inv] unfolding tickets_down_def by blast
qed

theorem tickets_sold_once_witness:
  "(\<exists>s. run_schedule mutex_step [MainThread, MainThread, Window 0, MainThread, Window 0, Window 0]
          mutex_start = Some s
      \<and> selling s (Window 0) \<and> \<not> selling s (Window 1) \<and> map snd (printed s) = [1000]
      \<and> distinct (map snd (printed s)))
 \<and> (\<exists>sched s. run_schedule mutex_step sched mutex_start = Some s \<and> at_rest mutex_step s
      \<and> map snd (printed s) = rev [1..1000])"
proof
  obtain s where s: "run_schedule mutex_step
      [MainThread, MainThread, Window 0, MainThread, Window 0, Window 0] mutex_start = Some s"
    and facts: "selling s (Window 0)" "\<not> selling s (Window 1)" "map snd (printed s) = [1000]"
    by (simp add: ticket_defs mutex_start_def selling_def inside_pc_def)
  have "distinct (map snd (printed s))" using tickets_sold_once [OF s] by (elim conjE)
  with s facts show "\<exists>s. run_schedule mutex_step
          [MainThread, MainThread, Window 0, MainThread, Window 0, Window 0] mutex_start = Some s
      \<and> selling s (Window 0) \<and> \<not> selling s (Window 1) \<and> map snd (printed s) = [1000]
      \<and> distinct (map snd (printed s))"
    by (intro exI [of _ s] conjI)
  obtain sched s where s: "run_schedule mutex_step sched mutex_start = Some s"
    and rest: "at_rest mutex_step s"
    using tickets.comes_to_rest [OF reachable_init] by blast
  have "map snd (printed s) = rev [1..1000]"
    using tickets_sold_once [OF s] rest by (elim conjE) (drule (1) mp, elim conjE, assumption)
  with s rest show "\<exists>sched s. run_schedule mutex_step sched mutex_start = Some s \<and> at_rest mutex_step s
      \<and> map snd (printed s) = rev [1..1000]"
    by blast
qed


section \<open>\<open>sell.c\<close>\<close>

text \<open>The same loop with no lock: the test, the print and the decrement each read \<open>ticket\<close>.\<close>

definition sell_start :: tickets where
  "sell_start = \<lparr>ticket = 100, owner = None, windows = [], printed = [], main_at = MainCreate\<rparr>"

definition sell_sellticket :: "nat \<Rightarrow> tickets \<Rightarrow> tickets option" where
  "sell_sellticket i s =
     (case windows s ! i of
        SellTest \<Rightarrow> Some (goto i (if 0 < ticket s then SellPrint else SellReturned) s)
      | SellPrint \<Rightarrow> Some (goto i SellLoad (s\<lparr>printed := printed s @ [(i, ticket s)]\<rparr>))
      | SellLoad \<Rightarrow> Some (goto i (SellStore (ticket s)) s)
      | SellStore v \<Rightarrow> Some (goto i SellTest (s\<lparr>ticket := v - 1\<rparr>))
      | _ \<Rightarrow> None)"

definition sell_main :: "tickets \<Rightarrow> tickets option" where
  "sell_main s =
     (case main_at s of
        MainCreate \<Rightarrow>
          (if length (windows s) < 3 then Some (s\<lparr>windows := windows s @ [SellTest]\<rparr>)
           else Some (s\<lparr>main_at := MainDetach\<rparr>))
      | MainDetach \<Rightarrow> Some (s\<lparr>main_at := MainExited\<rparr>)
      | _ \<Rightarrow> None)"

definition sell_step :: "actor \<Rightarrow> tickets \<Rightarrow> tickets option" where
  "sell_step a s =
     (case a of
        MainThread \<Rightarrow> sell_main s
      | Window i \<Rightarrow> if i < length (windows s) then sell_sellticket i s else None)"

lemmas sell_defs = sell_step_def sell_main_def sell_sellticket_def goto_def

text \<open>A window left alone sells one ticket after the other.\<close>

lemma sell_alone:
  assumes "i < length (windows s)" and "windows s ! i = SellTest" and "int n \<le> ticket s"
  shows "\<exists>p. run_schedule sell_step (concat (replicate n (replicate 4 (Window i)))) s
           = Some (s\<lparr>ticket := ticket s - int n, printed := printed s @ p\<rparr>)"
  using assms
proof (induction n arbitrary: s)
  case (Suc n)
  let ?s = "s\<lparr>ticket := ticket s - 1, printed := printed s @ [(i, ticket s)]\<rparr>"
  have one: "run_schedule sell_step (replicate 4 (Window i)) s = Some ?s"
    using Suc.prems list_update_id [of "windows s" i]
    by (cases s) (simp add: numeral_eq_Suc sell_defs)
  from Suc.prems have "\<exists>p. run_schedule sell_step (concat (replicate n (replicate 4 (Window i)))) ?s
      = Some (?s\<lparr>ticket := ticket ?s - int n, printed := printed ?s @ p\<rparr>)"
    by (intro Suc.IH) auto
  with one show ?case by (auto simp: run_schedule_append algebra_simps)
qed (auto intro: exI [of _ "[]"])

text \<open>
  The last ticket can be sold three times: all three windows pass the test before any of them takes
  it off, and \<open>ticket\<close> ends at -2.
\<close>

theorem sell_oversells:
  "\<exists>s. reachable sell_step sell_start s \<and> ticket s = -2
     \<and> (\<exists>p. map snd (printed s) = p @ [1, 1, 1]) \<and> windows s = replicate 3 SellReturned"
proof -
  let ?s = "\<lparr>ticket = 100, owner = None, windows = replicate 3 SellTest, printed = [], main_at = MainCreate\<rparr>"
  have start: "run_schedule sell_step (replicate 3 MainThread) sell_start = Some ?s"
    by (simp add: numeral_eq_Suc sell_defs sell_start_def)
  obtain p where p: "run_schedule sell_step (concat (replicate 99 (replicate 4 (Window 0)))) ?s
      = Some (?s\<lparr>ticket := 1, printed := p\<rparr>)"
    using sell_alone [of 0 ?s 99] by auto
  let ?race = "[Window 0, Window 1, Window 2, Window 0, Window 1, Window 2, Window 0, Window 0,
                Window 1, Window 1, Window 2, Window 2, Window 0, Window 1, Window 2]"
  obtain s where s: "run_schedule sell_step ?race (?s\<lparr>ticket := 1, printed := p\<rparr>) = Some s"
    and end_s: "ticket s = -2" "map snd (printed s) = map snd p @ [1, 1, 1]"
      "windows s = replicate 3 SellReturned"
    by (simp add: numeral_eq_Suc sell_defs)
  have "reachable sell_step sell_start s"
    using run_schedule_reachable [OF run_schedule_reachable [OF run_schedule_reachable
        [OF reachable_init start] p] s] .
  with end_s show ?thesis by blast
qed

end
