(* ===== verification/Train_Rwlock.thy ===== *)
theory Train_Rwlock
  imports Interleaving
begin

text \<open>
  \<open>src/bck/train/chapter 3/rwlock.c\<close>: three writers count a number down under a write lock while
  five readers print it under a read lock, and \<open>main\<close> joins all eight before it destroys the lock.
  The threads are a list of program counters in the order \<open>main\<close> creates them; the lock is the
  writer that holds it and the set of the readers that hold it.
\<close>

datatype rw_pc =
    WLock | WTest | WLoad | WStore int | WPrint | WUnlock | WUnlockBreak | WReturned
  | RLock | RTest | RPrint | RUnlock | RUnlockBreak | RReturned

datatype rw_main_pc = RwInit | RwCreate | RwJoin nat | RwDestroy | RwExited

datatype rw_actor = RwMain | RwThread nat

datatype rw_output = WriteNum int | ReadNum int

record rwstate =
  num :: int
  wr_holder :: "nat option"
  rd_holders :: "nat set"
  threads :: "rw_pc list"
  rw_log :: "(nat \<times> rw_output) list"
  rw_main_at :: rw_main_pc
  destroyed :: bool

definition rwlock_start :: rwstate where
  "rwlock_start = \<lparr>num = 1000, wr_holder = None, rd_holders = {}, threads = [], rw_log = [],
     rw_main_at = RwInit, destroyed = False\<rparr>"

definition rw_goto :: "nat \<Rightarrow> rw_pc \<Rightarrow> rwstate \<Rightarrow> rwstate" where
  "rw_goto i pc s = s\<lparr>threads := (threads s)[i := pc]\<rparr>"

definition writenum :: "nat \<Rightarrow> rwstate \<Rightarrow> rwstate option" where
  "writenum i s =
     (case threads s ! i of
        WLock \<Rightarrow>
          (if wr_holder s = None \<and> rd_holders s = {}
           then Some (rw_goto i WTest (s\<lparr>wr_holder := Some i\<rparr>)) else None)
      | WTest \<Rightarrow> Some (rw_goto i (if 0 < num s then WLoad else WUnlockBreak) s)
      | WLoad \<Rightarrow> Some (rw_goto i (WStore (num s)) s)
      | WStore v \<Rightarrow> Some (rw_goto i WPrint (s\<lparr>num := v - 1\<rparr>))
      | WPrint \<Rightarrow> Some (rw_goto i WUnlock (s\<lparr>rw_log := rw_log s @ [(i, WriteNum (num s))]\<rparr>))
      | WUnlock \<Rightarrow> Some (rw_goto i WLock (s\<lparr>wr_holder := None\<rparr>))
      | WUnlockBreak \<Rightarrow> Some (rw_goto i WReturned (s\<lparr>wr_holder := None\<rparr>))
      | _ \<Rightarrow> None)"

definition readnum :: "nat \<Rightarrow> rwstate \<Rightarrow> rwstate option" where
  "readnum i s =
     (case threads s ! i of
        RLock \<Rightarrow>
          (if wr_holder s = None
           then Some (rw_goto i RTest (s\<lparr>rd_holders := insert i (rd_holders s)\<rparr>)) else None)
      | RTest \<Rightarrow> Some (rw_goto i (if 0 < num s then RPrint else RUnlockBreak) s)
      | RPrint \<Rightarrow> Some (rw_goto i RUnlock (s\<lparr>rw_log := rw_log s @ [(i, ReadNum (num s))]\<rparr>))
      | RUnlock \<Rightarrow> Some (rw_goto i RLock (s\<lparr>rd_holders := rd_holders s - {i}\<rparr>))
      | RUnlockBreak \<Rightarrow> Some (rw_goto i RReturned (s\<lparr>rd_holders := rd_holders s - {i}\<rparr>))
      | _ \<Rightarrow> None)"

definition rw_returned :: "rw_pc \<Rightarrow> bool" where
  "rw_returned pc \<longleftrightarrow> pc = WReturned \<or> pc = RReturned"

definition rwlock_main :: "rwstate \<Rightarrow> rwstate option" where
  "rwlock_main s =
     (case rw_main_at s of
        RwInit \<Rightarrow> Some (s\<lparr>rw_main_at := RwCreate\<rparr>)
      | RwCreate \<Rightarrow>
          (if length (threads s) < 3 then Some (s\<lparr>threads := threads s @ [WLock]\<rparr>)
           else if length (threads s) < 8 then Some (s\<lparr>threads := threads s @ [RLock]\<rparr>)
           else Some (s\<lparr>rw_main_at := RwJoin 0\<rparr>))
      | RwJoin k \<Rightarrow>
          (if k < 8 then (if rw_returned (threads s ! k) then Some (s\<lparr>rw_main_at := RwJoin (k + 1)\<rparr>) else None)
           else Some (s\<lparr>rw_main_at := RwDestroy\<rparr>))
      | RwDestroy \<Rightarrow> Some (s\<lparr>destroyed := True, rw_main_at := RwExited\<rparr>)
      | RwExited \<Rightarrow> None)"

definition rwlock_step :: "rw_actor \<Rightarrow> rwstate \<Rightarrow> rwstate option" where
  "rwlock_step a s =
     (case a of
        RwMain \<Rightarrow> rwlock_main s
      | RwThread i \<Rightarrow>
          (if i < length (threads s) then (if i < 3 then writenum i s else readnum i s) else None))"


section \<open>The sequential meaning of what is printed\<close>

text \<open>
  Reading and writing one after the other: a write takes one off a positive number and prints what is
  left, a read prints the number and only while it is positive.
\<close>

fun replay :: "int \<Rightarrow> rw_output list \<Rightarrow> int option" where
  "replay n [] = Some n"
| "replay n (WriteNum v # l) = (if 0 < n \<and> v = n - 1 then replay v l else None)"
| "replay n (ReadNum v # l) = (if 0 < n \<and> v = n then replay n l else None)"

lemma replay_append:
  "replay n (l @ l') = (case replay n l of None \<Rightarrow> None | Some n' \<Rightarrow> replay n' l')"
  by (induction n l rule: replay.induct) auto


section \<open>What every interleaving keeps\<close>

definition writing :: "rw_pc \<Rightarrow> bool" where
  "writing pc = (case pc of WTest \<Rightarrow> True | WLoad \<Rightarrow> True | WStore _ \<Rightarrow> True | WPrint \<Rightarrow> True
     | WUnlock \<Rightarrow> True | WUnlockBreak \<Rightarrow> True | _ \<Rightarrow> False)"

definition reading :: "rw_pc \<Rightarrow> bool" where
  "reading pc \<longleftrightarrow> pc \<in> {RTest, RPrint, RUnlock, RUnlockBreak}"

definition writer_pc :: "rw_pc \<Rightarrow> bool" where
  "writer_pc pc \<longleftrightarrow> writing pc \<or> pc = WLock \<or> pc = WReturned"

definition reader_pc :: "rw_pc \<Rightarrow> bool" where
  "reader_pc pc \<longleftrightarrow> reading pc \<or> pc = RLock \<or> pc = RReturned"

definition rw_pc_ok :: "int \<Rightarrow> rw_pc \<Rightarrow> bool" where
  "rw_pc_ok n pc =
     (case pc of
        WLoad \<Rightarrow> 0 < n | WStore v \<Rightarrow> 0 < n \<and> v = n | RPrint \<Rightarrow> 0 < n
      | WUnlockBreak \<Rightarrow> n = 0 | RUnlockBreak \<Rightarrow> n = 0 | WReturned \<Rightarrow> n = 0 | RReturned \<Rightarrow> n = 0
      | _ \<Rightarrow> True)"

definition wr_pc :: "rwstate \<Rightarrow> rw_pc" where
  "wr_pc s = (case wr_holder s of Some i \<Rightarrow> threads s ! i | None \<Rightarrow> WLock)"

definition unprinted :: "int \<Rightarrow> rw_pc \<Rightarrow> int" where
  "unprinted n pc = (if pc = WPrint then n + 1 else n)"

definition rw_threads_ok :: "rwstate \<Rightarrow> bool" where
  "rw_threads_ok s \<longleftrightarrow>
     (\<forall>i < length (threads s).
        rw_pc_ok (num s) (threads s ! i)
      \<and> (if i < 3 then writer_pc (threads s ! i) else reader_pc (threads s ! i))
      \<and> (writing (threads s ! i) \<longleftrightarrow> wr_holder s = Some i)
      \<and> (reading (threads s ! i) \<longleftrightarrow> i \<in> rd_holders s))"

definition rw_main_ok :: "rwstate \<Rightarrow> bool" where
  "rw_main_ok s \<longleftrightarrow>
     (rw_main_at s \<noteq> RwInit \<and> rw_main_at s \<noteq> RwCreate \<longrightarrow> length (threads s) = 8)
   \<and> (\<forall>k. rw_main_at s = RwJoin k \<longrightarrow> k \<le> 8 \<and> (\<forall>i < k. rw_returned (threads s ! i)))
   \<and> (rw_main_at s = RwDestroy \<or> rw_main_at s = RwExited \<longrightarrow> (\<forall>i < 8. rw_returned (threads s ! i)))
   \<and> (destroyed s \<longleftrightarrow> rw_main_at s = RwExited)"

definition rwlock_inv :: "rwstate \<Rightarrow> bool" where
  "rwlock_inv s \<longleftrightarrow>
     0 \<le> num s \<and> length (threads s) \<le> 8 \<and> rw_threads_ok s \<and> rw_main_ok s
   \<and> (\<forall>i. wr_holder s = Some i \<longrightarrow> i < length (threads s) \<and> rd_holders s = {})
   \<and> (\<forall>i \<in> rd_holders s. i < length (threads s))
   \<and> replay 1000 (map snd (rw_log s)) = Some (unprinted (num s) (wr_pc s))"

lemmas rw_pc_defs = writing_def reading_def writer_pc_def reader_pc_def rw_pc_ok_def unprinted_def

lemma rwlock_start_inv: "rwlock_inv rwlock_start"
  by (simp add: rwlock_inv_def rw_threads_ok_def rw_main_ok_def rwlock_start_def wr_pc_def unprinted_def)

text \<open>One move of thread \<open>i\<close>.\<close>

lemma rwlock_inv_move:
  assumes inv: "rwlock_inv s" and i: "i < length (threads s)" and live: "\<not> rw_returned (threads s ! i)"
    and s': "threads s' = (threads s)[i := pc']" "rw_main_at s' = rw_main_at s" "destroyed s' = destroyed s"
    and role: "if i < 3 then writer_pc pc' else reader_pc pc'"
    and wr: "wr_holder s' = (if writing pc' then Some i else if wr_holder s = Some i then None else wr_holder s)"
    and rd: "rd_holders s' = (if reading pc' then insert i (rd_holders s) else rd_holders s - {i})"
    and excl: "writing pc' \<Longrightarrow> (wr_holder s = None \<or> wr_holder s = Some i) \<and> rd_holders s - {i} = {}"
      "reading pc' \<Longrightarrow> wr_holder s = None \<or> wr_holder s = Some i"
    and ok: "rw_pc_ok (num s') pc'" "0 \<le> num s'"
      "num s' = num s \<or> 0 < num s \<and> wr_holder s = Some i"
    and log: "replay 1000 (map snd (rw_log s')) = Some (unprinted (num s') (wr_pc s'))"
  shows "rwlock_inv s'"
proof -
  have thr: "rw_threads_ok s" "rw_main_ok s" using inv by (simp_all add: rwlock_inv_def)
  have oth: "rw_pc_ok (num s') (threads s ! j)" if j: "j < length (threads s)" "j \<noteq> i" for j
  proof (cases "num s' = num s")
    case True
    with thr j show ?thesis by (simp add: rw_threads_ok_def)
  next
    case False
    with ok(3) have n: "0 < num s" "wr_holder s = Some i" by auto
    with inv have "rd_holders s = {}" by (auto simp: rwlock_inv_def)
    with n thr(1) j have "rw_pc_ok (num s) (threads s ! j)" "\<not> writing (threads s ! j)" "\<not> reading (threads s ! j)"
      by (auto simp: rw_threads_ok_def)
    with n(1) show ?thesis by (auto simp: rw_pc_ok_def writing_def reading_def split: rw_pc.splits)
  qed
  have "rw_threads_ok s'"
    using thr(1) oth role wr rd ok(1) excl i unfolding rw_threads_ok_def s'
    by (auto simp: nth_list_update)
  moreover have "rw_main_ok s'"
    using thr(2) live i unfolding rw_main_ok_def s' by (auto simp: nth_list_update)
  moreover have "writing pc' \<Longrightarrow> \<not> reading pc'"
    by (auto simp: writing_def reading_def)
  ultimately show ?thesis
    using inv ok(2) log i wr rd excl unfolding rwlock_inv_def s'
    by (auto split: if_splits)
qed

lemma writing_holds:
  assumes "rwlock_inv s" and "i < length (threads s)" and "writing (threads s ! i)"
  shows "wr_holder s = Some i" "rd_holders s = {}" "wr_pc s = threads s ! i"
  using assms by (auto simp: rwlock_inv_def rw_threads_ok_def wr_pc_def)

lemma reading_holds:
  assumes "rwlock_inv s" and "i < length (threads s)" and "reading (threads s ! i)"
  shows "wr_holder s = None" "i \<in> rd_holders s"
  using assms by (cases "wr_holder s"; auto simp: rwlock_inv_def rw_threads_ok_def)+

lemma rwlock_inv_threadD:
  assumes "rwlock_inv s" and "i < length (threads s)"
  shows "rw_pc_ok (num s) (threads s ! i)" "0 \<le> num s"
    "if i < 3 then writer_pc (threads s ! i) else reader_pc (threads s ! i)"
    "replay 1000 (map snd (rw_log s)) = Some (unprinted (num s) (wr_pc s))"
  using assms by (simp_all add: rwlock_inv_def rw_threads_ok_def)

lemma writenum_inv:
  assumes inv: "rwlock_inv s" and i: "i < length (threads s)" "i < 3"
    and step: "writenum i s = Some s'"
  shows "rwlock_inv s'"
proof -
  note facts = rwlock_inv_threadD [OF inv i(1)]
  have live: "\<not> rw_returned (threads s ! i)"
    using step by (auto simp: writenum_def rw_returned_def)
  note move = rwlock_inv_move [OF inv i(1) live, of s']
  show ?thesis
  proof (cases "writing (threads s ! i)")
    case False
    with facts(3) i(2) live have lock: "threads s ! i = WLock"
      by (simp add: writer_pc_def rw_returned_def)
    with step have free: "wr_holder s = None" "rd_holders s = {}"
      and s': "s' = rw_goto i WTest (s\<lparr>wr_holder := Some i\<rparr>)"
      by (auto simp: writenum_def split: if_splits)
    show ?thesis
      using free i facts(2,4) s'
      by (intro move [of WTest]) (auto simp: rw_pc_defs rw_goto_def wr_pc_def)
  next
    case True
    note own = writing_holds [OF inv i(1) True]
    show ?thesis
    proof (cases "threads s ! i")
      case WTest
      then show ?thesis
        using step own i facts(1,2,4)
        by (intro move [of "if 0 < num s then WLoad else WUnlockBreak"])
           (auto simp: rw_pc_defs rw_goto_def writenum_def wr_pc_def split: if_splits)
    next
      case WLoad
      then show ?thesis
        using step own i facts(1,2,4)
        by (intro move [of "WStore (num s)"]) (auto simp: rw_pc_defs rw_goto_def writenum_def wr_pc_def)
    next
      case (WStore v)
      then show ?thesis
        using step own i facts(1,2,4)
        by (intro move [of WPrint]) (auto simp: rw_pc_defs rw_goto_def writenum_def wr_pc_def)
    next
      case WPrint
      then show ?thesis
        using step own i facts(1,2,4)
        by (intro move [of WUnlock])
           (auto simp: rw_pc_defs rw_goto_def writenum_def wr_pc_def replay_append)
    next
      case WUnlock
      then show ?thesis
        using step own i facts(1,2,4)
        by (intro move [of WLock]) (auto simp: rw_pc_defs rw_goto_def writenum_def wr_pc_def)
    next
      case WUnlockBreak
      then show ?thesis
        using step own i facts(1,2,4)
        by (intro move [of WReturned]) (auto simp: rw_pc_defs rw_goto_def writenum_def wr_pc_def)
    qed (use True in \<open>auto simp: writing_def\<close>)
  qed
qed

lemma readnum_inv:
  assumes inv: "rwlock_inv s" and i: "i < length (threads s)" "\<not> i < 3"
    and step: "readnum i s = Some s'"
  shows "rwlock_inv s'"
proof -
  note facts = rwlock_inv_threadD [OF inv i(1)]
  have live: "\<not> rw_returned (threads s ! i)"
    using step by (auto simp: readnum_def rw_returned_def)
  note move = rwlock_inv_move [OF inv i(1) live, of s']
  have free: "wr_holder s = None"
    using step reading_holds(1) [OF inv i(1)]
    by (auto simp: readnum_def reading_def split: rw_pc.splits if_splits)
  have pc: "threads s ! i \<in> {RLock, RTest, RPrint, RUnlock, RUnlockBreak}"
    using step by (auto simp: readnum_def split: rw_pc.splits)
  have in_rd: "threads s ! i \<noteq> RLock \<Longrightarrow> i \<in> rd_holders s"
    using reading_holds(2) [OF inv i(1)] pc by (auto simp: reading_def)
  consider (lock) "threads s ! i = RLock" | (test) "threads s ! i = RTest" | (pr) "threads s ! i = RPrint"
    | (un) "threads s ! i = RUnlock" | (brk) "threads s ! i = RUnlockBreak"
    using pc by auto
  then show ?thesis
  proof cases
    case lock
    then show ?thesis
      using step free i facts(1,2,4)
      by (intro move [of RTest]) (auto simp: rw_pc_defs rw_goto_def readnum_def wr_pc_def)
  next
    case test
    then show ?thesis
      using step free i facts(1,2,4) in_rd
      by (intro move [of "if 0 < num s then RPrint else RUnlockBreak"])
         (auto simp: rw_pc_defs rw_goto_def readnum_def wr_pc_def insert_absorb split: if_splits)
  next
    case pr
    then show ?thesis
      using step free i facts(1,2,4) in_rd
      by (intro move [of RUnlock])
         (auto simp: rw_pc_defs rw_goto_def readnum_def wr_pc_def replay_append insert_absorb)
  next
    case un
    then show ?thesis
      using step free i facts(1,2,4)
      by (intro move [of RLock]) (auto simp: rw_pc_defs rw_goto_def readnum_def wr_pc_def)
  next
    case brk
    then show ?thesis
      using step free i facts(1,2,4)
      by (intro move [of RReturned]) (auto simp: rw_pc_defs rw_goto_def readnum_def wr_pc_def)
  qed
qed

lemma rwlock_inv_create:
  assumes inv: "rwlock_inv s" and m: "rw_main_at s = RwCreate" and n: "length (threads s) < 8"
    and pc: "pc = (if length (threads s) < 3 then WLock else RLock)"
  shows "rwlock_inv (s\<lparr>threads := threads s @ [pc]\<rparr>)"
proof -
  let ?s = "s\<lparr>threads := threads s @ [pc]\<rparr>"
  have notin: "wr_holder s \<noteq> Some (length (threads s))" "length (threads s) \<notin> rd_holders s"
    using inv by (auto simp: rwlock_inv_def)
  have "wr_pc ?s = wr_pc s"
    using inv by (auto simp: wr_pc_def rwlock_inv_def nth_append split: option.splits)
  moreover have "rw_pc_ok (num s) pc" "\<not> writing pc" "\<not> reading pc"
    "if length (threads s) < 3 then writer_pc pc else reader_pc pc"
    using pc by (auto simp: rw_pc_defs)
  with inv notin have "rw_threads_ok ?s"
    by (auto simp: rwlock_inv_def rw_threads_ok_def nth_append less_Suc_eq)
  moreover have "rw_main_ok ?s"
    using inv m by (auto simp: rwlock_inv_def rw_main_ok_def)
  ultimately show ?thesis using inv n by (auto simp: rwlock_inv_def less_Suc_eq)
qed

lemma rwlock_inv_main_move:
  assumes inv: "rwlock_inv s" and ok: "rw_main_ok (s\<lparr>rw_main_at := m, destroyed := d\<rparr>)"
  shows "rwlock_inv (s\<lparr>rw_main_at := m, destroyed := d\<rparr>)"
proof -
  have "wr_pc (s\<lparr>rw_main_at := m, destroyed := d\<rparr>) = wr_pc s"
    by (cases "wr_holder s") (simp_all add: wr_pc_def)
  then show ?thesis using inv ok by (auto simp: rwlock_inv_def rw_threads_ok_def)
qed

lemma rwlock_main_inv:
  assumes inv: "rwlock_inv s" and step: "rwlock_main s = Some s'"
  shows "rwlock_inv s'"
proof -
  have main: "rw_main_ok s" and n: "length (threads s) \<le> 8" using inv by (simp_all add: rwlock_inv_def)
  have same: "s\<lparr>rw_main_at := m, destroyed := destroyed s\<rparr> = s\<lparr>rw_main_at := m\<rparr>" for m
    by (cases s) simp
  note move = rwlock_inv_main_move [OF inv, where d = "destroyed s", unfolded same]
  show ?thesis
  proof (cases "rw_main_at s")
    case RwInit
    then show ?thesis
      using step main move [of RwCreate] by (auto simp: rwlock_main_def rw_main_ok_def)
  next
    case RwCreate
    then show ?thesis
      using step main n move [of "RwJoin 0"] rwlock_inv_create [OF inv RwCreate]
      by (auto simp: rwlock_main_def rw_main_ok_def split: if_splits)
  next
    case (RwJoin k)
    then show ?thesis
      using step main move [of "RwJoin (k + 1)"] move [of RwDestroy]
      by (auto simp: rwlock_main_def rw_main_ok_def less_Suc_eq split: if_splits)
  next
    case RwDestroy
    have "s' = s\<lparr>rw_main_at := RwExited, destroyed := True\<rparr>"
      using step RwDestroy by (cases s) (simp add: rwlock_main_def)
    then show ?thesis
      using main RwDestroy rwlock_inv_main_move [OF inv, where m = RwExited and d = True] by (auto simp: rw_main_ok_def)
  next
    case RwExited
    with step show ?thesis by (simp add: rwlock_main_def)
  qed
qed

lemma rwlock_step_inv:
  assumes "rwlock_inv s" and "rwlock_step a s = Some s'"
  shows "rwlock_inv s'"
  using assms(2) rwlock_main_inv [OF assms(1)] writenum_inv [OF assms(1)] readnum_inv [OF assms(1)]
  by (auto simp: rwlock_step_def split: rw_actor.splits if_splits)

definition rw_inside :: "rwstate \<Rightarrow> rw_actor \<Rightarrow> bool" where
  "rw_inside s a = (case a of RwMain \<Rightarrow> False | RwThread i \<Rightarrow> i < length (threads s) \<and> writing (threads s ! i))"

interpretation rw: lock_discipline rwlock_step rwlock_start rwlock_inv rw_inside
  "\<lambda>s. map_option RwThread (wr_holder s)"
proof unfold_locales
  show "rwlock_inv rwlock_start" by (rule rwlock_start_inv)
  show "rwlock_inv s'" if "rwlock_inv s" "rwlock_step t s = Some s'" for s t s'
    using that by (rule rwlock_step_inv)
  show "map_option RwThread (wr_holder s) = Some t" if "rwlock_inv s" "rw_inside s t" for s t
    using that writing_holds by (auto simp: rw_inside_def split: rw_actor.splits)
qed

text \<open>Nothing is stuck before every thread has returned and the lock is destroyed.\<close>

lemma rwlock_at_rest:
  assumes inv: "rwlock_inv s" and rest: "at_rest rwlock_step s"
  shows "rw_main_at s = RwExited"
proof -
  have thr: "threads s ! i = WReturned \<or> threads s ! i = RReturned" if i: "i < length (threads s)" for i
  proof -
    have stuck: "rwlock_step (RwThread j) s = None" for j using rest by (simp add: at_rest_def)
    have nowr: "wr_holder s = None"
    proof (cases "wr_holder s")
      case (Some j)
      with inv have j: "j < length (threads s)" "writing (threads s ! j)"
        by (auto simp: rwlock_inv_def rw_threads_ok_def)
      with rwlock_inv_threadD(3) [OF inv j(1)] have "j < 3"
        by (auto simp: writing_def reader_pc_def reading_def split: if_splits)
      with j stuck [of j] show ?thesis
        by (auto simp: rwlock_step_def writenum_def writing_def split: rw_pc.splits)
    qed
    have nord: "rd_holders s = {}"
    proof (rule ccontr)
      assume "rd_holders s \<noteq> {}"
      then obtain j where "j \<in> rd_holders s" by blast
      with inv have j: "j < length (threads s)" "reading (threads s ! j)"
        by (auto simp: rwlock_inv_def rw_threads_ok_def)
      with rwlock_inv_threadD(3) [OF inv j(1)] have "\<not> j < 3"
        by (auto simp: reading_def writer_pc_def writing_def split: if_splits)
      with j stuck [of j] show False
        by (auto simp: rwlock_step_def readnum_def reading_def)
    qed
    from stuck [of i] i nowr nord rwlock_inv_threadD(3) [OF inv i] show ?thesis
      by (auto simp: rwlock_step_def writenum_def readnum_def writer_pc_def reader_pc_def writing_def
          reading_def split: if_splits rw_pc.splits)
  qed
  have "rwlock_main s = None" using rest by (auto simp: at_rest_def rwlock_step_def dest: spec [of _ RwMain])
  moreover have "rw_main_ok s" using inv by (simp add: rwlock_inv_def)
  ultimately show ?thesis
    using thr by (auto simp: rwlock_main_def rw_main_ok_def rw_returned_def split: rw_main_pc.splits if_splits)
qed

text \<open>One writer can count the number down alone; then every thread returns and \<open>main\<close> exits.\<close>

lemma write_alone:
  assumes "i < length (threads s)" and "i < 3" and "threads s ! i = WLock"
    and "wr_holder s = None" and "rd_holders s = {}" and "int n \<le> num s"
  shows "\<exists>l. run_schedule rwlock_step (concat (replicate n (replicate 6 (RwThread i)))) s
           = Some (s\<lparr>num := num s - int n, rw_log := rw_log s @ l\<rparr>)"
  using assms
proof (induction n arbitrary: s)
  case (Suc n)
  let ?s = "s\<lparr>num := num s - 1, rw_log := rw_log s @ [(i, WriteNum (num s - 1))]\<rparr>"
  have one: "run_schedule rwlock_step (replicate 6 (RwThread i)) s = Some ?s"
    using Suc.prems list_update_id [of "threads s" i]
    by (cases s) (simp add: numeral_eq_Suc rwlock_step_def writenum_def rw_goto_def)
  from Suc.prems have "\<exists>l. run_schedule rwlock_step (concat (replicate n (replicate 6 (RwThread i)))) ?s
      = Some (?s\<lparr>num := num ?s - int n, rw_log := rw_log ?s @ l\<rparr>)"
    by (intro Suc.IH) auto
  with one show ?case by (auto simp: run_schedule_append algebra_simps)
qed (auto intro: exI [of _ "[]"])

lemma rwlock_can_finish: "\<exists>s. reachable rwlock_step rwlock_start s \<and> at_rest rwlock_step s"
proof -
  let ?s = "rwlock_start\<lparr>threads := replicate 3 WLock @ replicate 5 RLock, rw_main_at := RwJoin 0\<rparr>"
  have start: "run_schedule rwlock_step (replicate 10 RwMain) rwlock_start = Some ?s"
    by (simp add: numeral_eq_Suc rwlock_step_def rwlock_main_def rwlock_start_def)
  obtain l where l: "run_schedule rwlock_step (concat (replicate 1000 (replicate 6 (RwThread 0)))) ?s
      = Some (?s\<lparr>num := 0, rw_log := l\<rparr>)"
    using write_alone [of 0 ?s 1000] by (auto simp: rwlock_start_def nth_append)
  let ?brk = "\<lambda>i. replicate 3 (RwThread i)"
  obtain s where s: "run_schedule rwlock_step
        (?brk 0 @ ?brk 1 @ ?brk 2 @ ?brk 3 @ ?brk 4 @ ?brk 5 @ ?brk 6 @ ?brk 7 @ replicate 10 RwMain)
        (?s\<lparr>num := 0, rw_log := l\<rparr>) = Some s"
    and end_s: "threads s = replicate 3 WReturned @ replicate 5 RReturned" "rw_main_at s = RwExited"
    by (simp add: numeral_eq_Suc rwlock_step_def rwlock_main_def writenum_def readnum_def rw_goto_def
        rw_returned_def rwlock_start_def)
  have "reachable rwlock_step rwlock_start s"
    using run_schedule_reachable [OF run_schedule_reachable [OF run_schedule_reachable
        [OF reachable_init start] l] s] .
  moreover have "at_rest rwlock_step s"
    unfolding at_rest_def
  proof
    fix a
    show "rwlock_step a s = None"
      using end_s by (cases a) (auto simp: rwlock_step_def rwlock_main_def writenum_def readnum_def nth_append)
  qed
  ultimately show ?thesis by blast
qed

text \<open>
  C32. The counter of \<open>rwlock.c\<close>: however the eight threads are interleaved, a writer between lock and
  unlock is alone, and what the threads print, in the order printed, is what one thread reading and
  writing 1000 down would print, up to a write still to be printed.  If nothing can move, \<open>main\<close>
  has joined every thread, the number is 0, the lock is destroyed, and at that time nobody holds it.
\<close>

theorem rwlock_prints_sequentially:
  assumes "reachable rwlock_step rwlock_start s"
  shows "(\<forall>i. wr_holder s = Some i \<longrightarrow>
            rd_holders s = {}
          \<and> (\<forall>j < length (threads s). j \<noteq> i \<longrightarrow> \<not> writing (threads s ! j) \<and> \<not> reading (threads s ! j)))
       \<and> replay 1000 (map snd (rw_log s)) = Some (unprinted (num s) (wr_pc s))
       \<and> (destroyed s \<longrightarrow> wr_holder s = None \<and> rd_holders s = {} \<and> num s = 0 \<and> (\<forall>i < 8. rw_returned (threads s ! i)))
       \<and> (at_rest rwlock_step s \<longrightarrow> destroyed s)"
proof -
  note inv = rw.always [OF assms]
  have alone: "rd_holders s = {} \<and> (\<forall>j < length (threads s). j \<noteq> i \<longrightarrow>
      \<not> writing (threads s ! j) \<and> \<not> reading (threads s ! j))" if "wr_holder s = Some i" for i
    using inv that by (auto simp: rwlock_inv_def rw_threads_ok_def)
  have gone: "wr_holder s = None \<and> rd_holders s = {} \<and> num s = 0 \<and> (\<forall>i < 8. rw_returned (threads s ! i))"
    if d: "destroyed s"
  proof -
    from inv d have ret: "length (threads s) = 8" "\<forall>i < 8. rw_returned (threads s ! i)"
      by (auto simp: rwlock_inv_def rw_main_ok_def)
    with inv have thr: "\<forall>i < 8. \<not> writing (threads s ! i) \<and> \<not> reading (threads s ! i)"
      by (auto simp: rw_returned_def writing_def reading_def)
    with inv ret have "wr_holder s = None" "rd_holders s = {}"
      by (cases "wr_holder s"; fastforce simp: rwlock_inv_def rw_threads_ok_def)+
    moreover have "num s = 0"
      using rwlock_inv_threadD(1) [OF inv, of 0] ret(1) spec [OF ret(2), of 0]
      by (auto simp: rw_returned_def rw_pc_ok_def)
    ultimately show ?thesis using ret by blast
  qed
  have "destroyed s" if "at_rest rwlock_step s"
    using rwlock_at_rest [OF inv that] inv by (auto simp: rwlock_inv_def rw_main_ok_def)
  with alone gone inv show ?thesis by (auto simp: rwlock_inv_def)
qed

theorem rwlock_prints_sequentially_witness:
  "\<exists>s. reachable rwlock_step rwlock_start s \<and> at_rest rwlock_step s \<and> destroyed s \<and> num s = 0
     \<and> replay 1000 (map snd (rw_log s)) = Some 0"
proof -
  obtain s where s: "reachable rwlock_step rwlock_start s" and rest: "at_rest rwlock_step s"
    using rwlock_can_finish by blast
  note seq = rwlock_prints_sequentially [OF s]
  have d: "destroyed s" using seq rest by blast
  with seq have "wr_holder s = None" "num s = 0" by blast+
  moreover have "replay 1000 (map snd (rw_log s)) = Some (unprinted (num s) (wr_pc s))"
    using seq by (elim conjE)
  ultimately show ?thesis using s rest d by (auto simp: unprinted_def wr_pc_def)
qed

end
