(* ===== verification/Train_Semaphore.thy ===== *)
theory Train_Semaphore
  imports Interleaving
begin

text \<open>
  \<open>src/bck/train/chapter 3/semaphore.c\<close>: three producers and three consumers around a linked list,
  with a mutex and the two semaphores \<open>sem_prod\<close> (free places, 100) and \<open>sem_cust\<close> (items, 0).  Both
  loops take the mutex first and wait for their semaphore while they hold it.  The list is the
  numbers of its nodes from \<open>head\<close> on; \<open>rand\<close> is part of the label of a producer's step; a null
  \<open>head\<close> read by a consumer sets \<open>segv\<close>.  \<open>malloc\<close> is taken to succeed.
\<close>

datatype pc_pc =
    CLock | CWait | CPost | CPrint | CPop | CUnlock
  | PLock | PWait | PPost | PPush | PUnlock

datatype pc_main_pc = PcCreate | PcJoin

datatype pc_actor = PcMain | PcThread nat int

record semstate =
  head :: "int list"
  sem_prod :: nat
  sem_cust :: nat
  sem_mutex :: "nat option"
  sem_threads :: "pc_pc list"
  consumed :: "int list"
  segv :: bool
  sem_main_at :: pc_main_pc

definition semaphore_start :: semstate where
  "semaphore_start = \<lparr>head = [], sem_prod = 100, sem_cust = 0, sem_mutex = None, sem_threads = [],
     consumed = [], segv = False, sem_main_at = PcCreate\<rparr>"

definition sem_goto :: "nat \<Rightarrow> pc_pc \<Rightarrow> semstate \<Rightarrow> semstate" where
  "sem_goto i pc s = s\<lparr>sem_threads := (sem_threads s)[i := pc]\<rparr>"

definition sem_customer :: "nat \<Rightarrow> semstate \<Rightarrow> semstate option" where
  "sem_customer i s =
     (case sem_threads s ! i of
        CLock \<Rightarrow>
          (if sem_mutex s = None then Some (sem_goto i CWait (s\<lparr>sem_mutex := Some i\<rparr>)) else None)
      | CWait \<Rightarrow>
          (if 0 < sem_cust s then Some (sem_goto i CPost (s\<lparr>sem_cust := sem_cust s - 1\<rparr>)) else None)
      | CPost \<Rightarrow> Some (sem_goto i CPrint (s\<lparr>sem_prod := sem_prod s + 1\<rparr>))
      | CPrint \<Rightarrow>
          (case head s of
             [] \<Rightarrow> Some (s\<lparr>segv := True\<rparr>)
           | x # _ \<Rightarrow> Some (sem_goto i CPop (s\<lparr>consumed := consumed s @ [x]\<rparr>)))
      | CPop \<Rightarrow>
          (case head s of
             [] \<Rightarrow> Some (s\<lparr>segv := True\<rparr>)
           | _ # xs \<Rightarrow> Some (sem_goto i CUnlock (s\<lparr>head := xs\<rparr>)))
      | CUnlock \<Rightarrow> Some (sem_goto i CLock (s\<lparr>sem_mutex := None\<rparr>))
      | _ \<Rightarrow> None)"

definition sem_product :: "nat \<Rightarrow> int \<Rightarrow> semstate \<Rightarrow> semstate option" where
  "sem_product i r s =
     (case sem_threads s ! i of
        PLock \<Rightarrow>
          (if sem_mutex s = None then Some (sem_goto i PWait (s\<lparr>sem_mutex := Some i\<rparr>)) else None)
      | PWait \<Rightarrow>
          (if 0 < sem_prod s then Some (sem_goto i PPost (s\<lparr>sem_prod := sem_prod s - 1\<rparr>)) else None)
      | PPost \<Rightarrow> Some (sem_goto i PPush (s\<lparr>sem_cust := sem_cust s + 1\<rparr>))
      | PPush \<Rightarrow> Some (sem_goto i PUnlock (s\<lparr>head := r mod 1000 # head s\<rparr>))
      | PUnlock \<Rightarrow> Some (sem_goto i PLock (s\<lparr>sem_mutex := None\<rparr>))
      | _ \<Rightarrow> None)"

text \<open>\<open>main\<close> starts the producers, then the consumers, and waits for threads that never return.\<close>

definition semaphore_main :: "semstate \<Rightarrow> semstate option" where
  "semaphore_main s =
     (case sem_main_at s of
        PcCreate \<Rightarrow>
          (if length (sem_threads s) < 3 then Some (s\<lparr>sem_threads := sem_threads s @ [PLock]\<rparr>)
           else if length (sem_threads s) < 6 then Some (s\<lparr>sem_threads := sem_threads s @ [CLock]\<rparr>)
           else Some (s\<lparr>sem_main_at := PcJoin\<rparr>))
      | PcJoin \<Rightarrow> None)"

text \<open>A thread whose process has died of a null pointer takes no further step.\<close>

definition semaphore_step :: "pc_actor \<Rightarrow> semstate \<Rightarrow> semstate option" where
  "semaphore_step a s =
     (if segv s then None
      else (case a of
        PcMain \<Rightarrow> semaphore_main s
      | PcThread i r \<Rightarrow>
          (if i < length (sem_threads s)
           then (if i < 3 then sem_product i r s else sem_customer i s) else None)))"


section \<open>What every interleaving keeps\<close>

definition sem_inside :: "pc_pc \<Rightarrow> bool" where
  "sem_inside pc \<longleftrightarrow> pc \<noteq> CLock \<and> pc \<noteq> PLock"

definition sem_role :: "nat \<Rightarrow> pc_pc \<Rightarrow> bool" where
  "sem_role i pc \<longleftrightarrow> (if i < 3 then pc \<in> {PLock, PWait, PPost, PPush, PUnlock}
                    else pc \<in> {CLock, CWait, CPost, CPrint, CPop, CUnlock})"

text \<open>The semaphores against the length of the list, while the mutex is held at \<open>pc\<close>.\<close>

definition sem_counts :: "pc_pc \<Rightarrow> nat \<Rightarrow> nat \<Rightarrow> nat \<Rightarrow> bool" where
  "sem_counts pc p c n =
     (case pc of
        PPost \<Rightarrow> c = n \<and> p + n = 99
      | PPush \<Rightarrow> c = n + 1 \<and> p + n = 99
      | CPost \<Rightarrow> c + 1 = n \<and> p + n = 100
      | CPrint \<Rightarrow> c + 1 = n \<and> p + n = 101 \<and> 0 < p
      | CPop \<Rightarrow> c + 1 = n \<and> p + n = 101 \<and> 0 < p
      | _ \<Rightarrow> c = n \<and> p + n = 100)"

definition mutex_pc :: "semstate \<Rightarrow> pc_pc" where
  "mutex_pc s = (case sem_mutex s of Some i \<Rightarrow> sem_threads s ! i | None \<Rightarrow> CLock)"

definition semaphore_inv :: "semstate \<Rightarrow> bool" where
  "semaphore_inv s \<longleftrightarrow>
     \<not> segv s \<and> length (sem_threads s) \<le> 6
   \<and> (\<forall>i < length (sem_threads s).
        sem_role i (sem_threads s ! i)
      \<and> (sem_inside (sem_threads s ! i) \<longleftrightarrow> sem_mutex s = Some i))
   \<and> (\<forall>i. sem_mutex s = Some i \<longrightarrow> i < length (sem_threads s))
   \<and> (sem_main_at s = PcJoin \<longrightarrow> length (sem_threads s) = 6)
   \<and> sem_counts (mutex_pc s) (sem_prod s) (sem_cust s) (length (head s))"

lemma semaphore_start_inv: "semaphore_inv semaphore_start"
  by (simp add: semaphore_inv_def semaphore_start_def sem_counts_def mutex_pc_def)

lemma semaphore_inv_move:
  assumes inv: "semaphore_inv s" and i: "i < length (sem_threads s)"
    and free: "sem_mutex s = None \<or> sem_mutex s = Some i"
    and s': "sem_threads s' = (sem_threads s)[i := pc']" "sem_main_at s' = sem_main_at s"
      "sem_mutex s' = (if sem_inside pc' then Some i else None)" "\<not> segv s'"
    and role: "sem_role i pc'"
    and counts: "sem_counts (if sem_inside pc' then pc' else CLock) (sem_prod s') (sem_cust s') (length (head s'))"
  shows "semaphore_inv s'"
proof -
  have "mutex_pc s' = (if sem_inside pc' then pc' else CLock)"
    using s' i by (simp add: mutex_pc_def)
  with assms show ?thesis by (auto simp: semaphore_inv_def nth_list_update)
qed

lemma semaphore_holder:
  assumes "semaphore_inv s" and "i < length (sem_threads s)" and "sem_inside (sem_threads s ! i)"
  shows "sem_mutex s = Some i" "mutex_pc s = sem_threads s ! i"
  using assms by (auto simp: semaphore_inv_def mutex_pc_def)

lemma semaphore_counts:
  "semaphore_inv s \<Longrightarrow> sem_counts (mutex_pc s) (sem_prod s) (sem_cust s) (length (head s)) \<and> \<not> segv s"
  by (simp add: semaphore_inv_def)

lemmas sem_pc_defs = sem_inside_def sem_role_def sem_counts_def mutex_pc_def sem_goto_def

lemma sem_lock_inv:
  assumes inv: "semaphore_inv s" and i: "i < length (sem_threads s)"
    and pc: "sem_threads s ! i = PLock \<and> pc' = PWait \<and> i < 3 \<or> sem_threads s ! i = CLock \<and> pc' = CWait \<and> \<not> i < 3"
    and free: "sem_mutex s = None"
  shows "semaphore_inv (sem_goto i pc' (s\<lparr>sem_mutex := Some i\<rparr>))"
  using semaphore_counts [OF inv] pc free i
  by (intro semaphore_inv_move [OF inv i disjI1 [OF free], of _ pc']) (auto simp: sem_pc_defs)

lemma sem_customer_inv:
  assumes inv: "semaphore_inv s" and i: "i < length (sem_threads s)" "\<not> i < 3"
    and step: "sem_customer i s = Some s'"
  shows "semaphore_inv s'"
proof (cases "sem_inside (sem_threads s ! i)")
  case False
  with step show ?thesis
    using sem_lock_inv [OF inv i(1), of CWait] i(2)
    by (auto simp: sem_customer_def sem_inside_def split: if_splits)
next
  case True
  note own = semaphore_holder [OF inv i(1) True]
  note move = semaphore_inv_move [OF inv i(1) disjI2 [OF own(1)], of s']
  note counts = semaphore_counts [OF inv]
  show ?thesis
  proof (cases "sem_threads s ! i")
    case CWait
    then show ?thesis
      using step own counts i
      by (intro move [of CPost]) (auto simp: sem_customer_def sem_pc_defs split: if_splits)
  next
    case CPost
    then show ?thesis
      using step own counts i by (intro move [of CPrint]) (auto simp: sem_customer_def sem_pc_defs)
  next
    case CPrint
    then show ?thesis
      using step own counts i
      by (intro move [of CPop]) (auto simp: sem_customer_def sem_pc_defs split: list.splits)
  next
    case CPop
    then show ?thesis
      using step own counts i
      by (intro move [of CUnlock]) (auto simp: sem_customer_def sem_pc_defs split: list.splits)
  next
    case CUnlock
    then show ?thesis
      using step own counts i by (intro move [of CLock]) (auto simp: sem_customer_def sem_pc_defs)
  qed (use step True in \<open>auto simp: sem_customer_def sem_inside_def\<close>)
qed

lemma sem_product_inv:
  assumes inv: "semaphore_inv s" and i: "i < length (sem_threads s)" "i < 3"
    and step: "sem_product i r s = Some s'"
  shows "semaphore_inv s'"
proof (cases "sem_inside (sem_threads s ! i)")
  case False
  with step show ?thesis
    using sem_lock_inv [OF inv i(1), of PWait] i(2)
    by (auto simp: sem_product_def sem_inside_def split: if_splits)
next
  case True
  note own = semaphore_holder [OF inv i(1) True]
  note move = semaphore_inv_move [OF inv i(1) disjI2 [OF own(1)], of s']
  note counts = semaphore_counts [OF inv]
  show ?thesis
  proof (cases "sem_threads s ! i")
    case PWait
    then show ?thesis
      using step own counts i
      by (intro move [of PPost]) (auto simp: sem_product_def sem_pc_defs split: if_splits)
  next
    case PPost
    then show ?thesis
      using step own counts i by (intro move [of PPush]) (auto simp: sem_product_def sem_pc_defs)
  next
    case PPush
    then show ?thesis
      using step own counts i by (intro move [of PUnlock]) (auto simp: sem_product_def sem_pc_defs)
  next
    case PUnlock
    then show ?thesis
      using step own counts i by (intro move [of PLock]) (auto simp: sem_product_def sem_pc_defs)
  qed (use step True in \<open>auto simp: sem_product_def sem_inside_def\<close>)
qed

lemma semaphore_create_inv:
  assumes inv: "semaphore_inv s" and n: "length (sem_threads s) < 6" and m: "sem_main_at s = PcCreate"
    and pc: "pc = (if length (sem_threads s) < 3 then PLock else CLock)"
  shows "semaphore_inv (s\<lparr>sem_threads := sem_threads s @ [pc]\<rparr>)"
proof -
  have "mutex_pc (s\<lparr>sem_threads := sem_threads s @ [pc]\<rparr>) = mutex_pc s"
    using inv by (auto simp: mutex_pc_def semaphore_inv_def nth_append split: option.splits)
  moreover have "sem_role (length (sem_threads s)) pc" "\<not> sem_inside pc"
    using pc by (simp_all add: sem_role_def sem_inside_def)
  ultimately show ?thesis
    using inv n m by (auto simp: semaphore_inv_def nth_append less_Suc_eq)
qed

lemma semaphore_main_inv:
  assumes inv: "semaphore_inv s" and step: "semaphore_main s = Some s'"
  shows "semaphore_inv s'"
proof -
  have "mutex_pc (s\<lparr>sem_main_at := PcJoin\<rparr>) = mutex_pc s"
    by (cases "sem_mutex s") (simp_all add: mutex_pc_def)
  then show ?thesis
    using step inv semaphore_create_inv [OF inv]
    by (auto simp: semaphore_main_def semaphore_inv_def split: pc_main_pc.splits if_splits)
qed

lemma semaphore_step_inv:
  assumes "semaphore_inv s" and "semaphore_step a s = Some s'"
  shows "semaphore_inv s'"
  using assms(2) semaphore_main_inv [OF assms(1)] sem_customer_inv [OF assms(1)]
    sem_product_inv [OF assms(1)]
  by (auto simp: semaphore_step_def split: pc_actor.splits if_splits)

interpretation sem: thread_invariant semaphore_step semaphore_start semaphore_inv
  by unfold_locales (auto intro: semaphore_start_inv semaphore_step_inv)

text \<open>
  C33. The list of \<open>semaphore.c\<close>: in every interleaving no consumer reads a null \<open>head\<close>, the list
  never holds more than 100 items, at most one thread is past its lock, and whenever the mutex is
  free \<open>sem_cust\<close> is the number of items and \<open>sem_prod\<close> the number of free places.
\<close>

theorem semaphore_list_safe:
  assumes "reachable semaphore_step semaphore_start s"
  shows "\<not> segv s \<and> length (head s) \<le> 100
       \<and> (\<forall>i < length (sem_threads s). \<forall>j < length (sem_threads s).
            sem_inside (sem_threads s ! i) \<and> sem_inside (sem_threads s ! j) \<longrightarrow> i = j)
       \<and> (sem_mutex s = None \<longrightarrow> sem_cust s = length (head s) \<and> sem_prod s + length (head s) = 100)"
proof -
  note inv = sem.always [OF assms]
  note counts = semaphore_counts [OF inv]
  have "i = j" if "i < length (sem_threads s)" "j < length (sem_threads s)"
    "sem_inside (sem_threads s ! i)" "sem_inside (sem_threads s ! j)" for i j
    using semaphore_holder(1) [OF inv that(1,3)] semaphore_holder(1) [OF inv that(2,4)] by simp
  moreover have "length (head s) \<le> 100"
    using counts by (auto simp: sem_counts_def split: pc_pc.splits)
  moreover have "sem_cust s = length (head s) \<and> sem_prod s + length (head s) = 100" if "sem_mutex s = None"
    using counts that by (simp add: mutex_pc_def sem_counts_def)
  ultimately show ?thesis using counts by blast
qed

theorem semaphore_list_safe_witness:
  "\<exists>s. run_schedule semaphore_step (replicate 4 PcMain @ replicate 5 (PcThread 0 1007) @ replicate 2 (PcThread 3 0))
         semaphore_start = Some s
     \<and> reachable semaphore_step semaphore_start s \<and> head s = [7] \<and> sem_mutex s = Some 3 \<and> \<not> segv s"
proof -
  let ?sched = "replicate 4 PcMain @ replicate 5 (PcThread 0 1007) @ replicate 2 (PcThread 3 0)"
  obtain s where s: "run_schedule semaphore_step ?sched semaphore_start = Some s"
    and "head s = [7]" "sem_mutex s = Some 3"
    by (simp add: numeral_eq_Suc semaphore_step_def semaphore_main_def sem_customer_def sem_product_def
        sem_goto_def semaphore_start_def)
  moreover have r: "reachable semaphore_step semaphore_start s"
    using run_schedule_reachable [OF reachable_init s] .
  moreover have "\<not> segv s" using semaphore_list_safe [OF r] by blast
  ultimately show ?thesis by blast
qed


section \<open>The deadlock\<close>

text \<open>
  The holder of the mutex waits for an item and there is none, or for a free place and there is none;
  whoever would post needs the mutex first.
\<close>

definition wedged :: "semstate \<Rightarrow> bool" where
  "wedged s \<longleftrightarrow> mutex_pc s = CWait \<and> sem_cust s = 0 \<or> mutex_pc s = PWait \<and> sem_prod s = 0"

lemma wedged_holder:
  assumes inv: "semaphore_inv s" and w: "wedged s"
  obtains i where "sem_mutex s = Some i" "i < length (sem_threads s)"
    "sem_threads s ! i = CWait \<and> sem_cust s = 0 \<and> \<not> i < 3
   \<or> sem_threads s ! i = PWait \<and> sem_prod s = 0 \<and> i < 3"
proof -
  obtain i where i: "sem_mutex s = Some i" using w by (cases "sem_mutex s") (auto simp: wedged_def mutex_pc_def)
  with inv have "i < length (sem_threads s)" "sem_role i (sem_threads s ! i)" by (auto simp: semaphore_inv_def)
  with i w that show ?thesis
    by (auto simp: wedged_def mutex_pc_def sem_role_def split: if_splits)
qed

lemma wedged_threads_stuck:
  assumes inv: "semaphore_inv s" and w: "wedged s"
  shows "semaphore_step (PcThread j r) s = None"
proof -
  obtain i where i: "sem_mutex s = Some i" "i < length (sem_threads s)"
    "sem_threads s ! i = CWait \<and> sem_cust s = 0 \<and> \<not> i < 3
   \<or> sem_threads s ! i = PWait \<and> sem_prod s = 0 \<and> i < 3"
    using wedged_holder [OF inv w] .
  show ?thesis
  proof (cases "j < length (sem_threads s)")
    case True
    show ?thesis
    proof (cases "j = i")
      case False
      with inv True i(1) have "sem_threads s ! j = CLock \<or> sem_threads s ! j = PLock"
        by (auto simp: semaphore_inv_def sem_inside_def)
      with i(1) show ?thesis by (auto simp: semaphore_step_def sem_customer_def sem_product_def)
    qed (use i in \<open>auto simp: semaphore_step_def sem_customer_def sem_product_def\<close>)
  qed (simp add: semaphore_step_def)
qed

lemma wedged_step:
  assumes inv: "semaphore_inv s" and w: "wedged s" and step: "semaphore_step a s = Some s'"
  shows "wedged s' \<and> head s' = head s \<and> consumed s' = consumed s \<and> sem_mutex s' = sem_mutex s"
proof -
  obtain i where i: "sem_mutex s = Some i" "i < length (sem_threads s)"
    using wedged_holder [OF inv w] by metis
  have "a = PcMain" using step wedged_threads_stuck [OF inv w] by (cases a) auto
  with step have "semaphore_main s = Some s'" by (auto simp: semaphore_step_def split: if_splits)
  then show ?thesis
    using w i
    by (auto simp: semaphore_main_def wedged_def mutex_pc_def nth_append
        split: pc_main_pc.splits if_splits)
qed

lemma wedged_forever:
  assumes inv: "semaphore_inv s" and w: "wedged s" and run: "reachable semaphore_step s s'"
  shows "semaphore_inv s' \<and> wedged s' \<and> head s' = head s \<and> consumed s' = consumed s
       \<and> sem_mutex s' = sem_mutex s"
  using run
proof induction
  case reachable_init
  with inv w show ?case by simp
next
  case (reachable_step s1 a s2)
  then show ?case
    using wedged_step [of s1 a s2] semaphore_step_inv [of s1 a s2] by simp
qed

text \<open>
  C34. \<open>semaphore.c\<close> deadlocks: it waits for a semaphore with the mutex held.  A consumer that takes
  the mutex while the list is empty, before any item was produced or after all were consumed, stops
  the program for good: no item is added, printed or removed after that, and the mutex is never
  given back.  Such a state is reached, and in it no thread, \<open>main\<close> included, can move.
\<close>

theorem semaphore_deadlocks:
  "(\<forall>s s' i. reachable semaphore_step semaphore_start s \<and> reachable semaphore_step s s'
      \<and> sem_mutex s = Some i \<and> sem_threads s ! i = CWait \<and> head s = [] \<longrightarrow>
        head s' = [] \<and> consumed s' = consumed s \<and> sem_mutex s' = Some i)
 \<and> (\<exists>s. reachable semaphore_step semaphore_start s \<and> at_rest semaphore_step s
      \<and> length (sem_threads s) = 6 \<and> head s = [] \<and> consumed s = [])"
proof
  have "head s' = [] \<and> consumed s' = consumed s \<and> sem_mutex s' = Some i"
    if s: "reachable semaphore_step semaphore_start s" and s': "reachable semaphore_step s s'"
      and m: "sem_mutex s = Some i" "sem_threads s ! i = CWait" "head s = []" for s s' i
  proof -
    note inv = sem.always [OF s]
    have "sem_cust s = 0"
      using semaphore_counts [OF inv] m by (simp add: mutex_pc_def sem_counts_def)
    with m have "wedged s" by (simp add: wedged_def mutex_pc_def)
    with wedged_forever [OF inv _ s'] m show ?thesis by simp
  qed
  then show "\<forall>s s' i. reachable semaphore_step semaphore_start s \<and> reachable semaphore_step s s'
      \<and> sem_mutex s = Some i \<and> sem_threads s ! i = CWait \<and> head s = [] \<longrightarrow>
        head s' = [] \<and> consumed s' = consumed s \<and> sem_mutex s' = Some i"
    by blast
next
  let ?s = "semaphore_start\<lparr>sem_mutex := Some 3, sem_main_at := PcJoin,
              sem_threads := [PLock, PLock, PLock, CWait, CLock, CLock]\<rparr>"
  have "run_schedule semaphore_step (replicate 7 PcMain @ [PcThread 3 0]) semaphore_start = Some ?s"
    by (simp add: numeral_eq_Suc semaphore_step_def semaphore_main_def sem_customer_def sem_goto_def semaphore_start_def)
  then have r: "reachable semaphore_step semaphore_start ?s"
    by (rule run_schedule_reachable [OF reachable_init])
  have "wedged ?s" by (simp add: wedged_def mutex_pc_def semaphore_start_def)
  then have "at_rest semaphore_step ?s"
    unfolding at_rest_def
  proof (intro allI)
    fix a
    show "semaphore_step a ?s = None" if "wedged ?s"
      using wedged_threads_stuck [OF sem.always [OF r] that]
      by (cases a) (auto simp: semaphore_step_def semaphore_main_def)
  qed
  with r show "\<exists>s. reachable semaphore_step semaphore_start s \<and> at_rest semaphore_step s
      \<and> length (sem_threads s) = 6 \<and> head s = [] \<and> consumed s = []"
    by (intro exI [of _ ?s]) (simp add: semaphore_start_def)
qed

theorem semaphore_deadlocks_witness:
  "\<exists>s s'. run_schedule semaphore_step (replicate 4 PcMain @ [PcThread 3 0]) semaphore_start = Some s
     \<and> run_schedule semaphore_step [PcMain] s = Some s' \<and> sem_threads s ! 3 = CWait
     \<and> head s' = [] \<and> sem_mutex s' = Some 3"
proof -
  let ?s = "semaphore_start\<lparr>sem_mutex := Some 3, sem_threads := [PLock, PLock, PLock, CWait]\<rparr>"
  let ?s' = "?s\<lparr>sem_threads := [PLock, PLock, PLock, CWait, CLock]\<rparr>"
  have s: "run_schedule semaphore_step (replicate 4 PcMain @ [PcThread 3 0]) semaphore_start = Some ?s"
    by (simp add: numeral_eq_Suc semaphore_step_def semaphore_main_def sem_customer_def sem_goto_def semaphore_start_def)
  have s': "run_schedule semaphore_step [PcMain] ?s = Some ?s'"
    by (simp add: semaphore_step_def semaphore_main_def semaphore_start_def)
  have "head ?s' = [] \<and> consumed ?s' = consumed ?s \<and> sem_mutex ?s' = Some 3"
    using run_schedule_reachable [OF reachable_init s] run_schedule_reachable [OF reachable_init s']
    by (intro conjunct1 [OF semaphore_deadlocks, THEN spec, THEN spec, THEN spec, THEN mp, of ?s ?s' 3])
       (simp add: semaphore_start_def)
  with s s' show ?thesis by (intro exI [of _ ?s] exI [of _ ?s']) simp
qed

end
