(* ===== verification/Train_Prod.thy ===== *)
theory Train_Prod
  imports Interleaving "HOL-Library.Multiset"
begin

text \<open>
  \<open>src/bck/train/chapter 3/prod.c\<close>: the producers and consumers of \<open>semaphore.c\<close> with a condition
  variable.  The functions are modelled as they stand; the file as a whole does not compile (a \<open>sem_t\<close>
  without a name, a call between two functions and an undeclared lock in \<open>main\<close>).  A consumer that finds
  the list empty sleeps in \<open>pthread_cond_wait\<close>, which gives the mutex back and takes it again on waking,
  and goes round its loop; a producer signals after it has given the mutex back.  The number from \<open>rand\<close>
  and the sleeper a signal wakes are part of the label of a step, and a sleeper may wake for no reason.
\<close>

datatype prod_pc =
    KLock | KTest | KDec | KPop | KWait | KSleep | KWoken | KUnlock
  | PrLock | PrTest | PrInc | PrPush | PrUnlock | PrSignal

datatype prod_actor = ProdMain | ProdThread nat int nat | ProdSpurious nat

record prodstate =
  prod_head :: "int list"
  count_node :: int
  prod_mutex :: "nat option"
  prod_threads :: "prod_pc list"
  prod_made :: "int list"
  prod_taken :: "int list"
  prod_null :: bool

definition prod_start :: prodstate where
  "prod_start = \<lparr>prod_head = [], count_node = 0, prod_mutex = None, prod_threads = [], prod_made = [],
     prod_taken = [], prod_null = False\<rparr>"

definition prod_goto :: "nat \<Rightarrow> prod_pc \<Rightarrow> prodstate \<Rightarrow> prodstate" where
  "prod_goto i pc s = s\<lparr>prod_threads := (prod_threads s)[i := pc]\<rparr>"

definition prod_customer :: "nat \<Rightarrow> prodstate \<Rightarrow> prodstate option" where
  "prod_customer i s =
     (case prod_threads s ! i of
        KLock \<Rightarrow> (if prod_mutex s = None then Some (prod_goto i KTest (s\<lparr>prod_mutex := Some i\<rparr>)) else None)
      | KTest \<Rightarrow> Some (prod_goto i (if prod_head s \<noteq> [] then KDec else KWait) s)
      | KDec \<Rightarrow> Some (prod_goto i KPop (s\<lparr>count_node := count_node s - 1\<rparr>))
      | KPop \<Rightarrow>
          (case prod_head s of
             [] \<Rightarrow> Some (s\<lparr>prod_null := True\<rparr>)
           | x # xs \<Rightarrow> Some (prod_goto i KUnlock (s\<lparr>prod_head := xs, prod_taken := prod_taken s @ [x]\<rparr>)))
      | KWait \<Rightarrow> Some (prod_goto i KSleep (s\<lparr>prod_mutex := None\<rparr>))
      | KWoken \<Rightarrow> (if prod_mutex s = None then Some (prod_goto i KUnlock (s\<lparr>prod_mutex := Some i\<rparr>)) else None)
      | KUnlock \<Rightarrow> Some (prod_goto i KLock (s\<lparr>prod_mutex := None\<rparr>))
      | _ \<Rightarrow> None)"

text \<open>\<open>pthread_cond_signal\<close>: one sleeper, any one, is woken; nothing happens when nobody sleeps.\<close>

definition cond_signal :: "nat \<Rightarrow> prodstate \<Rightarrow> prodstate option" where
  "cond_signal j s =
     (if KSleep \<in> set (prod_threads s) then
        (if j < length (prod_threads s) \<and> prod_threads s ! j = KSleep then Some (prod_goto j KWoken s) else None)
      else Some s)"

definition prod_product :: "nat \<Rightarrow> int \<Rightarrow> nat \<Rightarrow> prodstate \<Rightarrow> prodstate option" where
  "prod_product i r j s =
     (case prod_threads s ! i of
        PrLock \<Rightarrow> (if prod_mutex s = None then Some (prod_goto i PrTest (s\<lparr>prod_mutex := Some i\<rparr>)) else None)
      | PrTest \<Rightarrow> Some (prod_goto i (if count_node s < 1000 then PrInc else PrUnlock) s)
      | PrInc \<Rightarrow> Some (prod_goto i PrPush (s\<lparr>count_node := count_node s + 1\<rparr>))
      | PrPush \<Rightarrow>
          Some (prod_goto i PrUnlock
            (s\<lparr>prod_head := r mod 1000 # prod_head s, prod_made := prod_made s @ [r mod 1000]\<rparr>))
      | PrUnlock \<Rightarrow> Some (prod_goto i PrSignal (s\<lparr>prod_mutex := None\<rparr>))
      | PrSignal \<Rightarrow> map_option (prod_goto i PrLock) (cond_signal j s)
      | _ \<Rightarrow> None)"

definition prod_main :: "prodstate \<Rightarrow> prodstate option" where
  "prod_main s =
     (if length (prod_threads s) < 6
      then Some (s\<lparr>prod_threads := prod_threads s @ [if length (prod_threads s) < 3 then PrLock else KLock]\<rparr>)
      else None)"

definition prod_step :: "prod_actor \<Rightarrow> prodstate \<Rightarrow> prodstate option" where
  "prod_step a s =
     (if prod_null s then None
      else case a of
        ProdMain \<Rightarrow> prod_main s
      | ProdThread i r j \<Rightarrow>
          (if i < length (prod_threads s)
           then (if i < 3 then prod_product i r j s else prod_customer i s) else None)
      | ProdSpurious j \<Rightarrow>
          (if j < length (prod_threads s) \<and> prod_threads s ! j = KSleep then Some (prod_goto j KWoken s) else None))"


section \<open>What every interleaving keeps\<close>

definition prod_inside :: "prod_pc \<Rightarrow> bool" where
  "prod_inside pc \<longleftrightarrow> pc \<in> {KTest, KDec, KPop, KWait, KUnlock, PrTest, PrInc, PrPush, PrUnlock}"

definition prod_role :: "nat \<Rightarrow> prod_pc \<Rightarrow> bool" where
  "prod_role i pc \<longleftrightarrow> (if i < 3 then pc \<in> {PrLock, PrTest, PrInc, PrPush, PrUnlock, PrSignal}
                     else pc \<in> {KLock, KTest, KDec, KPop, KWait, KSleep, KWoken, KUnlock})"

text \<open>The counter against the list, while the mutex is held at \<open>pc\<close>.\<close>

definition prod_counts :: "prod_pc \<Rightarrow> int \<Rightarrow> int list \<Rightarrow> bool" where
  "prod_counts pc c xs =
     (case pc of
        PrInc \<Rightarrow> c = int (length xs) \<and> c < 1000
      | PrPush \<Rightarrow> c = int (length xs) + 1 \<and> c \<le> 1000
      | KDec \<Rightarrow> c = int (length xs) \<and> c \<le> 1000 \<and> xs \<noteq> []
      | KPop \<Rightarrow> c + 1 = int (length xs) \<and> c < 1000 \<and> xs \<noteq> []
      | _ \<Rightarrow> c = int (length xs) \<and> c \<le> 1000)"

definition prod_mutex_pc :: "prodstate \<Rightarrow> prod_pc" where
  "prod_mutex_pc s = (case prod_mutex s of Some i \<Rightarrow> prod_threads s ! i | None \<Rightarrow> KLock)"

definition prod_inv :: "prodstate \<Rightarrow> bool" where
  "prod_inv s \<longleftrightarrow>
     \<not> prod_null s \<and> length (prod_threads s) \<le> 6
   \<and> (\<forall>i < length (prod_threads s).
        prod_role i (prod_threads s ! i)
      \<and> (prod_inside (prod_threads s ! i) \<longleftrightarrow> prod_mutex s = Some i))
   \<and> (\<forall>i. prod_mutex s = Some i \<longrightarrow> i < length (prod_threads s))
   \<and> prod_counts (prod_mutex_pc s) (count_node s) (prod_head s)
   \<and> mset (prod_made s) = mset (prod_taken s) + mset (prod_head s)"

lemma prod_start_inv: "prod_inv prod_start"
  by (simp add: prod_inv_def prod_start_def prod_counts_def prod_mutex_pc_def)

lemmas prod_pc_defs = prod_inside_def prod_role_def prod_counts_def prod_mutex_pc_def prod_goto_def

text \<open>A step of thread \<open>i\<close> that touches the list or the mutex, with the mutex held before or after it.\<close>

lemma prod_inv_move:
  assumes inv: "prod_inv s" and i: "i < length (prod_threads s)"
    and free: "prod_mutex s = None \<or> prod_mutex s = Some i"
    and s': "prod_threads s' = (prod_threads s)[i := pc']"
      "prod_mutex s' = (if prod_inside pc' then Some i else None)" "\<not> prod_null s'"
    and role: "prod_role i pc'"
    and counts: "prod_counts (if prod_inside pc' then pc' else KLock) (count_node s') (prod_head s')"
    and items: "mset (prod_made s') = mset (prod_taken s') + mset (prod_head s')"
  shows "prod_inv s'"
proof -
  have "prod_mutex_pc s' = (if prod_inside pc' then pc' else KLock)"
    using s' i by (simp add: prod_mutex_pc_def)
  with assms show ?thesis by (auto simp: prod_inv_def nth_list_update)
qed

text \<open>A step outside the mutex.\<close>

lemma prod_inv_outside:
  assumes inv: "prod_inv s" and i: "i < length (prod_threads s)"
    and out: "\<not> prod_inside (prod_threads s ! i)" "\<not> prod_inside pc'" and role: "prod_role i pc'"
  shows "prod_inv (prod_goto i pc' s)"
proof -
  have "prod_mutex s \<noteq> Some i" using inv i out(1) by (simp add: prod_inv_def)
  then have "prod_mutex_pc (prod_goto i pc' s) = prod_mutex_pc s"
    by (auto simp: prod_mutex_pc_def prod_goto_def split: option.splits)
  with assms show ?thesis by (auto simp: prod_inv_def prod_goto_def nth_list_update)
qed

lemma prod_holder:
  assumes "prod_inv s" and "i < length (prod_threads s)" and "prod_inside (prod_threads s ! i)"
  shows "prod_mutex s = Some i" "prod_mutex_pc s = prod_threads s ! i"
  using assms by (auto simp: prod_inv_def prod_mutex_pc_def)

lemma prod_facts:
  assumes "prod_inv s"
  shows "prod_counts (prod_mutex_pc s) (count_node s) (prod_head s)" "\<not> prod_null s"
    "mset (prod_made s) = mset (prod_taken s) + mset (prod_head s)"
  using assms by (simp_all add: prod_inv_def)

lemma prod_lock_inv:
  assumes inv: "prod_inv s" and i: "i < length (prod_threads s)"
    and pc: "prod_inside pc'" "prod_role i pc'" "pc' \<in> {KTest, KUnlock, PrTest}" and free: "prod_mutex s = None"
  shows "prod_inv (prod_goto i pc' (s\<lparr>prod_mutex := Some i\<rparr>))"
  using prod_facts [OF inv] pc free i
  by (intro prod_inv_move [OF inv i disjI1 [OF free], of _ pc']) (auto simp: prod_pc_defs)

lemma prod_customer_inv:
  assumes inv: "prod_inv s" and i: "i < length (prod_threads s)" "\<not> i < 3"
    and step: "prod_customer i s = Some s'"
  shows "prod_inv s'"
proof (cases "prod_inside (prod_threads s ! i)")
  case False
  with step show ?thesis
    using prod_lock_inv [OF inv i(1), of KTest] prod_lock_inv [OF inv i(1), of KUnlock] i(2)
    by (auto simp: prod_customer_def prod_inside_def prod_role_def split: if_splits prod_pc.splits)
next
  case True
  note own = prod_holder [OF inv i(1) True]
  note move = prod_inv_move [OF inv i(1) disjI2 [OF own(1)], of s']
  note facts = step own prod_facts [OF inv] i
  show ?thesis
  proof (cases "prod_threads s ! i")
    case KTest
    then show ?thesis
      using facts by (intro move [of "if prod_head s \<noteq> [] then KDec else KWait"]) (auto simp: prod_customer_def prod_pc_defs)
  next
    case KDec
    then show ?thesis
      using facts by (intro move [of KPop]) (auto simp: prod_customer_def prod_pc_defs)
  next
    case KPop
    then show ?thesis
      using facts by (intro move [of KUnlock]) (auto simp: prod_customer_def prod_pc_defs split: list.splits)
  next
    case KWait
    then show ?thesis
      using facts by (intro move [of KSleep]) (auto simp: prod_customer_def prod_pc_defs)
  next
    case KUnlock
    then show ?thesis
      using facts by (intro move [of KLock]) (auto simp: prod_customer_def prod_pc_defs)
  qed (use step True in \<open>auto simp: prod_customer_def prod_inside_def\<close>)
qed

lemma prod_wake_inv:
  assumes "prod_inv s" and "j < length (prod_threads s)" and "prod_threads s ! j = KSleep"
  shows "prod_inv (prod_goto j KWoken s)"
proof -
  from assms have "prod_role j KSleep" by (metis prod_inv_def)
  then have "prod_role j KWoken" by (simp add: prod_role_def split: if_splits)
  then show ?thesis by (intro prod_inv_outside assms(1,2)) (simp_all add: assms(3) prod_inside_def)
qed

lemma cond_signal_inv:
  assumes "prod_inv s" and "cond_signal j s = Some s'"
  shows "prod_inv s'" "length (prod_threads s') = length (prod_threads s)"
    "\<And>i. prod_threads s ! i \<noteq> KSleep \<Longrightarrow> prod_threads s' ! i = prod_threads s ! i"
  using assms prod_wake_inv [OF assms(1), of j]
  by (auto simp: cond_signal_def prod_goto_def nth_list_update split: if_splits)

lemma prod_product_inv:
  assumes inv: "prod_inv s" and i: "i < length (prod_threads s)" "i < 3"
    and step: "prod_product i r j s = Some s'"
  shows "prod_inv s'"
proof (cases "prod_inside (prod_threads s ! i)")
  case False
  then consider "prod_threads s ! i = PrLock" | "prod_threads s ! i = PrSignal"
    using step by (auto simp: prod_product_def prod_inside_def split: prod_pc.splits)
  then show ?thesis
  proof cases
    case 1
    with step show ?thesis
      using prod_lock_inv [OF inv i(1), of PrTest] i(2)
      by (auto simp: prod_product_def prod_inside_def prod_role_def split: if_splits)
  next
    case 2
    with step obtain t where t: "cond_signal j s = Some t" "s' = prod_goto i PrLock t"
      by (auto simp: prod_product_def)
    note sig = cond_signal_inv [OF inv t(1)]
    have "prod_threads t ! i = PrSignal" using sig(3) 2 by simp
    with sig i show ?thesis unfolding t(2)
      by (intro prod_inv_outside) (simp_all add: prod_inside_def prod_role_def)
  qed
next
  case True
  note own = prod_holder [OF inv i(1) True]
  note move = prod_inv_move [OF inv i(1) disjI2 [OF own(1)], of s']
  note facts = step own prod_facts [OF inv] i
  show ?thesis
  proof (cases "prod_threads s ! i")
    case PrTest
    then show ?thesis
      using facts by (intro move [of "if count_node s < 1000 then PrInc else PrUnlock"]) (auto simp: prod_product_def prod_pc_defs)
  next
    case PrInc
    then show ?thesis
      using facts by (intro move [of PrPush]) (auto simp: prod_product_def prod_pc_defs)
  next
    case PrPush
    then show ?thesis
      using facts by (intro move [of PrUnlock]) (auto simp: prod_product_def prod_pc_defs)
  next
    case PrUnlock
    then show ?thesis
      using facts by (intro move [of PrSignal]) (auto simp: prod_product_def prod_pc_defs)
  qed (use step True in \<open>auto simp: prod_product_def prod_inside_def\<close>)
qed

lemma prod_main_inv:
  assumes inv: "prod_inv s" and step: "prod_main s = Some s'"
  shows "prod_inv s'"
proof -
  let ?pc = "if length (prod_threads s) < 3 then PrLock else KLock"
  have s': "s' = s\<lparr>prod_threads := prod_threads s @ [?pc]\<rparr>" "length (prod_threads s) < 6"
    using step by (auto simp: prod_main_def split: if_splits)
  have "prod_mutex_pc (s\<lparr>prod_threads := prod_threads s @ [?pc]\<rparr>) = prod_mutex_pc s"
    using inv by (auto simp: prod_mutex_pc_def prod_inv_def nth_append split: option.splits)
  moreover have "prod_role (length (prod_threads s)) ?pc" "\<not> prod_inside ?pc"
    by (simp_all add: prod_role_def prod_inside_def)
  ultimately show ?thesis
    unfolding s'(1) using inv s'(2) by (auto simp: prod_inv_def nth_append less_Suc_eq)
qed

lemma prod_step_inv:
  assumes "prod_inv s" and "prod_step a s = Some s'"
  shows "prod_inv s'"
  using assms(2) prod_main_inv [OF assms(1)] prod_customer_inv [OF assms(1)]
    prod_product_inv [OF assms(1)] prod_wake_inv [OF assms(1)]
  by (auto simp: prod_step_def split: prod_actor.splits if_splits)

interpretation prod: thread_invariant prod_step prod_start prod_inv
  by unfold_locales (auto intro: prod_start_inv prod_step_inv)

text \<open>
  C37. No consumer of \<open>prod.c\<close> reads through a null \<open>head\<close>, although the counter and the list are changed one after the
  other; the list never holds more than 1000 items; at most one thread is inside the mutex; the counter
  is right whenever the mutex is free; and every item made is in the list or was taken exactly once.
\<close>

theorem prod_list_safe:
  assumes "reachable prod_step prod_start s"
  shows "\<not> prod_null s \<and> length (prod_head s) \<le> 1000
       \<and> (\<forall>i < length (prod_threads s). \<forall>j < length (prod_threads s).
            prod_inside (prod_threads s ! i) \<and> prod_inside (prod_threads s ! j) \<longrightarrow> i = j)
       \<and> (prod_mutex s = None \<longrightarrow> count_node s = int (length (prod_head s)))
       \<and> mset (prod_made s) = mset (prod_taken s) + mset (prod_head s)"
proof -
  note inv = prod.always [OF assms]
  note facts = prod_facts [OF inv]
  have "i = j" if "i < length (prod_threads s)" "j < length (prod_threads s)"
    "prod_inside (prod_threads s ! i)" "prod_inside (prod_threads s ! j)" for i j
    using prod_holder(1) [OF inv that(1,3)] prod_holder(1) [OF inv that(2,4)] by simp
  moreover have "length (prod_head s) \<le> 1000"
    using facts(1) by (auto simp: prod_counts_def split: prod_pc.splits)
  moreover have "count_node s = int (length (prod_head s))" if "prod_mutex s = None"
    using facts(1) that by (simp add: prod_mutex_pc_def prod_counts_def)
  ultimately show ?thesis using facts(2,3) by blast
qed

theorem prod_list_safe_witness:
  "\<exists>s. run_schedule prod_step
          (replicate 4 ProdMain @ replicate 6 (ProdThread 0 1007 0) @ replicate 3 (ProdThread 3 0 0)) prod_start = Some s
     \<and> reachable prod_step prod_start s \<and> prod_head s = [7] \<and> count_node s = 0 \<and> prod_mutex s = Some 3
     \<and> \<not> prod_null s \<and> mset (prod_made s) = mset (prod_taken s) + mset (prod_head s)"
proof -
  let ?sched = "replicate 4 ProdMain @ replicate 6 (ProdThread 0 1007 0) @ replicate 3 (ProdThread 3 0 0)"
  obtain s where s: "run_schedule prod_step ?sched prod_start = Some s"
    and "prod_head s = [7]" "count_node s = 0" "prod_mutex s = Some 3"
    by (simp add: numeral_eq_Suc prod_step_def prod_main_def prod_customer_def prod_product_def cond_signal_def
        prod_goto_def prod_start_def)
  moreover have r: "reachable prod_step prod_start s" by (rule run_schedule_reachable [OF reachable_init s])
  moreover have "\<not> prod_null s \<and> mset (prod_made s) = mset (prod_taken s) + mset (prod_head s)"
    using prod_list_safe [OF r] by blast
  ultimately show ?thesis by blast
qed


section \<open>Sleepers can be woken\<close>

definition prod_rank :: "prod_pc \<Rightarrow> nat" where
  "prod_rank pc =
     (case pc of KTest \<Rightarrow> 4 | KDec \<Rightarrow> 3 | KPop \<Rightarrow> 2 | KUnlock \<Rightarrow> 1 | KWait \<Rightarrow> 1
      | PrTest \<Rightarrow> 4 | PrInc \<Rightarrow> 3 | PrPush \<Rightarrow> 2 | PrUnlock \<Rightarrow> 1 | _ \<Rightarrow> 0)"

text \<open>Whoever holds the mutex can move, and is at most four moves from giving it back.\<close>

lemma holder_advances:
  assumes inv: "prod_inv s" and i: "prod_mutex s = Some i"
  obtains s' pc' where "prod_step (ProdThread i r j) s = Some s'" "prod_threads s' = (prod_threads s)[i := pc']"
    "prod_mutex s' = None \<and> (i < 3 \<longrightarrow> pc' = PrSignal)
   \<or> prod_mutex s' = Some i \<and> prod_rank pc' < prod_rank (prod_threads s ! i)"
proof -
  have len: "i < length (prod_threads s)" and null: "\<not> prod_null s" using inv i by (auto simp: prod_inv_def)
  have ins: "prod_inside (prod_threads s ! i)" and role: "prod_role i (prod_threads s ! i)"
    using inv i len by (auto simp: prod_inv_def)
  note facts = prod_facts(1) [OF inv] i len null
  note defs = prod_step_def prod_customer_def prod_product_def prod_goto_def prod_rank_def prod_role_def
    prod_counts_def prod_mutex_pc_def
  show ?thesis
  proof (cases "prod_threads s ! i")
    case KPop
    with facts have "prod_head s \<noteq> []" by (simp add: prod_counts_def prod_mutex_pc_def)
    with KPop facts role show ?thesis
      by (cases "prod_head s") (auto simp: defs intro!: that [of _ KUnlock] split: if_splits)
  qed (use ins role facts that in \<open>auto simp: defs prod_inside_def split: if_splits\<close>)
qed

lemma mutex_given_back:
  assumes "prod_inv s" and "prod_mutex s = Some i"
  shows "\<exists>n s' pc'. run_schedule prod_step (replicate n (ProdThread i r j)) s = Some s' \<and> prod_mutex s' = None
       \<and> prod_threads s' = (prod_threads s)[i := pc'] \<and> (i < 3 \<longrightarrow> pc' = PrSignal)"
  using assms
proof (induction "prod_rank (prod_threads s ! i)" arbitrary: s rule: less_induct)
  case less
  from holder_advances [OF less.prems] obtain s1 pc1 where
    s1: "prod_step (ProdThread i r j) s = Some s1" "prod_threads s1 = (prod_threads s)[i := pc1]"
    and alt: "prod_mutex s1 = None \<and> (i < 3 \<longrightarrow> pc1 = PrSignal)
      \<or> prod_mutex s1 = Some i \<and> prod_rank pc1 < prod_rank (prod_threads s ! i)" .
  have i: "i < length (prod_threads s)" using less.prems by (auto simp: prod_inv_def)
  from alt show ?case
  proof
    assume "prod_mutex s1 = None \<and> (i < 3 \<longrightarrow> pc1 = PrSignal)"
    with s1 show ?thesis by (intro exI [of _ 1] exI [of _ s1] exI [of _ pc1]) simp
  next
    assume a: "prod_mutex s1 = Some i \<and> prod_rank pc1 < prod_rank (prod_threads s ! i)"
    with s1 i have "prod_rank (prod_threads s1 ! i) < prod_rank (prod_threads s ! i)" by simp
    from less.hyps [OF this prod_step_inv [OF less.prems(1) s1(1)]] a obtain n s2 pc2 where
      "run_schedule prod_step (replicate n (ProdThread i r j)) s1 = Some s2" "prod_mutex s2 = None"
      "prod_threads s2 = (prod_threads s1)[i := pc2]" "i < 3 \<longrightarrow> pc2 = PrSignal" by blast
    with s1 show ?thesis by (intro exI [of _ "Suc n"] exI [of _ s2] exI [of _ pc2]) simp
  qed
qed

text \<open>With the mutex free a producer can make its round and wake the sleeper of its choice.\<close>

lemma producer_wakes:
  assumes inv: "prod_inv s" and free: "prod_mutex s = None"
    and j: "j < length (prod_threads s)" "prod_threads s ! j = KSleep" and n: "length (prod_threads s) = 6"
  shows "\<exists>n s'. run_schedule prod_step (replicate n (ProdThread 0 r j)) s = Some s' \<and> prod_threads s' ! j = KWoken"
proof -
  have signal: "\<exists>s'. prod_step (ProdThread 0 r j) t = Some s' \<and> prod_threads s' ! j = KWoken"
    if "prod_inv t" "length (prod_threads t) = 6" "prod_threads t ! 0 = PrSignal" "prod_threads t ! j = KSleep" for t
  proof -
    have "j \<noteq> 0" using that(3,4) by (cases j) auto
    moreover have "KSleep \<in> set (prod_threads t)" using that j n by (metis nth_mem)
    ultimately show ?thesis
      using that j n prod_facts(2) [OF that(1)]
      by (auto simp: prod_step_def prod_product_def cond_signal_def prod_goto_def)
  qed
  have role: "prod_role 0 (prod_threads s ! 0)" "\<not> prod_inside (prod_threads s ! 0)" and null: "\<not> prod_null s"
    using inv n free by (auto simp: prod_inv_def)
  then consider "prod_threads s ! 0 = PrSignal" | "prod_threads s ! 0 = PrLock"
    by (auto simp: prod_role_def prod_inside_def)
  then show ?thesis
  proof cases
    case 1
    with signal [OF inv n _ j(2)] show ?thesis by (intro exI [of _ 1]) auto
  next
    case 2
    let ?t = "prod_goto 0 PrTest (s\<lparr>prod_mutex := Some 0\<rparr>)"
    have t: "prod_step (ProdThread 0 r j) s = Some ?t"
      using 2 n free null by (simp add: prod_step_def prod_product_def)
    have j0: "j \<noteq> 0" using 2 j(2) by (cases j) auto
    obtain m u where u: "run_schedule prod_step (replicate m (ProdThread 0 r j)) ?t = Some u"
      "prod_threads u = (prod_threads ?t)[0 := PrSignal]"
      using mutex_given_back [OF prod_step_inv [OF inv t], of 0 r j] by (auto simp: prod_goto_def)
    have "prod_inv u" by (rule prod.run_keeps [OF prod_step_inv [OF inv t] u(1)])
    moreover have "prod_threads u ! 0 = PrSignal" "prod_threads u ! j = KSleep" "length (prod_threads u) = 6"
      using u(2) j j0 n by (simp_all add: prod_goto_def)
    ultimately obtain w where w: "prod_step (ProdThread 0 r j) u = Some w" "prod_threads w ! j = KWoken"
      using signal by blast
    have "run_schedule prod_step (replicate (Suc m) (ProdThread 0 r j) @ [ProdThread 0 r j]) s = Some w"
      using t u(1) w(1) by (simp add: run_schedule_append)
    then have "run_schedule prod_step (replicate (Suc (Suc m)) (ProdThread 0 r j)) s = Some w"
      unfolding replicate_append_same by (simp only: replicate_Suc)
    with w(2) show ?thesis by blast
  qed
qed

text \<open>
  C38. No sleeper of \<open>prod.c\<close> is ever lost: from every reachable state with the six threads running, the holder of the
  mutex, if there is one, and then a producer can run until the sleeper is woken, without a wake-up that
  comes for no reason.
\<close>

theorem prod_sleeper_wakes:
  assumes "reachable prod_step prod_start s" and "length (prod_threads s) = 6"
    and "j < 6" and "prod_threads s ! j = KSleep"
  shows "\<exists>sched s'. run_schedule prod_step sched s = Some s' \<and> prod_threads s' ! j = KWoken
       \<and> (\<forall>a \<in> set sched. \<exists>i r k. a = ProdThread i r k)"
proof (cases "prod_mutex s")
  case None
  from producer_wakes [OF prod.always [OF assms(1)] None, of j 0] assms obtain n s' where
    "run_schedule prod_step (replicate n (ProdThread 0 0 j)) s = Some s'" "prod_threads s' ! j = KWoken" by auto
  then show ?thesis by (intro exI [of _ "replicate n (ProdThread 0 0 j)"] exI [of _ s']) auto
next
  case (Some i)
  note inv = prod.always [OF assms(1)]
  from mutex_given_back [OF inv Some, of 0 0] obtain n t pc where
    t: "run_schedule prod_step (replicate n (ProdThread i 0 0)) s = Some t" "prod_mutex t = None"
      "prod_threads t = (prod_threads s)[i := pc]" by blast
  have "prod_inside (prod_threads s ! i)" using inv Some by (auto simp: prod_inv_def)
  with assms(4) have "i \<noteq> j" by (auto simp: prod_inside_def)
  with t(3) assms have "prod_threads t ! j = KSleep" "length (prod_threads t) = 6" by simp_all
  with producer_wakes [OF prod.run_keeps [OF inv t(1)] t(2), of j 0] assms(3) obtain m u where
    u: "run_schedule prod_step (replicate m (ProdThread 0 0 j)) t = Some u" "prod_threads u ! j = KWoken" by auto
  let ?sched = "replicate n (ProdThread i 0 0) @ replicate m (ProdThread 0 0 j)"
  have "run_schedule prod_step ?sched s = Some u" using t(1) u(1) by (simp add: run_schedule_append)
  with u(2) show ?thesis by (intro exI [of _ ?sched] exI [of _ u]) auto
qed

theorem prod_sleeper_wakes_witness:
  "\<exists>s. run_schedule prod_step (replicate 6 ProdMain @ replicate 3 (ProdThread 3 0 0)) prod_start = Some s
     \<and> prod_threads s ! 3 = KSleep
     \<and> (\<exists>sched s'. run_schedule prod_step sched s = Some s' \<and> prod_threads s' ! 3 = KWoken)"
proof -
  let ?sched = "replicate 6 ProdMain @ replicate 3 (ProdThread 3 0 0)"
  obtain s where s: "run_schedule prod_step ?sched prod_start = Some s"
    and sleeps: "prod_threads s ! 3 = KSleep" "length (prod_threads s) = 6"
    by (simp add: numeral_eq_Suc prod_step_def prod_main_def prod_customer_def prod_product_def cond_signal_def
        prod_goto_def prod_start_def)
  have "reachable prod_step prod_start s" by (rule run_schedule_reachable [OF reachable_init s])
  from prod_sleeper_wakes [OF this sleeps(2) _ sleeps(1)] s sleeps(1) show ?thesis by auto
qed

end
