(* ===== verification/Train_Files.thy ===== *)
theory Train_Files
  imports CString
begin

unbundle bit_operations_syntax

text \<open>
  The two file programs of \<open>src/bck/train/chapter 1&2\<close>: \<open>readFileNum.c\<close>, which counts the regular
  files under a directory, and \<open>ls-l.c\<close>, which prints one file the way \<open>ls -l\<close> does.  What the
  system answers (\<open>opendir\<close> with the entries \<open>readdir\<close> then gives, \<open>stat\<close>, \<open>getpwuid\<close>,
  \<open>getgrgid\<close>, \<open>ctime\<close>) is an argument.  A \<open>sprintf\<close> that does not fit its array is \<open>OutOfBounds\<close>.
\<close>

section \<open>\<open>readFileNum.c\<close>\<close>

datatype d_type = DT_REG | DT_DIR | DT_OTHER

text \<open>\<open>opendir\<close> and the entries of the open directory, \<open>None\<close> when it cannot be opened.\<close>

type_synonym directories = "string \<Rightarrow> (string \<times> d_type) list option"

definition sub_path :: "string \<Rightarrow> string \<Rightarrow> string" where
  "sub_path path name = path @ ''/'' @ name"

text \<open>
  The loop over the entries.  \<open>sub\<close> is the recursive call; the outer option is the fuel of the
  recursion, \<open>exit(0)\<close> is \<open>Exited\<close>.
\<close>

fun entries_loop :: "(string \<Rightarrow> int result option) \<Rightarrow> string \<Rightarrow> (string \<times> d_type) list \<Rightarrow> int \<Rightarrow> int result option" where
  "entries_loop sub path [] totel = Some (Inr totel)"
| "entries_loop sub path ((name, ty) # es) totel =
     (if name = ''.'' \<or> name = ''..'' then entries_loop sub path es totel
      else if ty = DT_DIR then
        (if 256 \<le> length (sub_path path name) then Some (Inl OutOfBounds)
         else case sub (sub_path path name) of
             None \<Rightarrow> None
           | Some (Inl e) \<Rightarrow> Some (Inl e)
           | Some (Inr k) \<Rightarrow> entries_loop sub path es (totel + k))
      else if ty = DT_REG then entries_loop sub path es (totel + 1)
      else entries_loop sub path es totel)"

primrec getFileNum :: "nat \<Rightarrow> directories \<Rightarrow> string \<Rightarrow> int result option" where
  "getFileNum 0 dirs path = None"
| "getFileNum (Suc n) dirs path =
     (case dirs path of
        None \<Rightarrow> Some (Inl Exited)
      | Some es \<Rightarrow> entries_loop (getFileNum n dirs) path es 0)"

text \<open>\<open>main\<close>: the exit status and what is printed.\<close>

definition readFileNum_main :: "nat \<Rightarrow> directories \<Rightarrow> string list \<Rightarrow> (int \<times> string) result option" where
  "readFileNum_main fuel dirs argv =
     (case argv of
        name # path # _ \<Rightarrow>
          map_option (\<lambda>r. then_do r (\<lambda>n. Inr (0, ''REGFILE nums is '' @ show_int n @ ''\<newline>'')))
            (getFileNum fuel dirs path)
      | name # _ \<Rightarrow> Some (Inr (-1, ''please enter dir + '' @ name))
      | [] \<Rightarrow> Some (Inl NullDeref))"


subsection \<open>The directory tree it walks\<close>

datatype tree = RegFile string | SubDir string "tree list" | LockedDir string | Special string

fun reg_count :: "tree \<Rightarrow> nat" where
  "reg_count (RegFile _) = 1"
| "reg_count (SubDir _ ts) = sum_list (map reg_count ts)"
| "reg_count _ = 0"

fun dir_height :: "tree \<Rightarrow> nat" where
  "dir_height (SubDir _ ts) = Suc (Max (set (0 # map dir_height ts)))"
| "dir_height (LockedDir _) = 1"
| "dir_height _ = 0"

fun tree_entry :: "tree \<Rightarrow> string \<times> d_type" where
  "tree_entry (RegFile n) = (n, DT_REG)"
| "tree_entry (SubDir n _) = (n, DT_DIR)"
| "tree_entry (LockedDir n) = (n, DT_DIR)"
| "tree_entry (Special n) = (n, DT_OTHER)"

definition not_dot :: "string \<times> d_type \<Rightarrow> bool" where
  "not_dot e \<longleftrightarrow> fst e \<noteq> ''.'' \<and> fst e \<noteq> ''..''"

text \<open>The directories under \<open>path\<close> are the trees \<open>ts\<close>, the two dot entries aside.\<close>

fun below :: "directories \<Rightarrow> string \<Rightarrow> tree \<Rightarrow> bool" where
  "below dirs path (SubDir n ts) =
     ((case dirs (sub_path path n) of
         None \<Rightarrow> False | Some es \<Rightarrow> filter not_dot es = map tree_entry ts)
    \<and> (\<forall>t \<in> set ts. below dirs (sub_path path n) t))"
| "below dirs path (LockedDir n) = (dirs (sub_path path n) = None)"
| "below dirs path _ = True"

definition holds_trees :: "directories \<Rightarrow> string \<Rightarrow> tree list \<Rightarrow> bool" where
  "holds_trees dirs path ts \<longleftrightarrow>
     (case dirs path of None \<Rightarrow> False | Some es \<Rightarrow> filter not_dot es = map tree_entry ts)
   \<and> (\<forall>t \<in> set ts. below dirs path t)"

text \<open>Every directory can be opened and its path fits the 256 bytes of \<open>dirpath\<close>.\<close>

fun walkable :: "string \<Rightarrow> tree \<Rightarrow> bool" where
  "walkable path (SubDir n ts) =
     (length (sub_path path n) < 256 \<and> (\<forall>t \<in> set ts. walkable (sub_path path n) t))"
| "walkable path (LockedDir n) = False"
| "walkable path _ = True"

lemma entries_loop_dots:
  "entries_loop sub path es totel = entries_loop sub path (filter not_dot es) totel"
  by (induction es arbitrary: totel)
     (auto simp: not_dot_def split: option.splits sum.splits)

text \<open>What a walk of trees that are all walkable, or not, comes to.\<close>

definition walk_result :: "bool \<Rightarrow> int \<Rightarrow> int result option \<Rightarrow> bool" where
  "walk_result ok n r \<longleftrightarrow> (if ok then r = Some (Inr n) else \<exists>e. r = Some (Inl e))"

definition reg_total :: "tree list \<Rightarrow> int" where
  "reg_total ts = int (sum_list (map reg_count ts))"

lemma entries_loop_trees:
  assumes "\<forall>n us. SubDir n us \<in> set ts \<and> length (sub_path path n) < 256 \<longrightarrow>
             walk_result (\<forall>u \<in> set us. walkable (sub_path path n) u) (reg_total us) (sub (sub_path path n))"
    and "\<forall>n. LockedDir n \<in> set ts \<longrightarrow> sub (sub_path path n) = Some (Inl Exited)"
    and "\<forall>t \<in> set ts. not_dot (tree_entry t)"
  shows "walk_result (\<forall>t \<in> set ts. walkable path t) (totel + reg_total ts)
           (entries_loop sub path (map tree_entry ts) totel)"
  using assms
proof (induction ts arbitrary: totel)
  case Nil
  show ?case by (simp add: walk_result_def reg_total_def)
next
  case (Cons t ts)
  have IH: "walk_result (\<forall>t \<in> set ts. walkable path t) (k + reg_total ts)
           (entries_loop sub path (map tree_entry ts) k)" for k
    using Cons.IH Cons.prems by simp
  show ?case
  proof (cases t)
    case (RegFile n)
    with IH [of "totel + 1"] Cons.prems(3) show ?thesis
      by (simp add: not_dot_def reg_total_def algebra_simps)
  next
    case (SubDir n us)
    then have "length (sub_path path n) < 256 \<Longrightarrow>
        walk_result (\<forall>u \<in> set us. walkable (sub_path path n) u) (reg_total us) (sub (sub_path path n))"
      using Cons.prems(1) by simp
    with SubDir IH [of "totel + reg_total us"] Cons.prems(3) show ?thesis
      by (auto simp: not_dot_def not_less reg_total_def walk_result_def algebra_simps split: if_splits)
  next
    case (LockedDir n)
    with Cons.prems(2,3) show ?thesis by (auto simp: not_dot_def walk_result_def)
  next
    case (Special n)
    with IH [of totel] Cons.prems(3) show ?thesis by (simp add: not_dot_def reg_total_def)
  qed
qed

lemma getFileNum_walk:
  assumes "holds_trees dirs path ts" and "\<forall>t \<in> set ts. dir_height t < fuel" and "0 < fuel"
  shows "walk_result (\<forall>t \<in> set ts. walkable path t) (reg_total ts) (getFileNum fuel dirs path)"
  using assms
proof (induction fuel arbitrary: path ts)
  case (Suc fuel)
  from Suc.prems(1) obtain es where es: "dirs path = Some es" "filter not_dot es = map tree_entry ts"
    and sub: "\<forall>t \<in> set ts. below dirs path t"
    by (auto simp: holds_trees_def split: option.splits)
  have dots: "\<forall>t \<in> set ts. not_dot (tree_entry t)"
  proof
    fix t assume "t \<in> set ts"
    then have "tree_entry t \<in> set (filter not_dot es)" unfolding es(2) by simp
    then show "not_dot (tree_entry t)" by simp
  qed
  have "walk_result (\<forall>u \<in> set us. walkable (sub_path path n) u) (reg_total us) (getFileNum fuel dirs (sub_path path n))"
    if t: "SubDir n us \<in> set ts" for n us
  proof (rule Suc.IH)
    show "holds_trees dirs (sub_path path n) us"
      using bspec [OF sub t] by (simp add: holds_trees_def)
    have h: "Max (insert 0 (dir_height ` set us)) < fuel" using bspec [OF Suc.prems(2) t] by simp
    then show "0 < fuel" by simp
    show "\<forall>u \<in> set us. dir_height u < fuel" using h by simp
  qed
  moreover have "getFileNum fuel dirs (sub_path path n) = Some (Inl Exited)" if t: "LockedDir n \<in> set ts" for n
    using bspec [OF sub t] bspec [OF Suc.prems(2) t] by (cases fuel) simp_all
  ultimately have "walk_result (\<forall>t \<in> set ts. walkable path t) (0 + reg_total ts)
      (entries_loop (getFileNum fuel dirs) path (map tree_entry ts) 0)"
    using dots by (intro entries_loop_trees) auto
  then show ?case using es entries_loop_dots [of _ path es] by simp
qed simp


definition demo_dirs :: directories where
  "demo_dirs p =
     (if p = ''d'' then Some [(''.'', DT_DIR), (''a.c'', DT_REG), (''..'', DT_DIR), (''s'', DT_DIR), (''l'', DT_OTHER)]
      else if p = ''d/s'' then Some [(''b.c'', DT_REG), (''.'', DT_DIR), (''c.c'', DT_REG), (''..'', DT_DIR)]
      else None)"



section \<open>\<open>ls-l.c\<close>\<close>

record ls_stat =
  ls_mode :: "32 word"
  ls_nlink :: int
  ls_uid :: "32 word"
  ls_gid :: "32 word"
  ls_size :: int
  ls_mtime :: int

definition ls_S_IFMT :: "32 word" where "ls_S_IFMT = 0xF000"

text \<open>The \<open>switch\<close> on the type bits.\<close>

definition type_char :: "32 word \<Rightarrow> char" where
  "type_char mode =
     (let t = mode AND ls_S_IFMT in
      if t = 0x6000 then CHR ''b'' else if t = 0xC000 then CHR ''s''
      else if t = 0xA000 then CHR ''l'' else if t = 0x8000 then CHR ''-''
      else if t = 0x4000 then CHR ''d'' else if t = 0x2000 then CHR ''c''
      else if t = 0x1000 then CHR ''p'' else CHR ''?'')"

definition perm_char :: "32 word \<Rightarrow> 32 word \<Rightarrow> char \<Rightarrow> char" where
  "perm_char mode bits ch = (if mode AND bits \<noteq> 0 then ch else CHR ''-'')"

text \<open>The array \<open>type\<close>: ten characters and the terminator the initialiser left.\<close>

definition ls_type :: "32 word \<Rightarrow> char list" where
  "ls_type mode =
     [type_char mode,
      perm_char mode 0x100 (CHR ''r''), perm_char mode 0x80 (CHR ''w''), perm_char mode 0x40 (CHR ''x''),
      perm_char mode 0x20 (CHR ''r''), perm_char mode 0x10 (CHR ''w''), perm_char mode 0x8 (CHR ''x''),
      perm_char mode 0x4 (CHR ''r''), perm_char mode 0x2 (CHR ''w''), perm_char mode 0x1 (CHR ''x''), NUL]"

definition ls_line :: "ls_stat \<Rightarrow> string \<Rightarrow> string \<Rightarrow> string \<Rightarrow> string \<Rightarrow> string" where
  "ls_line st user grp tm name =
     take (strlen (ls_type (ls_mode st))) (ls_type (ls_mode st)) @ '' '' @ show_int (ls_nlink st)
     @ '' '' @ user @ '' '' @ grp @ '' '' @ show_int (ls_size st) @ '' '' @ tm @ '' '' @ name"

text \<open>
  \<open>main\<close>: a user or group without an entry is a null pointer dereferenced, and the line goes through
  a buffer of 1024 bytes.
\<close>

definition ls_main ::
    "(string \<Rightarrow> ls_stat option) \<Rightarrow> (32 word \<Rightarrow> string option) \<Rightarrow> (32 word \<Rightarrow> string option) \<Rightarrow>
     (int \<Rightarrow> string) \<Rightarrow> string list \<Rightarrow> (int \<times> string) result" where
  "ls_main stat getpwuid getgrgid ctime argv =
     (case argv of
        prog # name # _ \<Rightarrow>
          (case stat name of
             None \<Rightarrow> Inr (-1, [])
           | Some st \<Rightarrow>
               (case getpwuid (ls_uid st) of
                  None \<Rightarrow> Inl NullDeref
                | Some user \<Rightarrow>
                    (case getgrgid (ls_gid st) of
                       None \<Rightarrow> Inl NullDeref
                     | Some grp \<Rightarrow>
                         (let l = ls_line st user grp (ctime (ls_mtime st)) name in
                          if 1024 \<le> length l then Inl OutOfBounds else Inr (0, l @ ''\<newline>'')))))
      | prog # _ \<Rightarrow> Inr (-1, prog @ '' filename'')
      | [] \<Rightarrow> Inl NullDeref)"


subsection \<open>Reading the mode back\<close>

text \<open>The permission bits and the type of a printed mode.\<close>

fun read_perms :: "string \<Rightarrow> 32 word" where
  "read_perms [] = 0"
| "read_perms (ch # cs) = (if ch = CHR ''-'' then 0 else push_bit (length cs) 1) OR read_perms cs"

definition read_type :: "char \<Rightarrow> 32 word option" where
  "read_type ch =
     (if ch = CHR ''b'' then Some 0x6000 else if ch = CHR ''s'' then Some 0xC000
      else if ch = CHR ''l'' then Some 0xA000 else if ch = CHR ''-'' then Some 0x8000
      else if ch = CHR ''d'' then Some 0x4000 else if ch = CHR ''c'' then Some 0x2000
      else if ch = CHR ''p'' then Some 0x1000 else None)"

lemma perm_bit: "(m AND 2 ^ k \<noteq> 0) \<longleftrightarrow> bit (m :: 32 word) k"
  using and_exp_eq_0_iff_not_bit [of m k] by simp

lemma read_perms_bit:
  "bit (read_perms cs) k \<longleftrightarrow> k < length cs \<and> k < 32 \<and> cs ! (length cs - Suc k) \<noteq> CHR ''-''"
proof (induction cs)
  case (Cons ch cs)
  then show ?case
    by (cases "k = length cs")
       (auto simp: bit_or_iff bit_exp_iff nth_Cons' less_Suc_eq)
qed simp

lemma ls_type_perm:
  assumes "k < 9"
  shows "ls_type m ! (9 - k) \<noteq> CHR ''-'' \<longleftrightarrow> bit m k"
proof -
  have bits: "m AND 0x100 \<noteq> 0 \<longleftrightarrow> bit m 8" "m AND 0x80 \<noteq> 0 \<longleftrightarrow> bit m 7" "m AND 0x40 \<noteq> 0 \<longleftrightarrow> bit m 6"
    "m AND 0x20 \<noteq> 0 \<longleftrightarrow> bit m 5" "m AND 0x10 \<noteq> 0 \<longleftrightarrow> bit m 4" "m AND 0x8 \<noteq> 0 \<longleftrightarrow> bit m 3"
    "m AND 0x4 \<noteq> 0 \<longleftrightarrow> bit m 2" "m AND 0x2 \<noteq> 0 \<longleftrightarrow> bit m 1" "m AND 0x1 \<noteq> 0 \<longleftrightarrow> bit m 0"
    using perm_bit [of m 8] perm_bit [of m 7] perm_bit [of m 6] perm_bit [of m 5] perm_bit [of m 4]
      perm_bit [of m 3] perm_bit [of m 2] perm_bit [of m 1] perm_bit [of m 0] by simp_all
  from assms consider "k = 0" | "k = 1" | "k = 2" | "k = 3" | "k = 4" | "k = 5" | "k = 6" | "k = 7" | "k = 8"
    by linarith
  then show ?thesis
    by cases (simp_all only: ls_type_def perm_char_def bits, simp_all)
qed

lemma read_type_char:
  assumes "type_char m \<noteq> CHR ''?''"
  shows "read_type (type_char m) = Some (m AND ls_S_IFMT)"
  using assms by (auto simp: type_char_def read_type_def Let_def split: if_splits)

text \<open>
  The string \<open>ls-l.c\<close> prints for a mode holds the mode: ten characters before the terminator, none of
  them a NUL, from which the permission bits and, where the type is one of the seven known, the
  type bits are read back.
\<close>

theorem ls_type_roundtrip:
  "length (ls_type m) = 11 \<and> strlen (ls_type m) = 10
 \<and> read_perms (take 9 (drop 1 (ls_type m))) = m AND 0x1FF
 \<and> (type_char m \<noteq> CHR ''?'' \<longrightarrow> read_type (hd (ls_type m)) = Some (m AND ls_S_IFMT))"
proof -
  have "bit (read_perms (take 9 (drop 1 (ls_type m)))) k \<longleftrightarrow> bit (m AND 0x1FF) k" for k
  proof -
    have mask: "(0x1FF :: 32 word) = mask 9" by (simp add: mask_eq_exp_minus_1)
    have len: "length (take 9 (drop 1 (ls_type m))) = 9" by (simp add: ls_type_def)
    show ?thesis
    proof (cases "k < 9")
      case True
      then have "take 9 (drop 1 (ls_type m)) ! (9 - Suc k) = ls_type m ! (9 - k)"
        using len by (simp add: nth_drop Suc_diff_le [symmetric])
      with True show ?thesis
        using ls_type_perm [OF True, of m] len by (simp add: read_perms_bit mask bit_and_iff bit_mask_iff)
    next
      case False
      then show ?thesis using len by (simp add: read_perms_bit mask bit_and_iff bit_mask_iff)
    qed
  qed
  then have "read_perms (take 9 (drop 1 (ls_type m))) = m AND 0x1FF" by (intro bit_eqI) blast
  moreover have "strlen (ls_type m) = 10"
    by (simp add: ls_type_def strlen_def type_char_def perm_char_def Let_def)
  ultimately show ?thesis
    using read_type_char [of m] by (simp add: ls_type_def)
qed

end
