(* ===== verification/Train_Echo.thy ===== *)
theory Train_Echo
  imports CString Buffer
begin

text \<open>
  The blocking echo servers of \<open>src/bck/train/chapter 4\<close>: \<open>server.c\<close> (one client), \<open>server_1.c\<close> (a
  child process for each client) and \<open>server_pthread.c\<close> (a thread for each client), with the
  client \<open>client.c\<close>.  What the system answers to \<open>socket\<close>, \<open>bind\<close>, \<open>listen\<close>, \<open>accept\<close>, \<open>fork\<close>
  and each \<open>read\<close> is an argument; a program whose answers are used up is still waiting.  \<open>write\<close> is
  taken to hand over all its bytes: none of these programs looks at its result.
\<close>

section \<open>Programs that return\<close>

text \<open>A program is still running, or \<open>main\<close> has returned its status.\<close>

datatype 's run = Going 's | MainReturned int 's

fun run_state :: "'s run \<Rightarrow> 's" where
  "run_state (Going s) = s"
| "run_state (MainReturned _ s) = s"

definition go_on :: "'s run result \<Rightarrow> ('s \<Rightarrow> 's run result) \<Rightarrow> 's run result" where
  "go_on r f = then_do r (\<lambda>x. case x of Going s \<Rightarrow> f s | MainReturned k s \<Rightarrow> Inr (MainReturned k s))"

lemma go_on_simps [simp]:
  "go_on (Inl e) f = Inl e"
  "go_on (Inr (Going s)) f = f s"
  "go_on (Inr (MainReturned k s)) f = Inr (MainReturned k s)"
  by (simp_all add: go_on_def)

lemma go_on_Inr_Going:
  "go_on r f = Inr (Going s') \<longleftrightarrow> (\<exists>s. r = Inr (Going s) \<and> f s = Inr (Going s'))"
proof (cases r)
  case (Inr x)
  then show ?thesis by (cases x) simp_all
qed simp

fun run_all :: "('a \<Rightarrow> 's \<Rightarrow> 's run result) \<Rightarrow> 'a list \<Rightarrow> 's \<Rightarrow> 's run result" where
  "run_all f [] s = Inr (Going s)"
| "run_all f (x # xs) s = go_on (f x s) (run_all f xs)"

lemma run_all_append: "run_all f (xs @ ys) s = go_on (run_all f xs s) (run_all f ys)"
proof (induction xs arbitrary: s)
  case (Cons x xs)
  show ?case
  proof (cases "f x s")
    case (Inr r)
    then show ?thesis by (cases r) (simp_all add: Cons.IH)
  qed simp
qed simp

lemma run_all_invariant:
  assumes "\<And>x s s'. P s \<Longrightarrow> f x s = Inr (Going s') \<Longrightarrow> P s'" and "P s"
    and "run_all f xs s = Inr (Going s')"
  shows "P s'"
  using assms(2,3)
  by (induction xs arbitrary: s) (auto simp: go_on_Inr_Going intro: assms(1))


section \<open>Opening the listening socket\<close>

text \<open>
  \<open>socket\<close>, \<open>bind\<close> and \<open>listen\<close> as \<open>select.c\<close>, \<open>poll.c\<close>, \<open>epoll.c\<close>, \<open>server_1.c\<close> and
  \<open>server_pthread.c\<close> call them: the first failure makes \<open>main\<close> return -1.
\<close>

record listen_calls =
  socket_ret :: fd
  bind_ok :: bool
  listen_ok :: bool

definition open_listener :: "listen_calls \<Rightarrow> int + fd" where
  "open_listener c =
     (if socket_ret c = -1 then Inl (-1)
      else if \<not> bind_ok c then Inl (-1)
      else if \<not> listen_ok c then Inl (-1)
      else Inr (socket_ret c))"


section \<open>One message\<close>

text \<open>A zeroed array of \<open>n\<close> bytes after \<open>read\<close> has put \<open>data\<close> into it.\<close>

definition received :: "nat \<Rightarrow> string \<Rightarrow> char list" where
  "received n data = data @ replicate (n - length data) NUL"

text \<open>
  What \<open>printf("%s")\<close> and \<open>strlen\<close> see of it: the bytes before the first NUL, and an access past the
  array when there is none.
\<close>

definition text_reply :: "nat \<Rightarrow> string \<Rightarrow> string result" where
  "text_reply n data = cstr_at (received n data) 0"

text \<open>A reply of the whole array, printed first.\<close>

definition block_reply :: "nat \<Rightarrow> string \<Rightarrow> string result" where
  "block_reply n data = then_do (cstr_at (received n data) 0) (\<lambda>_. Inr (received n data))"

lemma received_length [simp]: "length data \<le> n \<Longrightarrow> length (received n data) = n"
  by (simp add: received_def)

lemma cstr_received:
  assumes "length data \<le> n"
  shows "cstr_at (received n data) 0 =
    (if NUL \<notin> set data \<and> length data = n then Inl OutOfBounds else Inr (takeWhile (\<lambda>c. c \<noteq> NUL) data))"
proof (cases "NUL \<in> set data")
  case True
  then show ?thesis by (simp add: cstr_at_def received_def takeWhile_append1 [of NUL])
next
  case False
  have "takeWhile (\<lambda>c. c \<noteq> NUL) (data @ replicate k NUL) = data" for k
    using False by (subst takeWhile_append2) (auto simp: takeWhile_replicate)
  then have whole: "takeWhile (\<lambda>c. c \<noteq> NUL) (received n data) = data" "takeWhile (\<lambda>c. c \<noteq> NUL) data = data"
    unfolding received_def by (blast, metis append_Nil2 replicate_0)
  have "NUL \<in> set (received n data) \<longleftrightarrow> length data \<noteq> n"
    using False assms by (auto simp: received_def)
  with False show ?thesis by (simp only: cstr_at_def whole drop_0 if_distrib) simp
qed

lemma text_reply_noNUL:
  assumes "NUL \<notin> set d" and "length d \<le> n"
  shows "text_reply n d = (if length d = n then Inl OutOfBounds else Inr d)"
proof -
  have tw: "takeWhile (\<lambda>c. c \<noteq> NUL) d = d" by (subst takeWhile_eq_all_conv) (use assms(1) in auto)
  show ?thesis unfolding text_reply_def cstr_received [OF assms(2)] tw using assms(1) by simp
qed

text \<open>
  The contract of a server that sends a client's text back: a message that is text and shorter than
  the array comes back as it was sent.
\<close>

locale text_echo =
  fixes reply :: "string \<Rightarrow> string result"
    and cap :: nat
  assumes reply_text: "0 < length d \<Longrightarrow> length d < cap \<Longrightarrow> NUL \<notin> set d \<Longrightarrow> reply d = Inr d"
    and reply_full: "length d = cap \<Longrightarrow> NUL \<notin> set d \<Longrightarrow> reply d = Inl OutOfBounds"
begin

text \<open>A message cut by the network into shorter pieces comes back whole.\<close>

lemma pieces_come_back:
  assumes "\<forall>d \<in> set ds. 0 < length d \<and> length d < cap \<and> NUL \<notin> set d"
  shows "fold_result (\<lambda>d acc. then_do (reply d) (\<lambda>r. Inr (acc @ r))) ds acc = Inr (acc @ concat ds)"
  using assms by (induction ds arbitrary: acc) (auto simp: reply_text)

end

interpretation echo1024: text_echo "text_reply 1024" 1024
  by unfold_locales (auto simp: text_reply_def cstr_received takeWhile_eq_all_conv)


section \<open>\<open>server.c\<close>\<close>

record echo_state =
  srv_sent :: string
  srv_closed :: "fd list"

text \<open>
  The loop body: \<open>-1\<close> returns from \<open>main\<close> with the descriptors open, end of file leaves the loop and
  closes both, and text is copied with \<open>strcpy\<close> and written back.
\<close>

definition server_body :: "fd \<Rightarrow> fd \<Rightarrow> read_result \<Rightarrow> echo_state \<Rightarrow> echo_state run result" where
  "server_body fd_cli fd_lis r s =
     (case r of
        ReadErr _ \<Rightarrow> Inr (MainReturned (-1) s)
      | ReadData d \<Rightarrow>
          (if d = [] then Inr (MainReturned 0 (s\<lparr>srv_closed := srv_closed s @ [fd_cli, fd_lis]\<rparr>))
           else then_do (text_reply 1024 d) (\<lambda>t. Inr (Going (s\<lparr>srv_sent := srv_sent s @ t\<rparr>)))))"

text \<open>
  \<open>main\<close>: no call before the loop is checked; on the descriptor -1 of a failed \<open>accept\<close> the first
  \<open>read\<close> fails.
\<close>

definition server_main :: "fd \<Rightarrow> fd \<Rightarrow> read_result list \<Rightarrow> echo_state run result" where
  "server_main fd_lis fd_cli rs =
     (if fd_cli = -1 then Inr (MainReturned (-1) \<lparr>srv_sent = [], srv_closed = []\<rparr>)
      else run_all (server_body fd_cli fd_lis) rs \<lparr>srv_sent = [], srv_closed = []\<rparr>)"

lemma server_loop_echoes:
  assumes "\<forall>d \<in> set ds. 0 < length d \<and> length d < 1024 \<and> NUL \<notin> set d"
  shows "run_all (server_body c l) (map ReadData ds @ rs) s
       = run_all (server_body c l) rs (s\<lparr>srv_sent := srv_sent s @ concat ds\<rparr>)"
  using assms
proof (induction ds arbitrary: s)
  case (Cons d ds)
  then have "server_body c l (ReadData d) s = Inr (Going (s\<lparr>srv_sent := srv_sent s @ d\<rparr>))"
    by (auto simp: server_body_def echo1024.reply_text)
  with Cons show ?case by simp
qed simp

lemma server_main_echoes:
  assumes "\<forall>d \<in> set ds. 0 < length d \<and> length d < 1024 \<and> NUL \<notin> set d" and "fd_cli \<noteq> -1"
  shows "server_main fd_lis fd_cli (map ReadData ds @ [ReadData []])
       = Inr (MainReturned 0 \<lparr>srv_sent = concat ds, srv_closed = [fd_cli, fd_lis]\<rparr>)"
  using assms(2) by (simp add: server_main_def server_loop_echoes [OF assms(1)] server_body_def)

section \<open>\<open>server_1.c\<close>\<close>

subsection \<open>Reaping children\<close>

text \<open>The children of the parent, and whether each has exited and waits to be reaped.\<close>

type_synonym children = "(int \<times> bool) list"

text \<open>
  \<open>waitpid(-1, NULL, WNOHANG)\<close>: -1 without children, 0 while none has exited, and otherwise the
  process id of one that has, which is then gone.
\<close>

datatype wait_ret = WaitFails | WaitNone | WaitPid int

definition waitpid_nohang :: "children \<Rightarrow> wait_ret \<times> children" where
  "waitpid_nohang cs =
     (if cs = [] then (WaitFails, cs)
      else case filter snd cs of
          [] \<Rightarrow> (WaitNone, cs)
        | z # _ \<Rightarrow> (WaitPid (fst z), remove1 z cs))"

lemma waitpid_shrinks: "waitpid_nohang cs = (WaitPid p, cs') \<Longrightarrow> length cs' < length cs"
proof -
  assume a: "waitpid_nohang cs = (WaitPid p, cs')"
  then obtain z zs where z: "filter snd cs = z # zs" "cs' = remove1 z cs"
    by (auto simp: waitpid_nohang_def split: if_splits list.splits)
  then have "z \<in> set cs" by (metis filter_is_subset in_mono list.set_intros(1))
  with z(2) length_pos_if_in_set [OF this] show ?thesis by (simp add: length_remove1)
qed

text \<open>The handler of \<open>SIGCHLD\<close>, with the process ids it prints.\<close>

function recyleChild :: "children \<Rightarrow> int list \<Rightarrow> int list \<times> children" where
  "recyleChild cs out =
     (case waitpid_nohang cs of
        (WaitFails, cs') \<Rightarrow> (out, cs')
      | (WaitNone, cs') \<Rightarrow> (out, cs')
      | (WaitPid p, cs') \<Rightarrow> recyleChild cs' (out @ [p]))"
  by pat_completeness auto
termination
  by (relation "measure (length \<circ> fst)") (auto dest: waitpid_shrinks [OF sym])

declare recyleChild.simps [simp del]

text \<open>One signal, however many children it stands for, leaves exactly the living ones.\<close>

lemma recyleChild_reaps_all:
  "recyleChild cs out = (out @ map fst (filter snd cs), filter (\<lambda>c. \<not> snd c) cs)"
proof (induction cs out rule: recyleChild.induct)
  case (1 cs out)
  show ?case
  proof (cases "filter snd cs")
    case Nil
    then have "filter (\<lambda>c. \<not> snd c) cs = cs" by (auto simp: filter_empty_conv intro: filter_True)
    with Nil show ?thesis by (simp add: recyleChild.simps [of cs] waitpid_nohang_def)
  next
    case (Cons z zs)
    then have w: "waitpid_nohang cs = (WaitPid (fst z), remove1 z cs)"
      by (auto simp: waitpid_nohang_def)
    have z: "snd z" using Cons by (metis filter_eq_ConsD)
    have "filter snd (remove1 z cs) = zs" by (simp add: filter_remove1 Cons)
    moreover have "filter (\<lambda>c. \<not> snd c) (remove1 z cs) = filter (\<lambda>c. \<not> snd c) cs"
      using z by (simp add: filter_remove1 remove1_idem)
    ultimately show ?thesis
      using "1.IH" [OF w [symmetric]] w Cons by (simp add: recyleChild.simps [of cs])
  qed
qed


subsection \<open>The parent and a child\<close>

text \<open>
  What happens to the parent: \<open>accept\<close> returns, with what \<open>fork\<close> then gives; a child exits; or
  \<open>SIGCHLD\<close> interrupts the waiting \<open>accept\<close>, for \<open>sa_flags\<close> is 0.
\<close>

datatype accept_ret = AcceptFails errno | AcceptGives fd

datatype parent_event = AcceptReturns accept_ret int | ChildExits int | SigChld

record parent_state =
  parent_fds :: "fd list"
  kids :: children
  reaped :: "int list"

text \<open>
  One turn of the accept loop: after an interrupted call it goes on, after any other error \<open>main\<close>
  returns -1.  The parent does not close the descriptor it has handed to a child, and a failed
  \<open>fork\<close> (-1) leaves the client without one.
\<close>

definition server_1_accept :: "accept_ret \<Rightarrow> int \<Rightarrow> parent_state \<Rightarrow> parent_state run result" where
  "server_1_accept a pid s =
     (case a of
        AcceptFails e \<Rightarrow> Inr (if e = EINTR then Going s else MainReturned (-1) s)
      | AcceptGives fd \<Rightarrow>
          Inr (Going (s\<lparr>parent_fds := parent_fds s @ [fd],
                        kids := (if pid = -1 then kids s else kids s @ [(pid, False)])\<rparr>)))"

definition server_1_body :: "parent_event \<Rightarrow> parent_state \<Rightarrow> parent_state run result" where
  "server_1_body ev s =
     (case ev of
        AcceptReturns a pid \<Rightarrow> server_1_accept a pid s
      | ChildExits p \<Rightarrow> Inr (Going (s\<lparr>kids := map (\<lambda>c. if fst c = p then (p, True) else c) (kids s)\<rparr>))
      | SigChld \<Rightarrow>
          (case recyleChild (kids s) (reaped s) of
             (out, cs) \<Rightarrow> server_1_accept (AcceptFails EINTR) 0 (s\<lparr>kids := cs, reaped := out\<rparr>)))"

text \<open>The child: it ends with \<open>exit(-1)\<close> on an error and with \<open>exit(0)\<close> at end of file.\<close>

definition server_1_child :: "read_result \<Rightarrow> string \<Rightarrow> string run result" where
  "server_1_child r out =
     (case r of
        ReadErr _ \<Rightarrow> Inr (MainReturned (-1) out)
      | ReadData d \<Rightarrow>
          (if d = [] then Inr (MainReturned 0 out)
           else then_do (text_reply 1024 d) (\<lambda>t. Inr (Going (out @ t)))))"

definition server_1_main :: "listen_calls \<Rightarrow> parent_event list \<Rightarrow> parent_state run result" where
  "server_1_main c evs =
     (case open_listener c of
        Inl k \<Rightarrow> Inr (MainReturned k \<lparr>parent_fds = [], kids = [], reaped = []\<rparr>)
      | Inr fd_s \<Rightarrow> run_all server_1_body evs \<lparr>parent_fds = [fd_s], kids = [], reaped = []\<rparr>)"

text \<open>
  Any number of exits before one signal: the handler reaps them all, the children still running are
  kept, and the loop goes on.
\<close>

lemma server_1_signal:
  "server_1_body SigChld s =
     Inr (Going (s\<lparr>kids := filter (\<lambda>c. \<not> snd c) (kids s), reaped := reaped s @ map fst (filter snd (kids s))\<rparr>))"
  by (simp add: server_1_body_def server_1_accept_def recyleChild_reaps_all)

text \<open>Every accepted client costs the parent a descriptor for good.\<close>

definition accepted_fd :: "parent_event \<Rightarrow> fd list" where
  "accepted_fd ev = (case ev of AcceptReturns (AcceptGives fd) _ \<Rightarrow> [fd] | _ \<Rightarrow> [])"

lemma server_1_leaks:
  assumes "run_all server_1_body evs s = Inr (Going s')"
  shows "parent_fds s' = parent_fds s @ concat (map accepted_fd evs)"
  using assms
proof (induction evs arbitrary: s)
  case (Cons ev evs)
  then obtain s1 where s1: "server_1_body ev s = Inr (Going s1)" "run_all server_1_body evs s1 = Inr (Going s')"
    by (auto simp: go_on_Inr_Going)
  from s1(1) have "parent_fds s1 = parent_fds s @ accepted_fd ev"
    by (auto simp: server_1_body_def server_1_accept_def recyleChild_reaps_all accepted_fd_def
        split: parent_event.splits accept_ret.splits if_splits)
  with Cons.IH [OF s1(2)] show ?case by simp
qed simp


section \<open>\<open>server_pthread.c\<close>\<close>

text \<open>
  \<open>sockInfos\<close> by the descriptor of each entry, -1 for a free one; \<open>ignored\<close> are the accepted
  descriptors \<open>main\<close> went on without.
\<close>

record pthread_server =
  slots :: "fd list"
  comms :: "(nat \<times> fd) list"
  ignored :: "fd list"

definition MAX_slots :: nat where
  "MAX_slots = 128"

definition pthread_start :: pthread_server where
  "pthread_start = \<lparr>slots = replicate MAX_slots (-1), comms = [], ignored = []\<rparr>"

text \<open>The search for an entry whose descriptor is -1, from the first on.\<close>

definition free_slot :: "fd list \<Rightarrow> nat option" where
  "free_slot = find_first (\<lambda>fd. fd = -1)"

text \<open>
  One turn of the accept loop: without a free entry the client is left connected and nobody reads
  from it; otherwise the entry is filled and a thread is started on it.
\<close>

definition pthread_accept :: "accept_ret \<Rightarrow> pthread_server \<Rightarrow> pthread_server run result" where
  "pthread_accept a s =
     (case a of
        AcceptFails _ \<Rightarrow> Inr (MainReturned (-1) s)
      | AcceptGives fd \<Rightarrow>
          (case free_slot (slots s) of
             None \<Rightarrow> Inr (Going (s\<lparr>ignored := ignored s @ [fd]\<rparr>))
           | Some i \<Rightarrow> Inr (Going (s\<lparr>slots := (slots s)[i := fd], comms := comms s @ [(i, fd)]\<rparr>))))"

text \<open>
  \<open>comm\<close>, the thread of one client: it sends the whole array back, and ends on an error or at end of
  file without closing the descriptor or freeing its entry.
\<close>

definition comm :: "read_result \<Rightarrow> string \<Rightarrow> string run result" where
  "comm r out =
     (case r of
        ReadErr _ \<Rightarrow> Inr (MainReturned 0 out)
      | ReadData d \<Rightarrow>
          (if d = [] then Inr (MainReturned 0 out)
           else then_do (block_reply 1024 d) (\<lambda>t. Inr (Going (out @ t)))))"

definition pthread_main :: "listen_calls \<Rightarrow> accept_ret list \<Rightarrow> pthread_server run result" where
  "pthread_main c xs =
     (case open_listener c of
        Inl k \<Rightarrow> Inr (MainReturned k pthread_start)
      | Inr fd_s \<Rightarrow> run_all pthread_accept xs pthread_start)"

lemma find_first_eq:
  "k < length xs \<Longrightarrow> P (xs ! k) \<Longrightarrow> (\<forall>i < k. \<not> P (xs ! i)) \<Longrightarrow> find_first P xs = Some k"
proof (induction xs arbitrary: k)
  case (Cons x xs)
  then show ?case by (cases k) (auto simp: All_less_Suc2)
qed simp

lemma free_slot_filled:
  assumes "\<forall>fd \<in> set fds. fd \<noteq> -1"
  shows "free_slot (fds @ replicate k (-1)) = (if 0 < k then Some (length fds) else None)"
proof (cases k)
  case 0
  with assms show ?thesis by (simp add: free_slot_def find_first_None)
next
  case (Suc n)
  with assms show ?thesis
    unfolding free_slot_def by (subst find_first_eq [of "length fds"]) (auto simp: nth_append)
qed

text \<open>After the clients \<open>fds\<close>: the first 128 have an entry and a thread each, the others nothing.\<close>

definition after_clients :: "fd list \<Rightarrow> pthread_server" where
  "after_clients fds =
     \<lparr>slots = take MAX_slots fds @ replicate (MAX_slots - length fds) (-1),
      comms = zip [0..<MAX_slots] fds, ignored = drop MAX_slots fds\<rparr>"

lemma zip_upt_snoc:
  "length xs < n \<Longrightarrow> zip [0..<n] (xs @ [x]) = zip [0..<n] xs @ [(length xs, x)]"
proof -
  assume n: "length xs < n"
  then have "[0..<n] = [0..<length xs] @ length xs # [Suc (length xs)..<n]"
    by (metis add_diff_inverse_nat less_imp_le_nat not_less upt_add_eq_append upt_conv_Cons zero_le)
  then show ?thesis by (simp add: zip_append1 zip_append)
qed

lemma pthread_accept_next:
  assumes "\<forall>fd \<in> set fds. fd \<noteq> -1"
  shows "pthread_accept (AcceptGives fd) (after_clients fds) = Inr (Going (after_clients (fds @ [fd])))"
proof (cases "length fds < MAX_slots")
  case True
  have "free_slot (slots (after_clients fds)) = Some (length fds)"
    using True assms free_slot_filled [of fds "MAX_slots - length fds"] by (simp add: after_clients_def)
  moreover have "(fds @ replicate (MAX_slots - length fds) (-1))[length fds := fd]
      = fds @ fd # replicate (MAX_slots - Suc (length fds)) (-1)"
    using True by (simp add: list_update_append Suc_diff_Suc [symmetric])
  ultimately show ?thesis
    using True by (simp add: pthread_accept_def after_clients_def zip_upt_snoc)
next
  case False
  have "free_slot (slots (after_clients fds)) = None"
    using False assms free_slot_filled [of "take MAX_slots fds" 0]
    by (auto simp: after_clients_def dest: in_set_takeD)
  with False show ?thesis
    by (simp add: pthread_accept_def after_clients_def zip_append2)
qed

lemma pthread_clients:
  assumes "\<forall>fd \<in> set (fds @ new). fd \<noteq> -1"
  shows "run_all pthread_accept (map AcceptGives new) (after_clients fds) = Inr (Going (after_clients (fds @ new)))"
  using assms
proof (induction new arbitrary: fds)
  case (Cons fd new)
  then show ?case using Cons.IH [of "fds @ [fd]"] by (simp add: pthread_accept_next)
qed simp

text \<open>
  The thread server fills up: however its clients behave, the first 128 accepted descriptors
  get an entry and a thread each, in order, and every later one is accepted, given neither, and left
  open; the entries are never given back, so this stays so when the earlier clients have gone.
\<close>

theorem pthread_server_fills_up:
  assumes "socket_ret c \<noteq> -1" and "bind_ok c" and "listen_ok c" and "\<forall>fd \<in> set fds. fd \<noteq> -1"
  shows "\<exists>s. pthread_main c (map AcceptGives fds) = Inr (Going s)
       \<and> comms s = zip [0..<128] fds \<and> ignored s = drop 128 fds
       \<and> (128 \<le> length fds \<longrightarrow> free_slot (slots s) = None \<and> slots s = take 128 fds)"
proof -
  have "pthread_start = after_clients []" by (simp add: pthread_start_def after_clients_def)
  then have "pthread_main c (map AcceptGives fds) = Inr (Going (after_clients fds))"
    using assms(1-3) pthread_clients [of "[]" fds] assms(4) by (simp add: pthread_main_def open_listener_def)
  moreover have "free_slot (take 128 fds) = None"
    using free_slot_filled [of "take 128 fds" 0] assms(4) by (auto dest: in_set_takeD)
  ultimately show ?thesis by (simp add: after_clients_def MAX_slots_def)
qed

theorem pthread_server_fills_up_witness:
  "\<exists>s. pthread_main \<lparr>socket_ret = 3, bind_ok = True, listen_ok = True\<rparr> (map AcceptGives (map int [4..<133])) = Inr (Going s)
     \<and> ignored s = [132] \<and> free_slot (slots s) = None"
proof -
  have "drop 128 (map int [4..<133]) = [132]" by (simp add: drop_map)
  then show ?thesis
    using pthread_server_fills_up [of "\<lparr>socket_ret = 3, bind_ok = True, listen_ok = True\<rparr>" "map int [4..<133]"]
    by auto
qed

text \<open>\<open>comm\<close> sends 1024 bytes for every message, and reads past its array on one without a NUL.\<close>

lemma comm_reply:
  assumes "0 < length d" "length d \<le> 1024"
  shows "comm (ReadData d) out =
    (if NUL \<notin> set d \<and> length d = 1024 then Inl OutOfBounds else Inr (Going (out @ d @ replicate (1024 - length d) NUL)))"
proof -
  have r: "d @ replicate (1024 - length d) NUL = received 1024 d" by (simp add: received_def)
  show ?thesis unfolding r using assms by (auto simp: comm_def block_reply_def cstr_received)
qed


section \<open>\<open>client.c\<close>\<close>

text \<open>
  One turn of the client: the bytes \<open>fgets\<close> stores (at most 1023; none at end of input, where the
  zeroed buffer stays empty), the server's answer, and what is printed.  The test \<open>if(ret = 0)\<close>
  after \<open>connect\<close> assigns, so "Connected." is never printed.
\<close>

record client_state =
  to_server :: string
  shown :: string
  client_closed :: bool

definition client_turn :: "string \<times> read_result \<Rightarrow> client_state \<Rightarrow> client_state run result" where
  "client_turn x s =
     (let line = takeWhile (\<lambda>c. c \<noteq> NUL) (fst x) in
      if line = ''quit\<newline>'' then Inr (MainReturned 0 (s\<lparr>client_closed := True\<rparr>))
      else
        let s1 = s\<lparr>to_server := to_server s @ line\<rparr> in
        case snd x of
          ReadErr _ \<Rightarrow> Inr (MainReturned (-1) s1)
        | ReadData d \<Rightarrow>
            (if d = [] then Inr (MainReturned 0 (s1\<lparr>client_closed := True\<rparr>))
             else then_do (text_reply 1024 d) (\<lambda>t. Inr (Going (s1\<lparr>shown := shown s1 @ t @ ''\<newline>''\<rparr>)))))"

definition client_main :: "int \<Rightarrow> (string \<times> read_result) list \<Rightarrow> client_state run result" where
  "client_main connect_ret xs =
     (let ret = 0 in
      run_all client_turn xs
        \<lparr>to_server = [], shown = (if ret \<noteq> (0::int) then ''Connected.\<newline>'' else []), client_closed = False\<rparr>)"

text \<open>
  The client and one of the text servers: every line the user types comes back and is shown, until
  \<open>quit\<close>.
\<close>

lemma client_server_echo:
  assumes "\<forall>l \<in> set ls. 0 < length l \<and> length l < 1024 \<and> NUL \<notin> set l \<and> l \<noteq> ''quit\<newline>''"
  shows "run_all client_turn (map (\<lambda>l. (l, ReadData l)) ls @ [(''quit\<newline>'', r)]) s
       = Inr (MainReturned 0 (s\<lparr>to_server := to_server s @ concat ls,
                            shown := shown s @ concat (map (\<lambda>l. l @ ''\<newline>'') ls), client_closed := True\<rparr>))"
  using assms
proof (induction ls arbitrary: s)
  case Nil
  show ?case by (cases s) (simp add: client_turn_def)
next
  case (Cons l ls)
  then have l: "l \<noteq> []" "takeWhile (\<lambda>c. c \<noteq> NUL) l = l" "text_reply 1024 l = Inr l" "l \<noteq> ''quit\<newline>''"
    by (auto simp: echo1024.reply_text takeWhile_eq_all_conv)
  then have "client_turn (l, ReadData l) s
      = Inr (Going (s\<lparr>to_server := to_server s @ l, shown := shown s @ l @ ''\<newline>''\<rparr>))"
    unfolding client_turn_def Let_def fst_conv snd_conv l(2) by (simp add: l(1,3,4))
  with Cons show ?case by simp
qed


section \<open>\<open>client_press.c\<close>\<close>

text \<open>
  Both processes after the \<open>fork\<close> connect the one socket and wait for a key.  What \<open>connect\<close> answers is
  overwritten by the test, as in \<open>client.c\<close>, so neither process ever says that it is connected.
\<close>

definition client_press_main :: "int \<Rightarrow> string" where
  "client_press_main connect_ret =
     (let ret = connect_ret; ret = 0 in if ret \<noteq> (0::int) then ''Connected.\<newline>'' else [])"

definition client_press :: "int \<Rightarrow> int \<Rightarrow> int \<Rightarrow> string" where
  "client_press fork_ret connect_parent connect_child =
     client_press_main connect_parent @ (if fork_ret = -1 then [] else client_press_main connect_child)"

lemma client_press_silent: "client_press fork_ret connect_parent connect_child = []"
  by (simp add: client_press_def client_press_main_def)

end
