(* ===== verification/Train_Process.thy ===== *)
theory Train_Process
  imports Train_Echo Interleaving
begin

text \<open>
  Programs of \<open>src/bck/train/chapter 1&2\<close> about processes, signals and files: \<open>sigchld.c\<close>, a parent that
  blocks \<open>SIGCHLD\<close>, forks twenty children, registers a handler that reaps and unblocks the signal;
  \<open>parent-child-ipd.c\<close>, a parent that shows what a child writes into a pipe; \<open>sigprocmask.c\<close>, which
  prints the pending signals; \<open>iotest.c\<close>, which copies the start of a file; and the pair \<open>write_shm.c\<close>
  and \<open>read_shm.c\<close>.
\<close>

section \<open>\<open>sigchld.c\<close>\<close>

datatype sig_pc = SBlock | SFork nat | SRegister | SUnblock | SLoop | SReturned

datatype sig_actor = SMain int | SExit int | SDeliver

record sigstate =
  sig_blocked :: bool
  sig_pending :: bool
  sig_handler :: bool
  sig_kids :: children
  sig_printed :: "int list"
  sig_last :: int
  sig_at :: sig_pc

definition sigchld_start :: sigstate where
  "sigchld_start = \<lparr>sig_blocked = False, sig_pending = False, sig_handler = False, sig_kids = [],
     sig_printed = [], sig_last = 0, sig_at = SBlock\<rparr>"

text \<open>
  The parent, with what \<open>fork\<close> returns as an argument: a process id, or -1.  If the last \<open>fork\<close> failed
  it returns without entering its loop.
\<close>

definition sigchld_main :: "int \<Rightarrow> sigstate \<Rightarrow> sigstate option" where
  "sigchld_main pid s =
     (case sig_at s of
        SBlock \<Rightarrow> Some (s\<lparr>sig_blocked := True, sig_at := SFork 0\<rparr>)
      | SFork i \<Rightarrow>
          (if i < 20 then
             (if pid > 0 then Some (s\<lparr>sig_kids := sig_kids s @ [(pid, False)], sig_last := pid, sig_at := SFork (i + 1)\<rparr>)
              else if pid = -1 then Some (s\<lparr>sig_last := pid, sig_at := SFork (i + 1)\<rparr>) else None)
           else Some (s\<lparr>sig_at := (if sig_last s > 0 then SRegister else SReturned)\<rparr>))
      | SRegister \<Rightarrow> Some (s\<lparr>sig_handler := True, sig_at := SUnblock\<rparr>)
      | SUnblock \<Rightarrow> Some (s\<lparr>sig_blocked := False, sig_at := SLoop\<rparr>)
      | _ \<Rightarrow> None)"

text \<open>The handler: \<open>waitpid(0, NULL, WNOHANG)\<close> until it gives 0 or -1; the children are in its group.\<close>

definition zombiepid :: "sigstate \<Rightarrow> sigstate" where
  "zombiepid s =
     (case recyleChild (sig_kids s) (sig_printed s) of (out, cs) \<Rightarrow> s\<lparr>sig_kids := cs, sig_printed := out\<rparr>)"

text \<open>
  The kernel: an exit leaves a zombie and makes the signal pending, unless it is neither blocked nor
  handled, when it is discarded; signals do not add up.
\<close>

definition child_exits :: "int \<Rightarrow> sigstate \<Rightarrow> sigstate option" where
  "child_exits p s =
     (if (p, False) \<in> set (sig_kids s) then
        Some (s\<lparr>sig_kids := map (\<lambda>c. if fst c = p then (p, True) else c) (sig_kids s),
                sig_pending := (sig_pending s \<or> sig_blocked s \<or> sig_handler s)\<rparr>)
      else None)"

definition deliver :: "sigstate \<Rightarrow> sigstate option" where
  "deliver s =
     (if sig_pending s \<and> \<not> sig_blocked s then
        Some ((if sig_handler s then zombiepid s else s)\<lparr>sig_pending := False\<rparr>)
      else None)"

definition sigchld_step :: "sig_actor \<Rightarrow> sigstate \<Rightarrow> sigstate option" where
  "sigchld_step a s =
     (case a of SMain pid \<Rightarrow> sigchld_main pid s | SExit p \<Rightarrow> child_exits p s | SDeliver \<Rightarrow> deliver s)"

definition zombies :: "sigstate \<Rightarrow> int list" where
  "zombies s = map fst (filter snd (sig_kids s))"

definition sigchld_inv :: "sigstate \<Rightarrow> bool" where
  "sigchld_inv s \<longleftrightarrow>
     (if sig_at s = SBlock then sig_kids s = []
      else if sig_at s = SLoop then sig_handler s \<and> \<not> sig_blocked s
      else sig_blocked s \<and> (sig_at s = SUnblock \<longrightarrow> sig_handler s))
   \<and> (zombies s \<noteq> [] \<longrightarrow> sig_pending s)"

lemma zombiepid_eq:
  "zombiepid s = s\<lparr>sig_kids := filter (\<lambda>c. \<not> snd c) (sig_kids s), sig_printed := sig_printed s @ zombies s\<rparr>"
  by (simp add: zombiepid_def zombies_def recyleChild_reaps_all)

lemma zombies_after [simp]:
  "zombies (s\<lparr>sig_kids := filter (\<lambda>c. \<not> snd c) ks\<rparr>) = []"
  "zombies (s\<lparr>sig_kids := filter (\<lambda>c. \<not> snd c) ks, sig_printed := l\<rparr>) = []"
  by (simp_all add: zombies_def)

lemma sigchld_main_inv:
  assumes "sigchld_inv s" and "sigchld_main pid s = Some s'"
  shows "sigchld_inv s'"
  using assms
  by (cases "sig_at s"; clarsimp simp: sigchld_main_def sigchld_inv_def zombies_def split: if_splits)

lemma child_exits_inv:
  assumes "sigchld_inv s" and "child_exits p s = Some s'"
  shows "sigchld_inv s'"
  using assms by (cases "sig_at s"; clarsimp simp: child_exits_def sigchld_inv_def split: if_splits)

lemma deliver_reaps: "deliver s = Some s' \<Longrightarrow> sig_handler s \<Longrightarrow> zombies s' = []"
  by (auto simp: deliver_def zombiepid_eq zombies_def split: if_splits)

lemma deliver_inv:
  assumes "sigchld_inv s" and "deliver s = Some s'"
  shows "sigchld_inv s'"
  using assms
  by (cases "sig_at s"; clarsimp simp: deliver_def sigchld_inv_def zombiepid_eq zombies_def split: if_splits)

lemma sigchld_step_inv:
  assumes "sigchld_inv s" and "sigchld_step a s = Some s'"
  shows "sigchld_inv s'"
proof (cases a)
  case (SMain pid)
  with assms(2) have "sigchld_main pid s = Some s'" by (simp add: sigchld_step_def)
  with assms(1) show ?thesis by (rule sigchld_main_inv)
next
  case (SExit p)
  with assms(2) have "child_exits p s = Some s'" by (simp add: sigchld_step_def)
  with assms(1) show ?thesis by (rule child_exits_inv)
next
  case SDeliver
  with assms(2) have "deliver s = Some s'" by (simp add: sigchld_step_def)
  with assms(1) show ?thesis by (rule deliver_inv)
qed

interpretation sigchld: thread_invariant sigchld_step sigchld_start sigchld_inv
proof unfold_locales
  show "sigchld_inv sigchld_start" by (simp add: sigchld_inv_def sigchld_start_def zombies_def)
qed (fact sigchld_step_inv)

text \<open>
  C39. No child of \<open>sigchld.c\<close> is forgotten: blocking the signal before the first \<open>fork\<close> keeps the exits that come before the
  handler is there.  Whenever there is a zombie the signal is pending; once the parent is in its loop a
  pending signal can be delivered, and its handler leaves no zombie, however many exits it stands for.
\<close>

theorem sigchld_reaps:
  assumes "reachable sigchld_step sigchld_start s"
  shows "(zombies s \<noteq> [] \<longrightarrow> sig_pending s)
       \<and> (sig_at s = SLoop \<and> zombies s \<noteq> [] \<longrightarrow>
            (\<exists>s'. sigchld_step SDeliver s = Some s' \<and> zombies s' = []))"
proof -
  note inv = sigchld.always [OF assms]
  have "\<exists>s'. sigchld_step SDeliver s = Some s' \<and> zombies s' = []"
    if a: "sig_at s = SLoop" "zombies s \<noteq> []"
  proof -
    from inv a have h: "sig_pending s" "sig_handler s" "\<not> sig_blocked s" by (simp_all add: sigchld_inv_def)
    then obtain s' where d: "deliver s = Some s'" by (simp add: deliver_def)
    from deliver_reaps [OF d h(2)] d show ?thesis by (simp add: sigchld_step_def)
  qed
  with inv show ?thesis by (simp add: sigchld_inv_def)
qed

theorem sigchld_reaps_witness:
  "\<exists>s. run_schedule sigchld_step
          (SMain 0 # SMain 41 # SExit 41 # map SMain [50..68] @ [SMain 0, SMain 0, SMain 0, SExit 60]) sigchld_start = Some s
     \<and> sig_at s = SLoop \<and> zombies s \<noteq> [] \<and> sig_pending s
     \<and> (\<exists>s'. sigchld_step SDeliver s = Some s' \<and> zombies s' = [])"
proof -
  let ?sched = "SMain 0 # SMain 41 # SExit 41 # map SMain [50..68] @ [SMain 0, SMain 0, SMain 0, SExit 60]"
  obtain s where s: "run_schedule sigchld_step ?sched sigchld_start = Some s"
    and h: "sig_at s = SLoop" "zombies s \<noteq> []"
    by (simp add: numeral_eq_Suc sigchld_step_def sigchld_main_def child_exits_def sigchld_start_def zombies_def)
  have "reachable sigchld_step sigchld_start s" by (rule run_schedule_reachable [OF reachable_init s])
  from sigchld_reaps [OF this] h s show ?thesis by blast
qed


section \<open>\<open>parent-child-ipd.c\<close>\<close>

text \<open>
  The parent's loop over what \<open>read\<close> gives: the test is whether the result is not 0, so it goes on after an
  error, and the array is cleared before it is printed.
\<close>

fun pipe_parent :: "read_result list \<Rightarrow> string \<Rightarrow> string run result" where
  "pipe_parent [] out = Inr (Going out)"
| "pipe_parent (ReadErr e # rs) out =
     then_do (text_reply 1024 []) (\<lambda>t. pipe_parent rs (out @ t))"
| "pipe_parent (ReadData d # rs) out =
     (if d = [] then Inr (MainReturned 0 out)
      else then_do (text_reply 1024 []) (\<lambda>t. pipe_parent rs (out @ t)))"

definition pipe_main :: "int \<Rightarrow> int \<Rightarrow> read_result list \<Rightarrow> string run result" where
  "pipe_main pipe_ret pid rs =
     (if pipe_ret < 0 then Inr (MainReturned (-1) [])
      else if pid > 0 then pipe_parent rs []
      else Inr (MainReturned (if pid = 0 then 0 else -1) []))"

text \<open>Whatever the child writes, the parent prints nothing.\<close>

lemma pipe_parent_silent: "\<exists>r. pipe_parent rs out = Inr r \<and> run_state r = out"
proof -
  have empty: "text_reply 1024 [] = Inr []" by (simp add: text_reply_def cstr_received)
  show ?thesis by (induction rs out rule: pipe_parent.induct) (auto simp: empty)
qed

theorem pipe_main_prints_nothing: "\<exists>r. pipe_main pipe_ret pid rs = Inr r \<and> run_state r = []"
  using pipe_parent_silent [of rs "[]"] by (auto simp: pipe_main_def)

section \<open>\<open>sigprocmask.c\<close>\<close>

record mask_state =
  mask_num :: nat
  mask_pending :: "nat set"
  mask_lines :: "bool list list"
  mask_killed :: bool

definition mask_start :: mask_state where
  "mask_start = \<lparr>mask_num = 0, mask_pending = {}, mask_lines = [], mask_killed = False\<rparr>"

text \<open>The line printed for the signals 1 to 32.\<close>

definition pending_line :: "nat set \<Rightarrow> bool list" where
  "pending_line P = map (\<lambda>i. i \<in> P) [1..<33]"

text \<open>
  One turn, with the signals from the keyboard during \<open>sleep\<close>, \<open>SIGINT\<close> (2) or \<open>SIGQUIT\<close> (3): blocked
  until turn 15 ends, they wait; after that, or by then, they end the process.
\<close>

definition mask_turn :: "nat set \<Rightarrow> mask_state \<Rightarrow> mask_state" where
  "mask_turn keys s =
     (if mask_killed s then s
      else
        let n = mask_num s + 1;
            s1 = s\<lparr>mask_num := n, mask_lines := mask_lines s @ [pending_line (mask_pending s)]\<rparr>;
            P = mask_pending s \<union> (keys \<inter> {2, 3})
        in if n < 15 then s1\<lparr>mask_pending := P\<rparr>
           else if P \<noteq> {} then s1\<lparr>mask_pending := {}, mask_killed := True\<rparr> else s1)"

lemma mask_first_turns:
  "length ks < 15 \<Longrightarrow> fold mask_turn ks mask_start =
     \<lparr>mask_num = length ks, mask_pending = \<Union> (set ks) \<inter> {2, 3},
      mask_lines = map (\<lambda>i. pending_line (\<Union> (set (take i ks)) \<inter> {2, 3})) [0..<length ks], mask_killed = False\<rparr>"
proof (induction ks rule: rev_induct)
  case (snoc k ks)
  have "map (\<lambda>i. pending_line (\<Union> (set (take i (ks @ [k]))) \<inter> {2, 3})) [0..<length ks]
      = map (\<lambda>i. pending_line (\<Union> (set (take i ks)) \<inter> {2, 3})) [0..<length ks]"
    by (rule map_cong) auto
  with snoc show ?case by (auto simp: mask_turn_def Let_def)
qed (simp add: mask_start_def)

text \<open>
  In its first fifteen turns the program survives every key; the line of a turn shows just the signals of
  the turns before it; and lifting the block at the end of turn 15 ends it if any key came.
\<close>

theorem mask_fifteen_turns:
  assumes "length ks = 14"
  shows "(let s = fold mask_turn (ks @ [k]) mask_start in
           mask_lines s = map (\<lambda>i. pending_line (\<Union> (set (take i ks)) \<inter> {2, 3})) [0..<15]
         \<and> (mask_killed s \<longleftrightarrow> (\<Union> (set ks) \<union> k) \<inter> {2, 3} \<noteq> {}))"
proof -
  have "[0..<15] = [0..<14] @ [14::nat]" by (simp flip: upt_Suc_append)
  moreover have "take 14 ks = ks" using assms by simp
  ultimately show ?thesis
    using mask_first_turns [of ks] assms
    by (simp add: mask_turn_def Let_def Int_Un_distrib2 del: upt_rec_numeral)
qed


section \<open>\<open>iotest.c\<close>\<close>

text \<open>
  The two files and what the calls give: the target is opened without \<open>O_TRUNC\<close>, so a write replaces its
  first bytes.  \<open>r\<close> and \<open>w\<close> are the numbers of bytes the kernel moves.
\<close>

definition file_put :: "string \<Rightarrow> string \<Rightarrow> string" where
  "file_put d f = d @ drop (length d) f"

definition iotest_main :: "string option \<Rightarrow> string option \<Rightarrow> nat \<Rightarrow> nat \<Rightarrow> string \<times> string option" where
  "iotest_main otest itest r w =
     (case otest of
        None \<Rightarrow> (''open otest.txt'', itest)
      | Some src \<Rightarrow>
          (case itest of
             None \<Rightarrow> (''open itest.txt'', itest)
           | Some dst \<Rightarrow>
               let d = take (min r 200) src
               in (takeWhile (\<lambda>c. c \<noteq> NUL) d, Some (if d = [] then dst else file_put (take w d) dst))))"

text \<open>A file of at most 200 bytes is copied whole, but the longer tail of an older target stays.\<close>

theorem iotest_copies:
  assumes "length src \<le> 200" and "length src \<le> r" and "length src \<le> w"
  shows "snd (iotest_main (Some src) (Some dst) r w) = Some (src @ drop (length src) dst)"
proof -
  have "take (min r 200) src = src" "take w src = src" using assms by simp_all
  then show ?thesis by (simp add: iotest_main_def Let_def file_put_def)
qed


section \<open>\<open>write_shm.c\<close> and \<open>read_shm.c\<close>\<close>

text \<open>
  The segment with key 100: its bytes and how many processes are attached.  A segment that is removed is
  gone when the last one detaches; until then no other program finds it by its key.
\<close>

record shm =
  shm_bytes :: "char list"
  shm_attached :: nat
  shm_removed :: bool

definition shm_text :: string where
  "shm_text = ''hello shm''"

definition write_shm_begin :: "shm option \<Rightarrow> shm" where
  "write_shm_begin m =
     (let s = (case m of Some s \<Rightarrow> s | None \<Rightarrow> \<lparr>shm_bytes = replicate 4096 NUL, shm_attached = 0, shm_removed = False\<rparr>)
      in s\<lparr>shm_bytes := file_put (shm_text @ [NUL]) (shm_bytes s), shm_attached := shm_attached s + 1\<rparr>)"

text \<open>Without a segment \<open>shmat\<close> gives the pointer -1, which is read from.\<close>

definition read_shm_begin :: "shm option \<Rightarrow> (string \<times> shm) result" where
  "read_shm_begin m =
     (case m of
        None \<Rightarrow> Inl OutOfBounds
      | Some s \<Rightarrow> then_do (cstr_at (shm_bytes s) 0) (\<lambda>t. Inr (t, s\<lparr>shm_attached := shm_attached s + 1\<rparr>)))"

definition shm_end :: "shm \<Rightarrow> shm option" where
  "shm_end s =
     (let k = shm_attached s - 1 in if k = 0 then None else Some (s\<lparr>shm_attached := k, shm_removed := True\<rparr>))"

text \<open>
  A reader started while the writer waits for its key prints the writer's text, whatever the segment held
  before, and the second of the two to end frees the segment.
\<close>

theorem shm_passes_text:
  fixes m :: "shm option"
  assumes "\<forall>s. m = Some s \<longrightarrow> shm_attached s = 0"
  shows "\<exists>s s'. read_shm_begin (Some (write_shm_begin m)) = Inr (shm_text, s) \<and> shm_end s = Some s' \<and> shm_end s' = None"
proof -
  have "NUL \<notin> set shm_text" by (simp add: shm_text_def)
  then have "takeWhile (\<lambda>c. c \<noteq> NUL) (shm_text @ [NUL] @ x) = shm_text" for x
    by (subst takeWhile_append2) auto
  then have "cstr_at (shm_bytes (write_shm_begin m)) 0 = Inr shm_text"
    by (simp add: cstr_at_def write_shm_begin_def file_put_def Let_def)
  with assms show ?thesis
    by (auto simp: read_shm_begin_def shm_end_def write_shm_begin_def Let_def split: option.splits)
qed

end
