(* ===== verification/Train_Chat.thy ===== *)
theory Train_Chat
  imports Train_Echo Interleaving
begin

text \<open>
  \<open>chatA.c\<close> and \<open>chatB.c\<close> of \<open>src/bck/train/chapter 1&2\<close>: two programs that make two FIFOs, open them in
  the same order from opposite ends, and copy lines from one terminal to the other.  Opening a FIFO
  waits until its other end is opened too.  A program that has opened both forks; one process sends
  what is typed, the other shows what arrives.
\<close>

section \<open>Making and opening the FIFOs\<close>

datatype chat_pc =
    Access1 | Mkfifo1 | Access2 | Mkfifo2 | OpenFirst | WaitFirst | OpenSecond | WaitSecond
  | Chatting | ChatExited

datatype chat_actor = ChatA | ChatB

record chat_state =
  fifo1 :: bool
  fifo2 :: bool
  ends :: "nat \<Rightarrow> bool \<Rightarrow> bool"   \<comment> \<open>the ends opened: FIFO and whether for writing\<close>
  chatA_at :: chat_pc
  chatB_at :: chat_pc

text \<open>
  One step of the common part: \<open>access\<close> and then, if there is no FIFO, \<open>mkfifo\<close>, which fails when
  there is one by now.
\<close>

definition chat_fifos :: "chat_pc \<Rightarrow> chat_state \<Rightarrow> (chat_pc \<times> chat_state) option" where
  "chat_fifos pc s =
     (case pc of
        Access1 \<Rightarrow> Some (if fifo1 s then Access2 else Mkfifo1, s)
      | Mkfifo1 \<Rightarrow> Some (if fifo1 s then (ChatExited, s) else (Access2, s\<lparr>fifo1 := True\<rparr>))
      | Access2 \<Rightarrow> Some (if fifo2 s then OpenFirst else Mkfifo2, s)
      | Mkfifo2 \<Rightarrow> Some (if fifo2 s then (ChatExited, s) else (OpenFirst, s\<lparr>fifo2 := True\<rparr>))
      | _ \<Rightarrow> None)"

definition open_end :: "nat \<Rightarrow> bool \<Rightarrow> chat_state \<Rightarrow> chat_state" where
  "open_end k w s = s\<lparr>ends := (ends s)(k := (ends s k)(w := True))\<rparr>"

text \<open>The two \<open>open\<close> calls; \<open>w1\<close> and \<open>w2\<close> say whether the program opens the FIFO for writing.\<close>

definition chat_opens :: "bool \<Rightarrow> bool \<Rightarrow> chat_pc \<Rightarrow> chat_state \<Rightarrow> (chat_pc \<times> chat_state) option" where
  "chat_opens w1 w2 pc s =
     (case pc of
        OpenFirst \<Rightarrow> Some (WaitFirst, open_end 1 w1 s)
      | WaitFirst \<Rightarrow> (if ends s 1 (\<not> w1) then Some (OpenSecond, s) else None)
      | OpenSecond \<Rightarrow> Some (WaitSecond, open_end 2 w2 s)
      | WaitSecond \<Rightarrow> (if ends s 2 (\<not> w2) then Some (Chatting, s) else None)
      | _ \<Rightarrow> None)"

definition chat_move :: "bool \<Rightarrow> bool \<Rightarrow> chat_pc \<Rightarrow> chat_state \<Rightarrow> (chat_pc \<times> chat_state) option" where
  "chat_move w1 w2 pc s = (case chat_fifos pc s of Some r \<Rightarrow> Some r | None \<Rightarrow> chat_opens w1 w2 pc s)"

definition chatA_main :: "chat_state \<Rightarrow> chat_state option" where
  "chatA_main s = map_option (\<lambda>(pc, t). t\<lparr>chatA_at := pc\<rparr>) (chat_move True False (chatA_at s) s)"

definition chatB_main :: "chat_state \<Rightarrow> chat_state option" where
  "chatB_main s = map_option (\<lambda>(pc, t). t\<lparr>chatB_at := pc\<rparr>) (chat_move False True (chatB_at s) s)"

definition chat_step :: "chat_actor \<Rightarrow> chat_state \<Rightarrow> chat_state option" where
  "chat_step a s = (case a of ChatA \<Rightarrow> chatA_main s | ChatB \<Rightarrow> chatB_main s)"

definition chat_start :: "bool \<Rightarrow> chat_state" where
  "chat_start there = \<lparr>fifo1 = there, fifo2 = there, ends = (\<lambda>_ _. False), chatA_at = Access1, chatB_at = Access1\<rparr>"

lemmas chat_defs = chat_step_def chatA_main_def chatB_main_def chat_move_def chat_fifos_def chat_opens_def open_end_def

definition opened1 :: "chat_pc \<Rightarrow> bool" where
  "opened1 pc \<longleftrightarrow> pc \<in> {WaitFirst, OpenSecond, WaitSecond, Chatting}"

definition opened2 :: "chat_pc \<Rightarrow> bool" where
  "opened2 pc \<longleftrightarrow> pc \<in> {WaitSecond, Chatting}"

definition chat_inv :: "chat_state \<Rightarrow> bool" where
  "chat_inv s \<longleftrightarrow>
     fifo1 s \<and> fifo2 s
   \<and> chatA_at s \<notin> {Mkfifo1, Mkfifo2, ChatExited} \<and> chatB_at s \<notin> {Mkfifo1, Mkfifo2, ChatExited}
   \<and> ends s 1 True = opened1 (chatA_at s) \<and> ends s 1 False = opened1 (chatB_at s)
   \<and> ends s 2 False = opened2 (chatA_at s) \<and> ends s 2 True = opened2 (chatB_at s)"

definition chat_left :: "chat_pc \<Rightarrow> nat" where
  "chat_left pc =
     (case pc of Access1 \<Rightarrow> 6 | Mkfifo1 \<Rightarrow> 0 | Access2 \<Rightarrow> 5 | Mkfifo2 \<Rightarrow> 0 | OpenFirst \<Rightarrow> 4 | WaitFirst \<Rightarrow> 3
      | OpenSecond \<Rightarrow> 2 | WaitSecond \<Rightarrow> 1 | Chatting \<Rightarrow> 0 | ChatExited \<Rightarrow> 0)"

definition chat_work :: "chat_state \<Rightarrow> nat" where
  "chat_work s = chat_left (chatA_at s) + chat_left (chatB_at s)"

lemma chat_step_inv:
  assumes "chat_inv s" and "chat_step a s = Some s'"
  shows "chat_inv s'" "chat_work s' < chat_work s"
proof -
  have A: "chat_inv s' \<and> chat_work s' < chat_work s" if "chatA_main s = Some s'"
    using assms(1) that
    by (cases "chatA_at s"; clarsimp simp: chat_defs chat_inv_def chat_work_def chat_left_def opened1_def opened2_def
        split: if_splits)
  have B: "chat_inv s' \<and> chat_work s' < chat_work s" if "chatB_main s = Some s'"
    using assms(1) that
    by (cases "chatB_at s"; clarsimp simp: chat_defs chat_inv_def chat_work_def chat_left_def opened1_def opened2_def
        split: if_splits)
  show "chat_inv s'" "chat_work s' < chat_work s"
    using assms(2) A B by (auto simp: chat_step_def split: chat_actor.splits)
qed

interpretation chat: bounded_threads chat_step "chat_start True" chat_inv chat_work
proof unfold_locales
  show "chat_inv (chat_start True)" by (simp add: chat_inv_def chat_start_def opened1_def opened2_def)
qed (fact chat_step_inv)+

text \<open>
  With the FIFOs in place every run of \<open>chatA\<close> and \<open>chatB\<close> ends within twelve steps and both programs always get through: they open the two FIFOs in the same order,
  so neither can wait for an end the other will not open.
\<close>

theorem chat_opens_both:
  assumes "run_schedule chat_step sched (chat_start True) = Some s"
  shows "length sched \<le> 12 \<and> (at_rest chat_step s \<longrightarrow> chatA_at s = Chatting \<and> chatB_at s = Chatting)"
proof -
  have inv: "chat_inv s" using assms chat.always by (auto simp: reachable_iff_run)
  have "length sched \<le> 12"
    using chat.schedule_bounded [OF assms] by (simp add: chat_work_def chat_left_def chat_start_def)
  moreover have "chatA_at s = Chatting \<and> chatB_at s = Chatting" if "at_rest chat_step s"
  proof -
    from that have "chatA_main s = None" "chatB_main s = None"
      by (auto simp: at_rest_def chat_step_def dest: spec [of _ ChatA] spec [of _ ChatB])
    with inv show ?thesis
      by (cases "chatA_at s"; cases "chatB_at s")
         (auto simp: chat_defs chat_inv_def opened1_def opened2_def split: if_splits)
  qed
  ultimately show ?thesis by blast
qed

theorem chat_opens_both_witness:
  "\<exists>s. run_schedule chat_step (concat (replicate 6 [ChatA, ChatB])) (chat_start True) = Some s
     \<and> length (concat (replicate 6 [ChatA, ChatB])) \<le> 12 \<and> at_rest chat_step s \<and> chatA_at s = Chatting"
proof -
  let ?sched = "concat (replicate 6 [ChatA, ChatB])"
  obtain s where s: "run_schedule chat_step ?sched (chat_start True) = Some s" and "chatA_at s = Chatting" "chatB_at s = Chatting"
    by (simp add: numeral_eq_Suc chat_defs chat_start_def)
  then have rest: "at_rest chat_step s"
    by (auto simp: at_rest_def chat_defs split: chat_actor.splits)
  with chat_opens_both [OF s] s show ?thesis by blast
qed

text \<open>
  Without them both can find the first FIFO missing; the slower \<open>mkfifo\<close> fails, that program exits, and
  the other waits for ever in its first \<open>open\<close>.
\<close>

theorem chat_mkfifo_race:
  "\<exists>s. reachable chat_step (chat_start False) s \<and> chatB_at s = ChatExited \<and> chatA_at s = WaitFirst
     \<and> at_rest chat_step s"
proof -
  let ?s = "\<lparr>fifo1 = True, fifo2 = True, ends = (\<lambda>_ _. False)(1 := (\<lambda>_. False)(True := True)), chatA_at = WaitFirst, chatB_at = ChatExited\<rparr>"
  have "run_schedule chat_step [ChatA, ChatB, ChatA, ChatB, ChatA, ChatA, ChatA] (chat_start False) = Some ?s"
    by (simp add: chat_defs chat_start_def)
  then have "reachable chat_step (chat_start False) ?s" by (rule run_schedule_reachable [OF reachable_init])
  moreover have "at_rest chat_step ?s"
    unfolding at_rest_def
  proof
    fix a
    show "chat_step a ?s = None" by (cases a) (simp_all add: chat_defs)
  qed
  ultimately show ?thesis by (intro exI [of _ ?s]) simp
qed


section \<open>Talking\<close>

text \<open>
  One direction: what is still to be typed, the bytes in the FIFO, what was sent and what was shown.
  \<open>fgets\<close> takes a line, at most 127 bytes of it; \<open>read\<close> takes what is in the FIFO, up to 128 bytes,
  into a zeroed array of 128 that is then printed as a string.
\<close>

record talk =
  to_type :: string
  in_fifo :: string
  sent_text :: string
  shown_text :: string

datatype talk_event = Sends | Shows

definition chat_sends :: "talk \<Rightarrow> talk" where
  "chat_sends t =
     (let k = fgets_length 128 (to_type t);
          l = takeWhile (\<lambda>c. c \<noteq> NUL) (take k (to_type t))
      in t\<lparr>to_type := drop k (to_type t), in_fifo := in_fifo t @ l, sent_text := sent_text t @ l\<rparr>)"

definition chat_shows :: "talk \<Rightarrow> talk result" where
  "chat_shows t =
     (let d = take 128 (in_fifo t) in
      if d = [] then Inr t
      else then_do (text_reply 128 d)
             (\<lambda>x. Inr (t\<lparr>in_fifo := drop 128 (in_fifo t), shown_text := shown_text t @ x\<rparr>)))"

definition talk_step :: "talk_event \<Rightarrow> talk \<Rightarrow> talk result" where
  "talk_step ev t = (case ev of Sends \<Rightarrow> Inr (chat_sends t) | Shows \<Rightarrow> chat_shows t)"

definition talk_inv :: "talk \<Rightarrow> bool" where
  "talk_inv t \<longleftrightarrow> sent_text t = shown_text t @ in_fifo t \<and> NUL \<notin> set (in_fifo t)"

lemma chat_shows_eq:
  assumes "talk_inv t"
  shows "chat_shows t =
    (if in_fifo t = [] then Inr t
     else if 128 \<le> length (in_fifo t) then Inl OutOfBounds
     else Inr (t\<lparr>in_fifo := [], shown_text := shown_text t @ in_fifo t\<rparr>))"
proof -
  have "NUL \<notin> set (take 128 (in_fifo t))"
    using assms by (auto simp: talk_inv_def dest: in_set_takeD)
  from text_reply_noNUL [OF this, of 128]
  have "text_reply 128 (take 128 (in_fifo t)) = (if 128 \<le> length (in_fifo t) then Inl OutOfBounds else Inr (in_fifo t))"
    by auto
  then show ?thesis by (auto simp: chat_shows_def Let_def)
qed

lemma talk_step_inv:
  assumes "talk_inv t" and "talk_step ev t = Inr t'"
  shows "talk_inv t'"
proof (cases ev)
  case Sends
  have "NUL \<notin> set (takeWhile (\<lambda>c. c \<noteq> NUL) l)" for l by (auto dest: set_takeWhileD)
  with Sends assms show ?thesis by (auto simp: talk_step_def chat_sends_def talk_inv_def Let_def)
next
  case Shows
  with assms show ?thesis
    by (auto simp: talk_step_def chat_shows_eq talk_inv_def split: if_splits)
qed

text \<open>Nothing typed is dropped unless it holds a NUL.\<close>

lemma chat_sends_all:
  assumes "NUL \<notin> set (to_type t)"
  shows "sent_text (chat_sends t) @ to_type (chat_sends t) = sent_text t @ to_type t"
proof -
  have tw: "takeWhile (\<lambda>c. c \<noteq> NUL) (take k (to_type t)) = take k (to_type t)" for k
    by (subst takeWhile_eq_all_conv) (use assms in \<open>auto dest: in_set_takeD\<close>)
  show ?thesis unfolding chat_sends_def Let_def tw by simp
qed

lemma talk_step_all:
  assumes "talk_step ev t = Inr t'" and "NUL \<notin> set (to_type t)"
  shows "sent_text t' @ to_type t' = sent_text t @ to_type t" "NUL \<notin> set (to_type t')"
proof -
  have "(sent_text t' @ to_type t' = sent_text t @ to_type t) \<and> NUL \<notin> set (to_type t')"
  proof (cases ev)
    case Sends
    with assms(1) have "t' = chat_sends t" by (simp add: talk_step_def)
    with assms(2) chat_sends_all show ?thesis
      by (auto simp: chat_sends_def Let_def dest: in_set_dropD)
  next
    case Shows
    with assms show ?thesis
      by (auto simp: talk_step_def chat_shows_def Let_def then_do_def split: if_splits sum.splits)
  qed
  then show "sent_text t' @ to_type t' = sent_text t @ to_type t" "NUL \<notin> set (to_type t')" by simp_all
qed

lemma talk_run:
  assumes "talk_inv t0" and "NUL \<notin> set (to_type t0)" and "fold_result talk_step evs t0 = Inr t"
  shows "talk_inv t \<and> sent_text t @ to_type t = sent_text t0 @ to_type t0"
  using assms
proof (induction evs arbitrary: t0)
  case (Cons ev evs)
  then obtain t1 where t1: "talk_step ev t0 = Inr t1" "fold_result talk_step evs t1 = Inr t"
    by (auto split: sum.splits)
  from Cons.IH [OF talk_step_inv [OF Cons.prems(1) t1(1)] talk_step_all(2) [OF t1(1) Cons.prems(2)] t1(2)]
    talk_step_all(1) [OF t1(1) Cons.prems(2)]
  show ?case by simp
qed simp

text \<open>
  What was typed is what was shown, what is in the FIFO and what is still to be read from the terminal,
  in this order and without loss, as long as fewer than 128 bytes wait when the other side reads; with
  128 or more the array has no terminator and is printed past its end.
\<close>

theorem talk_in_order:
  assumes "fold_result talk_step evs \<lparr>to_type = input, in_fifo = [], sent_text = [], shown_text = []\<rparr> = Inr t"
    and "NUL \<notin> set input"
  shows "input = shown_text t @ in_fifo t @ to_type t
       \<and> (128 \<le> length (in_fifo t) \<longleftrightarrow> talk_step Shows t = Inl OutOfBounds)"
proof -
  have "talk_inv \<lparr>to_type = input, in_fifo = [], sent_text = [], shown_text = []\<rparr>" by (simp add: talk_inv_def)
  from talk_run [OF this _ assms(1)] assms(2)
  have inv: "talk_inv t" and all: "sent_text t @ to_type t = input" by simp_all
  from inv have "sent_text t = shown_text t @ in_fifo t" by (simp add: talk_inv_def)
  then have "input = shown_text t @ in_fifo t @ to_type t" using all by (metis append.assoc)
  moreover have "128 \<le> length (in_fifo t) \<longleftrightarrow> talk_step Shows t = Inl OutOfBounds"
    using inv by (auto simp: talk_step_def chat_shows_eq)
  ultimately show ?thesis by blast
qed

end
