(* ===== verification/Train_Udp.thy ===== *)
theory Train_Udp
  imports Train_Echo
begin

text \<open>
  \<open>udp_server.c\<close> and \<open>udp_client.c\<close> of \<open>src/bck/train/chapter 4\<close>: a server that sends every datagram back to
  where it came from, as its whole array of 1024 bytes, and a client that sends a line and shows the
  answer.  No result of a call is checked.  \<open>'a\<close> is the type of addresses; the network is an argument.
\<close>

section \<open>The server\<close>

datatype 'a arrival = Datagram 'a string | RecvFails

record 'a udp_server =
  udp_peer :: "'a option"            \<comment> \<open>\<open>addr_c\<close>; \<open>None\<close> before the first datagram\<close>
  udp_printed :: string
  udp_answers :: "('a option \<times> string) list"

definition udp_server_start :: "'a udp_server" where
  "udp_server_start = \<lparr>udp_peer = None, udp_printed = [], udp_answers = []\<rparr>"

text \<open>\<open>recvfrom\<close> keeps 1024 bytes of a datagram.\<close>

definition udp_recv :: "'a arrival \<Rightarrow> 'a option \<Rightarrow> 'a option \<times> string" where
  "udp_recv a peer = (case a of Datagram from d \<Rightarrow> (Some from, take 1024 d) | RecvFails \<Rightarrow> (peer, []))"

definition udp_turn :: "'a arrival \<Rightarrow> 'a udp_server \<Rightarrow> 'a udp_server result" where
  "udp_turn a s =
     (case udp_recv a (udp_peer s) of
        (peer, d) \<Rightarrow>
          then_do (text_reply 1024 d) (\<lambda>t.
            Inr (s\<lparr>udp_peer := peer, udp_printed := udp_printed s @ ''recvbuf: '' @ t @ ''\<newline>'',
                   udp_answers := udp_answers s @ [(peer, received 1024 d)]\<rparr>)))"

definition udp_server_main :: "'a arrival list \<Rightarrow> 'a udp_server result" where
  "udp_server_main as = fold_result udp_turn as udp_server_start"

text \<open>A datagram that fills the array without a terminator is printed past its end; every other one is answered.\<close>

definition unterminated :: "'a arrival \<Rightarrow> bool" where
  "unterminated a = (case a of Datagram _ d \<Rightarrow> 1024 \<le> length d \<and> NUL \<notin> set (take 1024 d) | RecvFails \<Rightarrow> False)"

lemma udp_turn_faults: "udp_turn a s = Inl e \<longleftrightarrow> unterminated a \<and> e = OutOfBounds"
  by (cases a) (auto simp: udp_turn_def udp_recv_def unterminated_def text_reply_def cstr_received min_def)

lemma udp_turn_answers:
  "udp_turn a s = Inr s' \<Longrightarrow>
     udp_answers s' = udp_answers s @ [(fst (udp_recv a (udp_peer s)), received 1024 (snd (udp_recv a (udp_peer s))))]"
  by (auto simp: udp_turn_def then_do_Inr_iff split: prod.splits)

lemma udp_run_answers:
  assumes "\<forall>x \<in> set ds. \<not> unterminated (Datagram (fst x) (snd x))"
  shows "\<exists>s'. fold_result udp_turn (map (\<lambda>x. Datagram (fst x) (snd x)) ds) s = Inr s'
       \<and> udp_answers s' = udp_answers s @ map (\<lambda>x. (Some (fst x), received 1024 (take 1024 (snd x)))) ds"
  using assms
proof (induction ds arbitrary: s)
  case (Cons x ds)
  then obtain s1 where s1: "udp_turn (Datagram (fst x) (snd x)) s = Inr s1"
    by (metis list.set_intros(1) sum.exhaust udp_turn_faults)
  from udp_turn_answers [OF this] have
    "udp_answers s1 = udp_answers s @ [(Some (fst x), received 1024 (take 1024 (snd x)))]"
    by (simp add: udp_recv_def)
  with Cons.IH [of s1] Cons.prems s1 show ?case by auto
qed simp

text \<open>Every client gets its own datagrams back, in the order they arrived, whoever else is sending.\<close>

theorem udp_server_answers_each:
  assumes "\<forall>x \<in> set ds. length (snd x) < 1024"
  shows "\<exists>s. udp_server_main (map (\<lambda>x. Datagram (fst x) (snd x)) ds) = Inr s
       \<and> (\<forall>a. map snd (filter (\<lambda>x. fst x = Some a) (udp_answers s))
            = map (\<lambda>x. received 1024 (snd x)) (filter (\<lambda>x. fst x = a) ds))"
proof -
  have "\<forall>x \<in> set ds. \<not> unterminated (Datagram (fst x) (snd x))"
    using assms by (auto simp: unterminated_def)
  from udp_run_answers [OF this, of udp_server_start] obtain s where
    s: "udp_server_main (map (\<lambda>x. Datagram (fst x) (snd x)) ds) = Inr s"
      "udp_answers s = map (\<lambda>x. (Some (fst x), received 1024 (take 1024 (snd x)))) ds"
    by (auto simp: udp_server_main_def udp_server_start_def)
  have "map snd (filter (\<lambda>x. fst x = Some a) (udp_answers s)) = map (\<lambda>x. received 1024 (snd x)) (filter (\<lambda>x. fst x = a) ds)" for a
    using assms unfolding s(2) by (induction ds) auto
  with s(1) show ?thesis by blast
qed


section \<open>The client, with a server at the other end\<close>

record udp_client =
  udp_stdin :: string
  udp_shown :: string

text \<open>The line as it is sent, all 1024 bytes of the array, and the answer shown.\<close>

definition udp_line :: "udp_client \<Rightarrow> string" where
  "udp_line c = take (fgets_length 1024 (udp_stdin c)) (udp_stdin c)"

definition udp_send :: "udp_client \<Rightarrow> string \<times> udp_client" where
  "udp_send c = (received 1024 (udp_line c), c\<lparr>udp_stdin := drop (fgets_length 1024 (udp_stdin c)) (udp_stdin c)\<rparr>)"

definition udp_show :: "string \<Rightarrow> udp_client \<Rightarrow> udp_client result" where
  "udp_show d c =
     then_do (text_reply 1024 (take 1024 d)) (\<lambda>t. Inr (c\<lparr>udp_shown := udp_shown c @ ''recvbuf: '' @ t @ ''\<newline>''\<rparr>))"

text \<open>One turn of the client's loop over a network that loses nothing.\<close>

definition udp_round :: "'a \<Rightarrow> udp_client \<times> 'a udp_server \<Rightarrow> (udp_client \<times> 'a udp_server) result" where
  "udp_round me x =
     (case udp_send (fst x) of
        (d, c) \<Rightarrow> then_do (udp_turn (Datagram me d) (snd x)) (\<lambda>s.
          then_do (udp_show (snd (last (udp_answers s))) c) (\<lambda>c'. Inr (c', s))))"

lemma udp_line_facts:
  assumes "NUL \<notin> set (udp_stdin c)"
  shows "length (udp_line c) < 1024" "NUL \<notin> set (udp_line c)"
  using assms fgets_length_less [of 1024 "udp_stdin c"]
  by (auto simp: udp_line_def dest: in_set_takeD)

lemma text_reply_block:
  assumes "length l < 1024" and "NUL \<notin> set l"
  shows "text_reply 1024 (received 1024 l) = Inr l" "received 1024 (received 1024 l) = received 1024 l"
proof -
  have len: "length (received 1024 l) = 1024" using assms by simp
  then show twice: "received 1024 (received 1024 l) = received 1024 l"
    by (subst received_def) simp
  have "cstr_at (received 1024 l) 0 = Inr l"
    using text_reply_noNUL [OF assms(2), of 1024] assms(1) by (simp add: text_reply_def)
  then show "text_reply 1024 (received 1024 l) = Inr l"
    by (simp add: text_reply_def twice)
qed

lemma udp_rest: "drop (fgets_length 1024 (udp_stdin c)) (udp_stdin c) = drop (length (udp_line c)) (udp_stdin c)"
  by (cases "fgets_length 1024 (udp_stdin c) \<le> length (udp_stdin c)") (simp_all add: udp_line_def)

lemma udp_round_eq:
  assumes "NUL \<notin> set (udp_stdin c)"
  shows "udp_round me (c, s) = Inr
    (c\<lparr>udp_stdin := drop (length (udp_line c)) (udp_stdin c), udp_shown := udp_shown c @ ''recvbuf: '' @ udp_line c @ ''\<newline>''\<rparr>,
     s\<lparr>udp_peer := Some me, udp_printed := udp_printed s @ ''recvbuf: '' @ udp_line c @ ''\<newline>'',
       udp_answers := udp_answers s @ [(Some me, received 1024 (udp_line c))]\<rparr>)"
proof -
  note l = udp_line_facts [OF assms]
  have len: "length (received 1024 (udp_line c)) = 1024" using l(1) by simp
  show ?thesis
    by (simp add: udp_round_def udp_send_def udp_turn_def udp_recv_def udp_show_def text_reply_block [OF l] udp_rest len)
qed

fun udp_rounds :: "nat \<Rightarrow> 'a \<Rightarrow> udp_client \<times> 'a udp_server \<Rightarrow> (udp_client \<times> 'a udp_server) result" where
  "udp_rounds 0 me x = Inr x"
| "udp_rounds (Suc n) me x = then_do (udp_round me x) (udp_rounds n me)"

definition udp_text :: "string list \<Rightarrow> string" where
  "udp_text ls = concat (map (\<lambda>l. ''recvbuf: '' @ l @ ''\<newline>'') ls)"

lemma udp_rounds_echo:
  assumes "NUL \<notin> set (udp_stdin c)"
  shows "\<exists>ls c' s'. udp_rounds n me (c, s) = Inr (c', s') \<and> length ls = n \<and> udp_stdin c = concat ls @ udp_stdin c'
    \<and> udp_shown c' = udp_shown c @ udp_text ls \<and> udp_printed s' = udp_printed s @ udp_text ls"
  using assms
proof (induction n arbitrary: c s)
  case (Suc n)
  let ?l = "udp_line c"
  obtain c1 s1 where r: "udp_round me (c, s) = Inr (c1, s1)"
    and c1: "udp_stdin c1 = drop (length ?l) (udp_stdin c)" "udp_shown c1 = udp_shown c @ udp_text [?l]"
    and s1: "udp_printed s1 = udp_printed s @ udp_text [?l]"
    by (rule that [OF udp_round_eq [OF Suc.prems]]) (simp_all add: udp_text_def)
  have "NUL \<notin> set (udp_stdin c1)" using Suc.prems c1(1) by (auto dest: in_set_dropD)
  from Suc.IH [OF this, of s1] obtain ls c2 s2 where
    2: "udp_rounds n me (c1, s1) = Inr (c2, s2)" "length ls = n" "udp_stdin c1 = concat ls @ udp_stdin c2"
      "udp_shown c2 = udp_shown c1 @ udp_text ls" "udp_printed s2 = udp_printed s1 @ udp_text ls" by blast
  have "udp_stdin c = ?l @ udp_stdin c1"
    unfolding c1(1) udp_rest [symmetric] by (simp add: udp_line_def)
  with r c1 s1 2 show ?case
    by (intro exI [of _ "?l # ls"] exI [of _ c2] exI [of _ s2]) (simp add: udp_text_def)
qed (auto simp: udp_text_def intro: exI [of _ "[]"])



end
