(* ===== verification/Train_Multiplex.thy ===== *)
theory Train_Multiplex
  imports Train_Echo
begin

text \<open>
  The servers of \<open>src/bck/train/chapter 4\<close> that watch many clients from one thread: \<open>select.c\<close>,
  \<open>poll.c\<close> and \<open>epoll.c\<close>.  One turn of the main loop is a function of what the system answers in
  that turn: which descriptors are ready, what \<open>accept\<close> gives, and what each \<open>read\<close> gives.
\<close>

section \<open>\<open>select.c\<close>\<close>

record select_server =
  reads :: "fd set"
  maxfd :: fd
  sel_sent :: "(fd \<times> string) list"

record select_turn =
  sel_ready :: "fd set option"   \<comment> \<open>the set \<open>select\<close> leaves in \<open>temp\<close>, \<open>None\<close> for -1\<close>
  sel_accept :: accept_ret
  sel_read :: "fd \<Rightarrow> read_result"

definition FD_SETSIZE :: int where
  "FD_SETSIZE = 1024"

text \<open>\<open>FD_SET\<close> writes a bit of an array of \<open>FD_SETSIZE\<close> bits.\<close>

definition FD_SET :: "fd \<Rightarrow> fd set \<Rightarrow> fd set result" where
  "FD_SET fd r = (if 0 \<le> fd \<and> fd < FD_SETSIZE then Inr (insert fd r) else Inl OutOfBounds)"

text \<open>A new client.\<close>

definition select_new :: "accept_ret \<Rightarrow> select_server \<Rightarrow> select_server run result" where
  "select_new a s =
     (case a of
        AcceptFails _ \<Rightarrow> Inr (MainReturned (-1) s)
      | AcceptGives fd_c \<Rightarrow>
          then_do (FD_SET fd_c (reads s))
            (\<lambda>r. Inr (Going (s\<lparr>reads := r, maxfd := (if maxfd s > fd_c then maxfd s else fd_c)\<rparr>))))"

text \<open>A client that is ready: a failed read ends the server, end of file takes it out of the set.\<close>

definition select_client :: "(fd \<Rightarrow> read_result) \<Rightarrow> fd \<Rightarrow> select_server \<Rightarrow> select_server run result" where
  "select_client rd i s =
     (case rd i of
        ReadErr _ \<Rightarrow> Inr (MainReturned (-1) s)
      | ReadData d \<Rightarrow>
          (if d = [] then Inr (Going (s\<lparr>reads := reads s - {i}\<rparr>))
           else then_do (text_reply 1024 d) (\<lambda>t. Inr (Going (s\<lparr>sel_sent := sel_sent s @ [(i, t)]\<rparr>)))))"

definition select_scan :: "fd set \<Rightarrow> (fd \<Rightarrow> read_result) \<Rightarrow> fd \<Rightarrow> select_server \<Rightarrow> select_server run result" where
  "select_scan temp rd i s = (if i \<in> temp then select_client rd i s else Inr (Going s))"

definition select_round :: "fd \<Rightarrow> select_turn \<Rightarrow> select_server \<Rightarrow> select_server run result" where
  "select_round fd_s x s =
     (case sel_ready x of
        None \<Rightarrow> Inr (MainReturned (-1) s)
      | Some temp \<Rightarrow>
          go_on (if fd_s \<in> temp then select_new (sel_accept x) s else Inr (Going s))
            (\<lambda>s1. run_all (select_scan temp (sel_read x)) [fd_s + 1..maxfd s1] s1))"

definition select_main :: "listen_calls \<Rightarrow> select_turn list \<Rightarrow> select_server run result" where
  "select_main c xs =
     (case open_listener c of
        Inl k \<Rightarrow> Inr (MainReturned k \<lparr>reads = {}, maxfd = 0, sel_sent = []\<rparr>)
      | Inr fd_s \<Rightarrow>
          then_do (FD_SET fd_s {})
            (\<lambda>r. run_all (select_round fd_s) xs \<lparr>reads = r, maxfd = fd_s, sel_sent = []\<rparr>))"


subsection \<open>The watched set\<close>

definition select_inv :: "fd \<Rightarrow> select_server \<Rightarrow> bool" where
  "select_inv fd_s s \<longleftrightarrow> fd_s \<in> reads s \<and> (\<forall>fd \<in> reads s. 0 \<le> fd \<and> fd < FD_SETSIZE \<and> fd \<le> maxfd s)"

lemma select_new_inv:
  "select_inv fd_s s \<Longrightarrow> select_new a s = Inr (Going s') \<Longrightarrow> select_inv fd_s s'"
  by (force simp: select_new_def select_inv_def FD_SET_def split: accept_ret.splits if_splits)

lemma select_scan_inv:
  assumes "select_inv fd_s s" and "fd_s \<noteq> i" and "select_scan temp rd i s = Inr (Going s')"
  shows "select_inv fd_s s'"
  using assms
  by (auto simp: select_scan_def select_client_def select_inv_def then_do_Inr_iff
      split: read_result.splits if_splits)

lemma select_scans_inv:
  assumes "select_inv fd_s s" and "fd_s \<notin> set js"
    and "run_all (select_scan temp rd) js s = Inr (Going s')"
  shows "select_inv fd_s s'"
  using assms
  by (induction js arbitrary: s) (auto simp: go_on_Inr_Going dest: select_scan_inv)

lemma select_round_inv:
  assumes "select_inv fd_s s" and "select_round fd_s x s = Inr (Going s')"
  shows "select_inv fd_s s'"
proof -
  from assms(2) obtain temp s1 where temp: "sel_ready x = Some temp"
    and s1: "(if fd_s \<in> temp then select_new (sel_accept x) s else Inr (Going s)) = Inr (Going s1)"
    and run: "run_all (select_scan temp (sel_read x)) [fd_s + 1..maxfd s1] s1 = Inr (Going s')"
    by (cases "sel_ready x") (auto simp: select_round_def go_on_Inr_Going)
  from s1 assms(1) have "select_inv fd_s s1"
    by (cases "fd_s \<in> temp") (auto intro: select_new_inv)
  from select_scans_inv [OF this _ run] show ?thesis by simp
qed

text \<open>
  Whatever happens, the listener stays in the set and every watched descriptor lies below \<open>maxfd\<close>, so
  \<open>select\<close> is asked about all of them, and inside the set.
\<close>

lemma select_main_watches:
  assumes "select_main c xs = Inr (Going s)"
  shows "select_inv (socket_ret c) s"
proof -
  from assms have fd: "0 \<le> socket_ret c" "socket_ret c < FD_SETSIZE"
    and run: "run_all (select_round (socket_ret c)) xs \<lparr>reads = {socket_ret c}, maxfd = socket_ret c, sel_sent = []\<rparr>
      = Inr (Going s)"
    by (auto simp: select_main_def open_listener_def FD_SET_def split: if_splits)
  show ?thesis
    by (rule run_all_invariant [OF select_round_inv _ run]) (use fd in \<open>auto simp: select_inv_def\<close>)
qed

text \<open>One client that resets its connection ends the server for all of them.\<close>

lemma select_reset_ends_server:
  assumes "sel_ready x = Some {i}" and "i \<noteq> fd_s" and "sel_read x i = ReadErr e"
    and "fd_s < i" and "i \<le> maxfd s"
  shows "select_round fd_s x s = Inr (MainReturned (-1) s)"
proof -
  have skip: "run_all (select_scan {i} rd) js s = Inr (Going s)" if "i \<notin> set js" for js rd s
    using that by (induction js) (auto simp: select_scan_def)
  have "[fd_s + 1..maxfd s] = [fd_s + 1..i - 1] @ i # [i + 1..maxfd s]"
    using assms(4,5) upto_split3 [of "fd_s + 1" i "maxfd s"] by simp
  moreover have "select_scan {i} (sel_read x) i s = Inr (MainReturned (-1) s)"
    by (simp add: select_scan_def select_client_def assms(3))
  ultimately show ?thesis
    using assms(1,2) by (simp add: select_round_def run_all_append skip)
qed

section \<open>\<open>poll.c\<close>\<close>

text \<open>
  One entry of \<open>fds\<close>: the descriptor, -1 for a free entry, and whether \<open>revents\<close> holds \<open>POLLIN\<close>.  The
  array is not initialised but for \<open>fd\<close> and \<open>events\<close>, so the first \<open>revents\<close> are an argument.
\<close>

record pollfd =
  pfd :: fd
  pollin :: bool

record poll_server =
  pfds :: "pollfd list"
  nfds :: int
  poll_sent :: "(fd \<times> string) list"
  poll_closed :: "fd list"
  poll_dropped :: "fd list"

record poll_turn =
  poll_ready :: "(nat \<Rightarrow> bool) option"   \<comment> \<open>the events \<open>poll\<close> reports by entry, \<open>None\<close> for -1\<close>
  poll_accept :: accept_ret
  poll_read :: "fd \<Rightarrow> read_result"

definition poll_start :: "(nat \<Rightarrow> bool) \<Rightarrow> fd \<Rightarrow> poll_server" where
  "poll_start junk fd_s =
     \<lparr>pfds = map (\<lambda>i. \<lparr>pfd = (if i = 0 then fd_s else -1), pollin = junk i\<rparr>) [0..<1024], nfds = 0,
      poll_sent = [], poll_closed = [], poll_dropped = []\<rparr>"

text \<open>
  \<open>poll(fds, nfds + 1, -1)\<close> sets \<open>revents\<close> of the first \<open>nfds + 1\<close> entries, to nothing where the
  entry is free, and leaves the others; past the end of the array it reads what is behind it.
\<close>

definition sys_poll :: "(nat \<Rightarrow> bool) \<Rightarrow> poll_server \<Rightarrow> poll_server result" where
  "sys_poll ready s =
     (if int (length (pfds s)) < nfds s + 1 then Inl OutOfBounds
      else Inr (s\<lparr>pfds := map (\<lambda>i. let e = pfds s ! i in
                                if int i \<le> nfds s then e\<lparr>pollin := pfd e \<noteq> -1 \<and> ready i\<rparr> else e)
                            [0..<length (pfds s)]\<rparr>))"

text \<open>The search for a free entry starts at 1.\<close>

definition free_entry :: "pollfd list \<Rightarrow> nat option" where
  "free_entry es = map_option Suc (find_first (\<lambda>e. pfd e = -1) (tl es))"

definition poll_new :: "accept_ret \<Rightarrow> poll_server \<Rightarrow> poll_server run result" where
  "poll_new a s =
     (case a of
        AcceptFails _ \<Rightarrow> Inr (MainReturned (-1) s)
      | AcceptGives fd_c \<Rightarrow>
          (case free_entry (pfds s) of
             None \<Rightarrow> Inr (Going (s\<lparr>poll_dropped := poll_dropped s @ [fd_c]\<rparr>))
           | Some i \<Rightarrow>
               Inr (Going (s\<lparr>pfds := (pfds s)[i := (pfds s ! i)\<lparr>pfd := fd_c\<rparr>],
                               nfds := (if nfds s > fd_c then nfds s else fd_c)\<rparr>))))"

definition poll_client :: "(fd \<Rightarrow> read_result) \<Rightarrow> nat \<Rightarrow> poll_server \<Rightarrow> poll_server run result" where
  "poll_client rd i s =
     (let e = pfds s ! i in
      if pfd e \<noteq> -1 \<and> pollin e then
        (case rd (pfd e) of
           ReadErr _ \<Rightarrow> Inr (MainReturned (-1) s)
         | ReadData d \<Rightarrow>
             (if d = [] then
                Inr (Going (s\<lparr>poll_closed := poll_closed s @ [pfd e], pfds := (pfds s)[i := e\<lparr>pfd := -1\<rparr>]\<rparr>))
              else then_do (text_reply 1024 d)
                     (\<lambda>t. Inr (Going (s\<lparr>poll_sent := poll_sent s @ [(pfd e, t)]\<rparr>)))))
      else Inr (Going s))"

definition client_entries :: "nat list" where
  "client_entries = [1..<1024]"

definition poll_round :: "poll_turn \<Rightarrow> poll_server \<Rightarrow> poll_server run result" where
  "poll_round x s =
     (case poll_ready x of
        None \<Rightarrow> Inr (MainReturned (-1) s)
      | Some ready \<Rightarrow>
          then_do (sys_poll ready s)
            (\<lambda>s1. go_on (if pollin (pfds s1 ! 0) then poll_new (poll_accept x) s1 else Inr (Going s1))
                     (run_all (poll_client (poll_read x)) client_entries)))"

definition poll_main :: "(nat \<Rightarrow> bool) \<Rightarrow> listen_calls \<Rightarrow> poll_turn list \<Rightarrow> poll_server run result" where
  "poll_main junk c xs =
     (case open_listener c of
        Inl k \<Rightarrow> Inr (MainReturned k (poll_start junk (-1)))
      | Inr fd_s \<Rightarrow> run_all poll_round xs (poll_start junk fd_s))"


subsection \<open>The entries and the range polled\<close>

text \<open>The descriptors of the clients in the array.\<close>

definition clients :: "poll_server \<Rightarrow> fd set" where
  "clients s = {pfd (pfds s ! i) |i. 0 < i \<and> i < length (pfds s) \<and> pfd (pfds s ! i) \<noteq> -1}"

definition poll_inv :: "poll_server \<Rightarrow> bool" where
  "poll_inv s \<longleftrightarrow>
     length (pfds s) = 1024 \<and> 0 \<le> nfds s \<and> nfds s < 1024
   \<and> (\<forall>i. 0 < i \<and> i < 1024 \<and> pfd (pfds s ! i) \<noteq> -1 \<longrightarrow>
        int i \<le> nfds s \<and> 0 < pfd (pfds s ! i) \<and> pfd (pfds s ! i) \<le> nfds s)
   \<and> (\<forall>i j. 0 < i \<and> i < 1024 \<and> 0 < j \<and> j < 1024 \<and> pfd (pfds s ! i) = pfd (pfds s ! j)
        \<and> pfd (pfds s ! i) \<noteq> -1 \<longrightarrow> i = j)"

text \<open>
  What the kernel promises of a descriptor it gives out under the usual limit of 1024: it is not open
  already, and lies below the limit.
\<close>

definition fresh_accept :: "accept_ret \<Rightarrow> poll_server \<Rightarrow> bool" where
  "fresh_accept a s =
     (case a of AcceptFails _ \<Rightarrow> True | AcceptGives fd \<Rightarrow> 0 < fd \<and> fd < 1024 \<and> fd \<notin> clients s)"

lemma poll_start_inv: "poll_inv (poll_start junk fd_s)"
  by (auto simp: poll_inv_def poll_start_def)

lemma sys_poll_inv:
  assumes "poll_inv s" and "sys_poll ready s = Inr s1"
  shows "poll_inv s1" "clients s1 = clients s" "nfds s1 = nfds s"
proof -
  have pf: "pfd (pfds s1 ! i) = pfd (pfds s ! i)" if "i < length (pfds s)" for i
    using assms(2) that by (auto simp: sys_poll_def Let_def split: if_splits)
  have len: "length (pfds s1) = length (pfds s)" and n: "nfds s1 = nfds s"
    using assms(2) by (auto simp: sys_poll_def split: if_splits)
  show "nfds s1 = nfds s" by (rule n)
  show "poll_inv s1" using assms(1) pf len n unfolding poll_inv_def by auto
  show "clients s1 = clients s" using pf len unfolding clients_def by auto metis
qed

lemma sys_poll_in_range: "poll_inv s \<Longrightarrow> \<exists>s1. sys_poll ready s = Inr s1"
  by (auto simp: sys_poll_def poll_inv_def)

lemma free_entry_SomeD:
  assumes "free_entry es = Some k"
  shows "0 < k" "k < length es" "pfd (es ! k) = -1" "\<And>i. 0 < i \<Longrightarrow> i < k \<Longrightarrow> pfd (es ! i) \<noteq> -1"
proof -
  obtain m where m: "k = Suc m" "find_first (\<lambda>e. pfd e = -1) (tl es) = Some m"
    using assms by (auto simp: free_entry_def)
  from find_first_Some [OF m(2)]
  have f: "m < length (tl es)" "pfd (tl es ! m) = -1" "\<forall>i < m. pfd (tl es ! i) \<noteq> -1" by auto
  then have es: "tl es ! i = es ! Suc i" if "i < length (tl es)" for i
    using that by (simp add: nth_tl)
  show "0 < k" using m by simp
  show "k < length es" using m f by auto
  show "pfd (es ! k) = -1" using m f es by simp
  show "pfd (es ! i) \<noteq> -1" if "0 < i" "i < k" for i
    using f(3) es [of "i - 1"] that m(1) f(1) by (cases i) auto
qed

lemma poll_new_inv:
  assumes inv: "poll_inv s" and fresh: "fresh_accept a s" and step: "poll_new a s = Inr (Going s')"
  shows "poll_inv s'"
proof -
  from step obtain fd where a: "a = AcceptGives fd"
    by (auto simp: poll_new_def split: accept_ret.splits)
  show ?thesis
  proof (cases "free_entry (pfds s)")
    case None
    with step a inv show ?thesis by (auto simp: poll_new_def poll_inv_def)
  next
    case (Some k)
    note k = free_entry_SomeD [OF Some]
    let ?f = "\<lambda>i. pfd (pfds s ! i)"
    have len: "length (pfds s) = 1024" using inv by (simp add: poll_inv_def)
    with k(2) have k1024: "k < 1024" by simp
    have fd: "0 < fd" "fd < 1024" "fd \<notin> clients s" using fresh a by (simp_all add: fresh_accept_def)
    have fdne: "?f i \<noteq> fd" if "0 < i" "i < 1024" for i
      using fd(1,3) that len by (auto simp: clients_def)
    define n' where "n' = (if nfds s > fd then nfds s else fd)"
    have n': "nfds s \<le> n'" "fd \<le> n'" "n' < 1024" using inv fd by (auto simp: n'_def poll_inv_def)
    have s': "s' = s\<lparr>pfds := (pfds s)[k := (pfds s ! k)\<lparr>pfd := fd\<rparr>], nfds := n'\<rparr>"
      using step a Some by (simp add: poll_new_def n'_def)
    have occ: "0 < ?f i \<and> ?f i \<le> n'" if "0 < i" "i < k" for i
      using inv k(4) [OF that] that k1024 n'(1) by (force simp: poll_inv_def)
    have "inj_on ?f {1..<k}"
      using inv k(4) k1024 by (auto simp: inj_on_def poll_inv_def)
    then have "card (?f ` {1..<k}) = k - 1" by (simp add: card_image)
    moreover have "fd \<notin> ?f ` {1..<k}"
    proof
      assume "fd \<in> ?f ` {1..<k}"
      then obtain j where "j \<in> {1..<k}" "?f j = fd" by blast
      with fdne [of j] k1024 show False by simp
    qed
    ultimately have "card (insert fd (?f ` {1..<k})) = k" using k(1) by simp
    moreover have "?f j \<in> {1..n'}" if "j \<in> {1..<k}" for j using occ [of j] that by auto
    then have "insert fd (?f ` {1..<k}) \<subseteq> {1..n'}" using fd(1) n'(2) by auto
    then have "card (insert fd (?f ` {1..<k})) \<le> nat n'" using card_mono [of "{1..n'}"] by fastforce
    ultimately have "int k \<le> n'" using n'(2) fd(1) by linarith
    then show ?thesis
      using inv k(1) k1024 len fd n' fdne unfolding poll_inv_def s'
      by (auto simp: nth_list_update split: if_splits intro: order_trans)
  qed
qed

lemma poll_client_inv:
  assumes "poll_inv s" and "poll_client rd i s = Inr (Going s')"
  shows "poll_inv s'"
proof (cases "s' = s \<or> (\<exists>l. s' = s\<lparr>poll_sent := l\<rparr>)")
  case True
  with assms(1) show ?thesis by (auto simp: poll_inv_def)
next
  case False
  with assms(2) obtain l where s': "s' = s\<lparr>poll_closed := l, pfds := (pfds s)[i := (pfds s ! i)\<lparr>pfd := -1\<rparr>]\<rparr>"
    by (auto simp: poll_client_def Let_def then_do_Inr_iff split: if_splits read_result.splits)
  have pf: "pfd ((pfds s)[i := (pfds s ! i)\<lparr>pfd := -1\<rparr>] ! j) = (if j = i then -1 else pfd (pfds s ! j))"
    if "j < length (pfds s)" for j
    using that by (cases "i < length (pfds s)") (auto simp: nth_list_update)
  show ?thesis
    using assms(1) unfolding poll_inv_def s' by (auto simp: pf split: if_splits)
qed

lemma poll_clients_inv:
  "poll_inv s \<Longrightarrow> run_all (poll_client rd) js s = Inr (Going s') \<Longrightarrow> poll_inv s'"
  by (rule run_all_invariant [where P = poll_inv]) (auto intro: poll_client_inv)

lemma poll_round_inv:
  assumes inv: "poll_inv s" and fresh: "fresh_accept (poll_accept x) s"
    and step: "poll_round x s = Inr (Going s')"
  shows "poll_inv s'"
proof -
  from step obtain ready s1 s2 where s1: "sys_poll ready s = Inr s1"
    and s2: "(if pollin (pfds s1 ! 0) then poll_new (poll_accept x) s1 else Inr (Going s1)) = Inr (Going s2)"
    and run: "run_all (poll_client (poll_read x)) client_entries s2 = Inr (Going s')"
    by (cases "poll_ready x") (auto simp: poll_round_def then_do_Inr_iff go_on_Inr_Going)
  note p = sys_poll_inv [OF inv s1]
  have fresh1: "fresh_accept (poll_accept x) s1"
    using fresh p(2) by (cases "poll_accept x") (simp_all add: fresh_accept_def)
  have "poll_inv s2"
  proof (cases "pollin (pfds s1 ! 0)")
    case True
    with s2 have "poll_new (poll_accept x) s1 = Inr (Going s2)" by simp
    then show ?thesis by (rule poll_new_inv [OF p(1) fresh1])
  next
    case False
    with s2 p(1) show ?thesis by simp
  qed
  then show ?thesis by (rule poll_clients_inv [OF _ run])
qed

text \<open>The states of the server while the kernel keeps its promise.\<close>

inductive poll_reachable :: "(nat \<Rightarrow> bool) \<Rightarrow> fd \<Rightarrow> poll_server \<Rightarrow> bool" for junk fd_s where
  poll_begins: "poll_reachable junk fd_s (poll_start junk fd_s)"
| poll_turns: "poll_reachable junk fd_s s \<Longrightarrow> fresh_accept (poll_accept x) s \<Longrightarrow>
    poll_round x s = Inr (Going s') \<Longrightarrow> poll_reachable junk fd_s s'"

inductive_cases poll_reachableE: "poll_reachable junk fd_s s"

lemma poll_reachable_inv: "poll_reachable junk fd_s s \<Longrightarrow> poll_inv s"
  by (induction rule: poll_reachable.induct) (auto intro: poll_start_inv poll_round_inv)

text \<open>
  C36. \<open>poll.c\<close> uses the largest descriptor as the number of entries to poll, and that is enough: in
  every state reached while the kernel gives out fresh descriptors below 1024, no two entries hold
  the same client, \<open>poll\<close> stays inside the array, and every client's entry lies in the range polled,
  so its readiness is reported.
\<close>

theorem poll_watches_every_client:
  assumes "poll_reachable junk fd_s s"
  shows "nfds s + 1 \<le> int (length (pfds s)) \<and>
    (\<exists>s1. sys_poll ready s = Inr s1 \<and>
      (\<forall>i. 0 < i \<and> i < length (pfds s) \<and> pfd (pfds s ! i) \<noteq> -1 \<longrightarrow>
         int i \<le> nfds s \<and> pfd (pfds s1 ! i) = pfd (pfds s ! i) \<and> pollin (pfds s1 ! i) = ready i
       \<and> (\<forall>j. 0 < j \<and> j < length (pfds s) \<and> pfd (pfds s ! j) = pfd (pfds s ! i) \<longrightarrow> j = i)))"
proof -
  note inv = poll_reachable_inv [OF assms]
  obtain s1 where s1: "sys_poll ready s = Inr s1" using sys_poll_in_range [OF inv] by blast
  have len: "length (pfds s) = 1024" "nfds s < 1024" using inv by (simp_all add: poll_inv_def)
  have "int i \<le> nfds s \<and> pfd (pfds s1 ! i) = pfd (pfds s ! i) \<and> pollin (pfds s1 ! i) = ready i"
    if "0 < i" "i < length (pfds s)" "pfd (pfds s ! i) \<noteq> -1" for i
  proof -
    have i: "int i \<le> nfds s" using inv that len by (simp add: poll_inv_def)
    then show ?thesis
      using s1 that by (auto simp: sys_poll_def Let_def split: if_splits)
  qed
  moreover have "j = i" if "0 < i" "i < length (pfds s)" "pfd (pfds s ! i) \<noteq> -1"
    "0 < j" "j < length (pfds s)" "pfd (pfds s ! j) = pfd (pfds s ! i)" for i j
    using inv that len by (auto simp: poll_inv_def)
  ultimately show ?thesis using s1 len by auto
qed

lemma poll_free_entries:
  assumes "\<forall>i \<in> set js. pfd (pfds s ! i) = -1"
  shows "run_all (poll_client rd) js s = Inr (Going s)"
  using assms by (induction js) (auto simp: poll_client_def Let_def)

lemma client_entries_Cons: "client_entries = 1 # [2..<1024]"
  unfolding client_entries_def by (subst upt_conv_Cons) (simp_all add: numeral_2_eq_2)

text \<open>A server of descriptor 3 after its first client, 4.\<close>

definition first_client :: "(nat \<Rightarrow> bool) \<Rightarrow> poll_server" where
  "first_client junk =
     (poll_start junk 3)\<lparr>pfds := map (\<lambda>i. \<lparr>pfd = (if i = 0 then 3 else if i = 1 then 4 else -1),
        pollin = (if i = 0 then True else junk i)\<rparr>) [0..<1024], nfds := 4\<rparr>"

lemma free_entry_first:
  "free_entry (map (\<lambda>i. \<lparr>pfd = (if i = 0 then 3 else -1), pollin = g i\<rparr>) [0..<1024]) = Some 1"
proof -
  have "[0..<1024] = 0 # 1 # [2..<1024]"
    by (subst upt_conv_Cons, simp, subst upt_conv_Cons) (simp_all add: numeral_2_eq_2)
  then show ?thesis by (simp add: free_entry_def)
qed

lemma poll_first_accept:
  "go_on (poll_new (AcceptGives 4)
       ((poll_start junk 3)\<lparr>pfds := map (\<lambda>i. \<lparr>pfd = (if i = 0 then 3 else -1), pollin = (if i = 0 then True else junk i)\<rparr>) [0..<1024]\<rparr>)) f
   = f (first_client junk)"
proof -
  let ?g = "\<lambda>i. \<lparr>pfd = (if i = 0 then 3 else -1), pollin = (if i = 0 then True else junk i)\<rparr>"
  have "(map ?g [0..<1024])[1 := (map ?g [0..<1024] ! 1)\<lparr>pfd := 4\<rparr>]
      = map (\<lambda>i. \<lparr>pfd = (if i = 0 then 3 else if i = 1 then 4 else -1), pollin = (if i = 0 then True else junk i)\<rparr>) [0..<1024]"
    by (rule nth_equalityI) (auto simp: nth_list_update)
  then show ?thesis
    by (simp add: poll_new_def free_entry_first [of "\<lambda>i. if i = 0 then True else junk i"] first_client_def poll_start_def
        del: upt_eq_Cons_conv)
qed

definition first_turn :: "(fd \<Rightarrow> read_result) \<Rightarrow> poll_turn" where
  "first_turn rd = \<lparr>poll_ready = Some (\<lambda>i. i = 0), poll_accept = AcceptGives 4, poll_read = rd\<rparr>"

lemma poll_first_round:
  "poll_round (first_turn rd) (poll_start junk 3) = run_all (poll_client rd) client_entries (first_client junk)"
proof -
  have "sys_poll (\<lambda>i. i = 0) (poll_start junk 3) = Inr ((poll_start junk 3)\<lparr>pfds :=
      map (\<lambda>i. \<lparr>pfd = (if i = 0 then 3 else -1), pollin = (if i = 0 then True else junk i)\<rparr>) [0..<1024]\<rparr>)"
    by (simp add: sys_poll_def poll_start_def Let_def)
  then show ?thesis
    by (simp add: poll_round_def first_turn_def poll_first_accept)
qed

lemma first_client_entries:
  "length (pfds (first_client junk)) = 1024"
  "pfds (first_client junk) ! Suc 0 = \<lparr>pfd = 4, pollin = junk (Suc 0)\<rparr>"
  by (simp_all add: first_client_def del: upt_rec_numeral)

lemma first_client_free: "\<forall>i \<in> set [2..<1024]. pfd (pfds (first_client junk) ! i) = -1"
  by (simp add: first_client_def del: upt_rec_numeral)

text \<open>
  The entry of a new client keeps the \<open>revents\<close> it had: with a set bit left there the server reads from
  the client in the turn that accepted it, although \<open>poll\<close> has reported nothing of it.
\<close>

lemma poll_reads_unreported:
  assumes "junk 1" and "rd 4 = ReadErr e"
  shows "poll_round (first_turn rd) (poll_start junk 3) = Inr (MainReturned (-1) (first_client junk))"
proof -
  have "poll_client rd 1 (first_client junk) = Inr (MainReturned (-1) (first_client junk))"
    using assms by (simp add: poll_client_def Let_def first_client_entries(2))
  then show ?thesis unfolding poll_first_round client_entries_Cons by simp
qed

lemma first_client_reachable:
  assumes "\<not> junk 1"
  shows "poll_reachable junk 3 (first_client junk)"
proof (rule poll_turns [OF poll_begins, where x = "first_turn (\<lambda>_. ReadData [])"])
  show "fresh_accept (poll_accept (first_turn (\<lambda>_. ReadData []))) (poll_start junk 3)"
    by (auto simp: fresh_accept_def first_turn_def clients_def poll_start_def)
  have "poll_client rd 1 (first_client junk) = Inr (Going (first_client junk))" for rd
    using assms by (simp add: poll_client_def Let_def first_client_entries(2))
  then show "poll_round (first_turn (\<lambda>_. ReadData [])) (poll_start junk 3) = Inr (Going (first_client junk))"
    unfolding poll_first_round client_entries_Cons
    by (simp only: run_all.simps go_on_simps poll_free_entries [OF first_client_free])
qed

theorem poll_watches_every_client_witness:
  "\<exists>s1. sys_poll (\<lambda>i. i = 1) (first_client (\<lambda>_. False)) = Inr s1
      \<and> pfd (pfds s1 ! 1) = 4 \<and> pollin (pfds s1 ! 1)"
proof -
  have r: "poll_reachable (\<lambda>_. False) 3 (first_client (\<lambda>_. False))"
    by (rule first_client_reachable) simp
  obtain s1 where s1: "sys_poll (\<lambda>i. i = 1) (first_client (\<lambda>_. False)) = Inr s1"
    and all: "\<forall>i. 0 < i \<and> i < length (pfds (first_client (\<lambda>_. False))) \<and> pfd (pfds (first_client (\<lambda>_. False)) ! i) \<noteq> -1 \<longrightarrow>
         int i \<le> nfds (first_client (\<lambda>_. False)) \<and> pfd (pfds s1 ! i) = pfd (pfds (first_client (\<lambda>_. False)) ! i)
       \<and> pollin (pfds s1 ! i) = (i = 1)
       \<and> (\<forall>j. 0 < j \<and> j < length (pfds (first_client (\<lambda>_. False))) \<and> pfd (pfds (first_client (\<lambda>_. False)) ! j)
             = pfd (pfds (first_client (\<lambda>_. False)) ! i) \<longrightarrow> j = i)"
    using poll_watches_every_client [OF r, of "\<lambda>i. i = 1"] by blast
  from spec [OF all, of 1] s1 show ?thesis
    by (simp add: first_client_entries(1,2))
qed


section \<open>\<open>epoll.c\<close>\<close>

record epoll_server =
  watched :: "fd set"
  ep_sent :: "(fd \<times> string) list"
  ep_closed :: "fd list"

record epoll_turn =
  ep_events :: "fd list option"      \<comment> \<open>what \<open>epoll_wait\<close> reports, \<open>None\<close> for -1\<close>
  ep_accept :: accept_ret
  ep_ctl :: int                      \<comment> \<open>what \<open>epoll_ctl\<close> returns for the new client, 0 or -1\<close>
  ep_reads :: "fd \<Rightarrow> read_result list"

definition BUFSIZE :: nat where
  "BUFSIZE = 5"

text \<open>
  The loop of reads: a chunk that is one newline leaves it, any other is printed and the whole array
  sent back.  The result is the last answer of \<open>read\<close>; when the answers are used up the descriptor,
  which is non-blocking, has no data.
\<close>

fun epoll_drain :: "fd \<Rightarrow> read_result list \<Rightarrow> epoll_server \<Rightarrow> (read_result \<times> epoll_server) result" where
  "epoll_drain fd [] s = Inr (ReadErr EAGAIN, s)"
| "epoll_drain fd (ReadErr e # rs) s = Inr (ReadErr e, s)"
| "epoll_drain fd (ReadData d # rs) s =
     (if d = [] then Inr (ReadData [], s)
      else if d = ''\<newline>'' then Inr (ReadData d, s)
      else then_do (block_reply BUFSIZE d) (\<lambda>t. epoll_drain fd rs (s\<lparr>ep_sent := ep_sent s @ [(fd, t)]\<rparr>)))"

text \<open>
  A client with an event.  After \<open>EAGAIN\<close> and after a reset (104) the descriptor stays watched; any
  other error ends the server; at end of file it is taken out and closed.
\<close>

definition epoll_client :: "(fd \<Rightarrow> read_result list) \<Rightarrow> fd \<Rightarrow> epoll_server \<Rightarrow> epoll_server run result" where
  "epoll_client rd fd s =
     then_do (epoll_drain fd (rd fd) s)
       (\<lambda>(r, s1). case r of
          ReadErr e \<Rightarrow>
            Inr (if e = EAGAIN then Going s1 else if e = ECONNRESET then Going s1 else MainReturned (-1) s1)
        | ReadData d \<Rightarrow>
            Inr (Going (if d = [] then s1\<lparr>watched := watched s1 - {fd}, ep_closed := ep_closed s1 @ [fd]\<rparr> else s1)))"

definition epoll_new :: "accept_ret \<Rightarrow> int \<Rightarrow> epoll_server \<Rightarrow> epoll_server run result" where
  "epoll_new a ctl s =
     (case a of
        AcceptFails _ \<Rightarrow> Inr (MainReturned (-1) s)
      | AcceptGives fd_c \<Rightarrow> Inr (Going (if ctl = 0 then s\<lparr>watched := insert fd_c (watched s)\<rparr> else s)))"

text \<open>
  The loop \<open>for(i = 0; i < ret; i++)\<close> over the events: accepting a client overwrites \<open>ret\<close>, the number
  of events, first with what \<open>fcntl\<close> and then with what \<open>epoll_ctl\<close> returns.
\<close>

fun epoll_loop :: "fd \<Rightarrow> epoll_turn \<Rightarrow> int \<Rightarrow> int \<Rightarrow> fd list \<Rightarrow> epoll_server \<Rightarrow> epoll_server run result" where
  "epoll_loop fd_s x i ret [] s = Inr (Going s)"
| "epoll_loop fd_s x i ret (e # es) s =
     (if i < ret then
        (if e = fd_s
         then go_on (epoll_new (ep_accept x) (ep_ctl x) s) (epoll_loop fd_s x (i + 1) (ep_ctl x) es)
         else go_on (epoll_client (ep_reads x) e s) (epoll_loop fd_s x (i + 1) ret es))
      else Inr (Going s))"

definition epoll_round :: "fd \<Rightarrow> epoll_turn \<Rightarrow> epoll_server \<Rightarrow> epoll_server run result" where
  "epoll_round fd_s x s =
     (case ep_events x of
        None \<Rightarrow> Inr (MainReturned (-1) s)
      | Some es \<Rightarrow> epoll_loop fd_s x 0 (int (length es)) es s)"

definition epoll_main :: "listen_calls \<Rightarrow> epoll_turn list \<Rightarrow> epoll_server run result" where
  "epoll_main c xs =
     (case open_listener c of
        Inl k \<Rightarrow> Inr (MainReturned k \<lparr>watched = {}, ep_sent = [], ep_closed = []\<rparr>)
      | Inr fd_s \<Rightarrow> run_all (epoll_round fd_s) xs \<lparr>watched = {fd_s}, ep_sent = [], ep_closed = []\<rparr>)"


subsection \<open>Events that are handled, and events that are lost\<close>

lemma epoll_loop_clients:
  assumes "fd_s \<notin> set es" and "i + int (length es) \<le> ret"
  shows "epoll_loop fd_s x i ret (es @ es') s
       = go_on (run_all (epoll_client (ep_reads x)) es s) (epoll_loop fd_s x (i + int (length es)) ret es')"
  using assms
proof (induction es arbitrary: i s)
  case (Cons e es)
  show ?case
  proof (cases "epoll_client (ep_reads x) e s")
    case (Inr r)
    with Cons show ?thesis by (cases r) (auto simp: algebra_simps)
  qed (use Cons.prems in auto)
qed simp

text \<open>
  The event loop of \<open>epoll.c\<close>: a batch of events with no new connection is handled whole, client
  by client in the order reported.  A batch in which the listening descriptor comes up is handled only
  up to it: accepting the client overwrites the number of events, and the events after it are
  dropped, whatever they are and whatever those clients have sent.  As clients are watched with edge
  triggering, the dropped events are not reported again.
\<close>

theorem epoll_accept_drops_events:
  assumes "fd_s \<notin> set pre" and "ep_ctl x \<in> {0, -1}"
  shows "epoll_round fd_s (x\<lparr>ep_events := Some pre\<rparr>) s = run_all (epoll_client (ep_reads x)) pre s
       \<and> epoll_round fd_s (x\<lparr>ep_events := Some (pre @ fd_s # post)\<rparr>) s
         = go_on (run_all (epoll_client (ep_reads x)) pre s) (epoll_new (ep_accept x) (ep_ctl x))"
proof -
  have stop: "epoll_loop fd_s y (int (length pre) + 1) (ep_ctl x) post = (\<lambda>s. Inr (Going s))" for y
    using assms(2) by (intro ext, cases post) auto
  have run_id: "go_on r (\<lambda>s. Inr (Going s)) = r" for r :: "epoll_server run result"
  proof (cases r)
    case (Inr q)
    then show ?thesis by (cases q) simp_all
  qed simp
  have "epoll_loop fd_s (x\<lparr>ep_events := Some (pre @ fd_s # post)\<rparr>) (int (length pre)) (int (length (pre @ fd_s # post)))
      (fd_s # post) = epoll_new (ep_accept x) (ep_ctl x)"
    by (rule ext) (simp add: stop run_id)
  then have "epoll_round fd_s (x\<lparr>ep_events := Some (pre @ fd_s # post)\<rparr>) s
         = go_on (run_all (epoll_client (ep_reads x)) pre s) (epoll_new (ep_accept x) (ep_ctl x))"
    using epoll_loop_clients [OF assms(1), of 0 "int (length (pre @ fd_s # post))" _ "fd_s # post"]
    by (simp add: epoll_round_def del: epoll_loop.simps)
  moreover have nil: "epoll_loop fd_s y i r [] = (\<lambda>s. Inr (Going s))" for y i r by (rule ext) simp
  have "epoll_round fd_s (x\<lparr>ep_events := Some pre\<rparr>) s = run_all (epoll_client (ep_reads x)) pre s"
    using epoll_loop_clients [OF assms(1), of 0 "int (length pre)" _ "[]"] by (simp add: epoll_round_def run_id nil)
  ultimately show ?thesis by blast
qed

theorem epoll_accept_drops_events_witness:
  "epoll_round 3 \<lparr>ep_events = Some [5, 3, 6], ep_accept = AcceptGives 7, ep_ctl = 0,
                   ep_reads = (\<lambda>fd. [ReadData ''abc''])\<rparr> \<lparr>watched = {3, 5, 6}, ep_sent = [], ep_closed = []\<rparr>
   = Inr (Going \<lparr>watched = {7, 3, 5, 6}, ep_sent = [(5, ''abc'' @ [NUL, NUL])], ep_closed = []\<rparr>)"
proof -
  have "block_reply BUFSIZE ''abc'' = Inr (''abc'' @ [NUL, NUL])"
    by (simp add: block_reply_def BUFSIZE_def cstr_at_def received_def numeral_2_eq_2)
  then show ?thesis
    using epoll_accept_drops_events [of 3 "[5]" "\<lparr>ep_events = None, ep_accept = AcceptGives 7, ep_ctl = 0,
        ep_reads = (\<lambda>fd. [ReadData ''abc''])\<rparr>" "\<lparr>watched = {3, 5, 6}, ep_sent = [], ep_closed = []\<rparr>" "[6]"]
    by (simp add: epoll_client_def epoll_new_def)
qed

text \<open>
  What a client sends comes back in blocks of five bytes, filled up with NULs, as long as the pieces
  are shorter than the array; a piece that fills it has no terminator and is printed past the end; a
  piece that is one newline stops the reading, and what comes after it stays unread.
\<close>

lemma epoll_drain_pieces:
  assumes "\<forall>d \<in> set ds. 0 < length d \<and> length d < BUFSIZE \<and> d \<noteq> ''\<newline>''"
  shows "epoll_drain fd (map ReadData ds @ rs) s
       = epoll_drain fd rs (s\<lparr>ep_sent := ep_sent s @ map (\<lambda>d. (fd, received BUFSIZE d)) ds\<rparr>)"
  using assms
proof (induction ds arbitrary: s)
  case (Cons d ds)
  then have "block_reply BUFSIZE d = Inr (received BUFSIZE d)" by (simp add: block_reply_def cstr_received)
  with Cons show ?case by auto
qed simp

lemma epoll_full_piece:
  assumes "length d = BUFSIZE" and "NUL \<notin> set d"
  shows "epoll_drain fd (ReadData d # rs) s = Inl OutOfBounds"
proof -
  have "block_reply BUFSIZE d = Inl OutOfBounds" using assms by (simp add: block_reply_def cstr_received)
  with assms show ?thesis by (auto simp: BUFSIZE_def)
qed

lemma epoll_newline_stops:
  "epoll_client (\<lambda>_. ReadData ''\<newline>'' # rs) fd s = Inr (Going s)"
  by (simp add: epoll_client_def)

lemma epoll_reset_stays_watched:
  assumes "rd fd = [ReadErr ECONNRESET]"
  shows "epoll_client rd fd s = Inr (Going s)"
  using assms by (simp add: epoll_client_def)

end
