(* ===== verification/Train_Threads.thy ===== *)
theory Train_Threads
  imports Interleaving
begin

text \<open>
  The programs of \<open>src/bck/train/chapter 3\<close> that show one thread call each: \<open>pthread_create.c\<close>,
  \<open>pthread_exit.c\<close>, \<open>pthread_detach.c\<close> and \<open>pthread_join.c\<close>.  All have a main thread (0) and the thread it
  creates (1); they differ in how the main thread ends.  A return from \<open>main\<close> ends the process and every
  thread in it; after \<open>pthread_exit\<close> in \<open>main\<close> the process lives until the other thread is over.  What
  \<open>pthread_create\<close> returns is an argument.
\<close>

section \<open>Two threads that print\<close>

datatype demo_line =
    Says string
  | Stored string
  | ShowIds
  | ShowPointer "string option"
  | ShowError int

datatype demo_child = NotCreated | ChildAt nat | ChildOver

datatype demo_main = DCreate | DError | DPrint nat | DSleep | DDetach | DPJoin | DExit | DExited | DReturned

text \<open>
  \<open>retstr\<close> is the pointer of \<open>pthread_join.c\<close>, \<open>None\<close> until it is set; \<open>bad_tid\<close> records that a call
  used the thread id although it was never set.
\<close>

record demo_state =
  demo_main :: demo_main
  demo_child :: demo_child
  demo_out :: "demo_line list"
  retstr :: "string option"
  detached :: bool
  bad_tid :: bool

definition demo_start :: demo_state where
  "demo_start = \<lparr>demo_main = DCreate, demo_child = NotCreated, demo_out = [], retstr = None, detached = False, bad_tid = False\<rparr>"

definition demo_prints :: "demo_line \<Rightarrow> demo_state \<Rightarrow> demo_state" where
  "demo_prints l s = s\<lparr>demo_out := demo_out s @ [l]\<rparr>"

text \<open>\<open>pthread_create\<close>: on success the new thread is at its first statement.\<close>

definition demo_create :: "int \<Rightarrow> demo_main \<Rightarrow> demo_main \<Rightarrow> demo_state \<Rightarrow> demo_state" where
  "demo_create ret ok failed s =
     (if ret = 0 then s\<lparr>demo_child := ChildAt 0, demo_main := ok\<rparr> else s\<lparr>demo_main := failed\<rparr>)"

text \<open>The created thread prints the lines \<open>ls\<close> and is over.\<close>

definition demo_callback :: "demo_line list \<Rightarrow> demo_state \<Rightarrow> demo_state option" where
  "demo_callback ls s =
     (case demo_child s of
        ChildAt k \<Rightarrow>
          (if k < length ls then Some (demo_prints (ls ! k) (s\<lparr>demo_child := ChildAt (k + 1)\<rparr>))
           else Some (s\<lparr>demo_child := ChildOver\<rparr>))
      | _ \<Rightarrow> None)"

text \<open>One step of a thread; nothing runs once \<open>main\<close> has returned.\<close>

definition demo_step :: "(demo_state \<Rightarrow> demo_state option) \<Rightarrow> demo_line list \<Rightarrow> nat \<Rightarrow> demo_state \<Rightarrow> demo_state option" where
  "demo_step main ls t s =
     (if demo_main s = DReturned \<or> bad_tid s then None
      else if t = 0 then main s else if t = 1 then demo_callback ls s else None)"


section \<open>The four programs\<close>

definition create_lines :: "demo_line list" where
  "create_lines = [Says ''child pthread running...\<newline>'', Says ''this is ARG\<newline>'']"

definition create_main :: "int \<Rightarrow> demo_state \<Rightarrow> demo_state option" where
  "create_main ret s =
     (case demo_main s of
        DCreate \<Rightarrow> Some (demo_create ret DSleep DSleep s)
      | DSleep \<Rightarrow> Some (s\<lparr>demo_main := DReturned\<rparr>)
      | _ \<Rightarrow> None)"

definition exit_lines :: "demo_line list" where
  "exit_lines = [ShowIds]"

definition exit_main :: "int \<Rightarrow> demo_state \<Rightarrow> demo_state option" where
  "exit_main ret s =
     (case demo_main s of
        DCreate \<Rightarrow> Some (demo_create ret (DPrint 0) DError s)
      | DError \<Rightarrow> Some (demo_prints (ShowError ret) (s\<lparr>demo_main := DPrint 0\<rparr>))
      | DPrint k \<Rightarrow> Some (demo_prints ShowIds (s\<lparr>demo_main := (if k = 0 then DPrint 1 else DExit)\<rparr>))
      | DExit \<Rightarrow> Some (s\<lparr>demo_main := DExited\<rparr>)
      | _ \<Rightarrow> None)"

text \<open>The texts of \<open>pthread_detach.c\<close> and \<open>pthread_join.c\<close> in UTF-8.\<close>

definition detach_text :: string where
  "detach_text = map char_of [0xE5 :: nat, 0xAD, 0x90, 0xE7, 0xBA, 0xBF, 0xE7, 0xA8, 0x8B]"

definition join_str :: string where
  "join_str = detach_text @ map char_of [0xE9 :: nat, 0x80, 0x80, 0xE5, 0x87, 0xBA]"

definition join_reclaimed :: string where
  "join_reclaimed = map char_of [0xE5 :: nat, 0x9B, 0x9E, 0xE6, 0x94, 0xB6] @ detach_text"

definition detach_lines :: "demo_line list" where
  "detach_lines = [Says (detach_text @ ''\<newline>'')]"

definition detach_main :: "int \<Rightarrow> demo_state \<Rightarrow> demo_state option" where
  "detach_main ret s =
     (case demo_main s of
        DCreate \<Rightarrow> Some (demo_create ret (DPrint 0) (DPrint 0) s)
      | DPrint k \<Rightarrow> Some (demo_prints ShowIds (s\<lparr>demo_main := DDetach\<rparr>))
      | DDetach \<Rightarrow> Some (if ret = 0 then s\<lparr>detached := True, demo_main := DExit\<rparr> else s\<lparr>bad_tid := True\<rparr>)
      | DExit \<Rightarrow> Some (s\<lparr>demo_main := DExited\<rparr>)
      | _ \<Rightarrow> None)"

definition join_lines :: "demo_line list" where
  "join_lines = [ShowPointer (Some join_str), Says (join_str @ ''\<newline>'')]"

text \<open>
  \<open>pthread_join\<close> waits for the end of the thread and stores the pointer it passed to \<open>pthread_exit\<close>.
  The first line printed shows \<open>retstr\<close> before it is set.
\<close>

definition join_main :: "int \<Rightarrow> demo_state \<Rightarrow> demo_state option" where
  "join_main ret s =
     (case demo_main s of
        DCreate \<Rightarrow> Some (demo_create ret (DPrint 0) DError s)
      | DError \<Rightarrow> Some (demo_prints (ShowError ret) (s\<lparr>demo_main := DPrint 0\<rparr>))
      | DPJoin \<Rightarrow>
          (if ret \<noteq> 0 then Some (s\<lparr>bad_tid := True\<rparr>)
           else if demo_child s = ChildOver then Some (s\<lparr>retstr := Some join_str, demo_main := DPrint 1\<rparr>) else None)
      | DPrint k \<Rightarrow>
          (if k = 0 then Some (demo_prints (ShowPointer (retstr s)) (s\<lparr>demo_main := DPJoin\<rparr>))
           else if k = 1 then Some (demo_prints (ShowPointer (retstr s)) (s\<lparr>demo_main := DPrint 2\<rparr>))
           else if k < 4 then Some (demo_prints (Stored (the (retstr s))) (s\<lparr>demo_main := DPrint (k + 1)\<rparr>))
           else Some (demo_prints (Says (join_reclaimed @ ''\<newline>'')) (s\<lparr>demo_main := DExit\<rparr>)))
      | DExit \<Rightarrow> Some (s\<lparr>demo_main := DExited\<rparr>)
      | _ \<Rightarrow> None)"


section \<open>What they print\<close>

lemma snoc_in_shuffles: "ys @ [x] \<in> shuffles [x] ys"
  by (induction ys) simp_all

lemma shuffles_snoc: "zs \<in> shuffles xs ys \<Longrightarrow> zs @ [x] \<in> shuffles (xs @ [x]) ys"
  by (induction xs ys arbitrary: zs rule: shuffles.induct) (auto simp: snoc_in_shuffles)

lemma shuffles_snoc_right: "zs \<in> shuffles xs ys \<Longrightarrow> zs @ [x] \<in> shuffles xs (ys @ [x])"
  using shuffles_snoc by (metis shuffles_commutes)

text \<open>What the created thread has printed, and how far it is from its end.\<close>

fun child_said :: "demo_line list \<Rightarrow> demo_child \<Rightarrow> demo_line list" where
  "child_said ls NotCreated = []"
| "child_said ls (ChildAt k) = take k ls"
| "child_said ls ChildOver = ls"

fun child_work :: "demo_line list \<Rightarrow> demo_child \<Rightarrow> nat" where
  "child_work ls NotCreated = length ls + 2"
| "child_work ls (ChildAt k) = length ls - k + 1"
| "child_work ls ChildOver = 0"

text \<open>
  What is asked of the main thread of such a program: \<open>before\<close> and \<open>after\<close> are the lines it has printed
  at a place of its code, those that may mix with the lines of the other thread and those it prints
  when that thread is over.
\<close>

locale demo_program =
  fixes main :: "demo_state \<Rightarrow> demo_state option"
    and ls :: "demo_line list"
    and before after :: "demo_main \<Rightarrow> demo_line list"
    and main_work :: "demo_main \<Rightarrow> nat"
    and ok :: "demo_state \<Rightarrow> bool"
  assumes nothing_said: "before DCreate = []" "after DCreate = []"
    and ok_start: "ok demo_start"
    and ok_main: "ok s \<Longrightarrow> main s = Some s' \<Longrightarrow> ok s'"
    and ok_callback: "ok s \<Longrightarrow> demo_callback ls s = Some s' \<Longrightarrow> ok s'"
    and main_creates: "ok s \<Longrightarrow> main s = Some s' \<Longrightarrow>
      demo_child s' = demo_child s \<or> demo_child s = NotCreated \<and> demo_child s' = ChildAt 0"
    and main_prints: "ok s \<Longrightarrow> main s = Some s' \<Longrightarrow>
      (\<exists>b a. before (demo_main s') = before (demo_main s) @ b \<and> after (demo_main s') = after (demo_main s) @ a \<and>
         demo_out s' = demo_out s @ b @ a \<and> length (b @ a) \<le> 1 \<and>
         (b = [] \<or> after (demo_main s) = []) \<and> (a = [] \<or> demo_child s = ChildOver))"
    and main_advances: "main s = Some s' \<Longrightarrow> bad_tid s' \<or> main_work (demo_main s') < main_work (demo_main s)"
begin

definition demo_inv :: "demo_state \<Rightarrow> bool" where
  "demo_inv s \<longleftrightarrow> ok s \<and> (after (demo_main s) = [] \<or> demo_child s = ChildOver) \<and>
     (\<exists>xs \<in> shuffles (child_said ls (demo_child s)) (before (demo_main s)). demo_out s = xs @ after (demo_main s))"

definition demo_work :: "demo_state \<Rightarrow> nat" where
  "demo_work s = (if bad_tid s then 0 else 1 + main_work (demo_main s) + child_work ls (demo_child s))"

lemma main_keeps:
  assumes inv: "demo_inv s" and m: "main s = Some s'"
  shows "demo_inv s'"
proof -
  from inv obtain xs where xs: "xs \<in> shuffles (child_said ls (demo_child s)) (before (demo_main s))"
      "demo_out s = xs @ after (demo_main s)" and ok: "ok s"
    and over: "after (demo_main s) = [] \<or> demo_child s = ChildOver" by (auto simp: demo_inv_def)
  have said: "child_said ls (demo_child s') = child_said ls (demo_child s)" "demo_child s = ChildOver \<longrightarrow> demo_child s' = ChildOver"
    using main_creates [OF ok m] by auto
  from main_prints [OF ok m] obtain b a where ba: "before (demo_main s') = before (demo_main s) @ b"
    "after (demo_main s') = after (demo_main s) @ a" "demo_out s' = demo_out s @ b @ a" "length (b @ a) \<le> 1"
    "b = [] \<or> after (demo_main s) = []" "a = [] \<or> demo_child s = ChildOver" by blast
  show ?thesis
  proof (cases b)
    case Nil
    with xs ba said ok_main [OF ok m] over show ?thesis by (auto simp: demo_inv_def)
  next
    case (Cons x b')
    with ba have "b = [x]" "a = []" by simp_all
    with xs ba said ok_main [OF ok m] shuffles_snoc_right [OF xs(1), of x] show ?thesis by (auto simp: demo_inv_def)
  qed
qed

lemma callback_keeps:
  assumes inv: "demo_inv s" and m: "demo_callback ls s = Some s'"
  shows "demo_inv s'"
proof -
  from m obtain k where k: "demo_child s = ChildAt k" by (auto simp: demo_callback_def split: demo_child.splits)
  with inv have xs: "demo_out s \<in> shuffles (take k ls) (before (demo_main s))" "after (demo_main s) = []" "ok s"
    by (auto simp: demo_inv_def)
  from ok_callback [OF xs(3) m] have ok: "ok s'" .
  show ?thesis
  proof (cases "k < length ls")
    case True
    then show ?thesis using m k xs(1,2) ok shuffles_snoc [OF xs(1), of "ls ! k"]
      by (auto simp: demo_inv_def demo_callback_def demo_prints_def take_Suc_conv_app_nth)
  next
    case False
    then show ?thesis using m k xs(1,2) ok by (auto simp: demo_inv_def demo_callback_def)
  qed
qed

lemma step_cases:
  assumes "demo_step main ls t s = Some s'"
  shows "\<not> bad_tid s \<and> (main s = Some s' \<or> demo_callback ls s = Some s')"
  using assms by (auto simp: demo_step_def split: if_splits)

end

sublocale demo_program \<subseteq> threads: bounded_threads "demo_step main ls" demo_start demo_inv demo_work
proof unfold_locales
  show "demo_inv demo_start" using ok_start nothing_said by (simp add: demo_inv_def) (simp add: demo_start_def)
next
  fix s s' and t :: nat
  assume inv: "demo_inv s" and step: "demo_step main ls t s = Some s'"
  from step_cases [OF step] inv show "demo_inv s'" by (auto intro: main_keeps callback_keeps)
  have "demo_callback ls s = Some s' \<Longrightarrow> demo_main s' = demo_main s \<and> child_work ls (demo_child s') < child_work ls (demo_child s)"
    by (auto simp: demo_callback_def demo_prints_def split: demo_child.splits if_splits)
  moreover have "main s = Some s' \<Longrightarrow> child_work ls (demo_child s') \<le> child_work ls (demo_child s)"
    using main_creates [of s s'] inv by (auto simp: demo_inv_def)
  ultimately show "demo_work s' < demo_work s"
    using step_cases [OF step] main_advances [of s s'] by (fastforce simp: demo_work_def)
qed

context demo_program
begin

text \<open>At the end of a run neither thread can go on.\<close>

lemma at_end:
  assumes "reachable (demo_step main ls) demo_start s" and "at_rest (demo_step main ls) s"
  shows "ok s" "demo_main s = DReturned \<or> bad_tid s \<or> main s = None \<and> (demo_child s = NotCreated \<or> demo_child s = ChildOver)"
    "\<exists>xs \<in> shuffles (child_said ls (demo_child s)) (before (demo_main s)). demo_out s = xs @ after (demo_main s)"
proof -
  have "demo_step main ls 0 s = None" "demo_step main ls 1 s = None" using assms(2) by (simp_all add: at_rest_def)
  then show "demo_main s = DReturned \<or> bad_tid s \<or> main s = None \<and> (demo_child s = NotCreated \<or> demo_child s = ChildOver)"
    by (auto simp: demo_step_def demo_callback_def split: if_splits demo_child.splits)
  from threads.always [OF assms(1)] show "ok s"
    "\<exists>xs \<in> shuffles (child_said ls (demo_child s)) (before (demo_main s)). demo_out s = xs @ after (demo_main s)"
    by (simp_all add: demo_inv_def)
qed

lemma ends:
  "run_schedule (demo_step main ls) ts demo_start = Some s \<Longrightarrow> length ts \<le> main_work DCreate + length ls + 3"
  using threads.schedule_bounded [of ts s] by (simp add: demo_work_def) (simp add: demo_start_def)

end

text \<open>The places of the main thread that a program with the created thread still missing can be at.\<close>

definition demo_at :: "int \<Rightarrow> demo_main set \<Rightarrow> demo_state \<Rightarrow> bool" where
  "demo_at ret places s \<longleftrightarrow> demo_main s \<in> places \<and> (demo_main s = DCreate \<longrightarrow> demo_child s = NotCreated) \<and>
     (demo_main s = DError \<longrightarrow> ret \<noteq> 0) \<and> (ret = 0 \<and> demo_main s \<noteq> DCreate \<longrightarrow> demo_child s \<noteq> NotCreated) \<and>
     (bad_tid s \<longrightarrow> ret \<noteq> 0)"

lemma callback_frame:
  "demo_callback ls s = Some s' \<Longrightarrow> demo_main s' = demo_main s \<and> retstr s' = retstr s \<and> bad_tid s' = bad_tid s \<and>
     demo_child s \<noteq> ChildOver \<and> demo_child s \<noteq> NotCreated \<and> demo_child s' \<noteq> NotCreated"
  by (auto simp: demo_callback_def demo_prints_def split: demo_child.splits if_splits)

lemma demo_at_callback: "demo_at ret places s \<Longrightarrow> demo_callback ls s = Some s' \<Longrightarrow> demo_at ret places s'"
  by (auto simp: demo_at_def dest: callback_frame)

definition error_line :: "int \<Rightarrow> demo_line list" where
  "error_line ret = (if ret = 0 then [] else [ShowError ret])"

fun exit_said :: "int \<Rightarrow> demo_main \<Rightarrow> demo_line list" where
  "exit_said ret DCreate = []"
| "exit_said ret DError = []"
| "exit_said ret (DPrint k) = error_line ret @ (if k = 0 then [] else [ShowIds])"
| "exit_said ret _ = error_line ret @ [ShowIds, ShowIds]"

fun exit_work :: "demo_main \<Rightarrow> nat" where
  "exit_work DCreate = 5"
| "exit_work DError = 4"
| "exit_work (DPrint k) = (if k = 0 then 3 else 2)"
| "exit_work DExit = 1"
| "exit_work _ = 0"

interpretation exit_demo: demo_program "exit_main ret" exit_lines "exit_said ret" "\<lambda>_. []" exit_work
  "demo_at ret {DCreate, DError, DPrint 0, DPrint 1, DExit, DExited}" for ret
proof unfold_locales
  fix s s' :: demo_state
  let ?ok = "demo_at ret {DCreate, DError, DPrint 0, DPrint 1, DExit, DExited}"
  show "?ok demo_start" by (simp add: demo_at_def demo_start_def)
  show "exit_main ret s = Some s' \<Longrightarrow> bad_tid s' \<or> exit_work (demo_main s') < exit_work (demo_main s)"
    by (auto simp: exit_main_def demo_create_def demo_prints_def split: demo_main.splits if_splits)
  assume ok: "?ok s"
  then show "demo_callback exit_lines s = Some s' \<Longrightarrow> ?ok s'" by (rule demo_at_callback)
  assume m: "exit_main ret s = Some s'"
  show "?ok s'" using ok m by (auto simp: demo_at_def exit_main_def demo_create_def demo_prints_def split: demo_main.splits if_splits)
  show "demo_child s' = demo_child s \<or> demo_child s = NotCreated \<and> demo_child s' = ChildAt 0"
    using ok m by (auto simp: demo_at_def exit_main_def demo_create_def demo_prints_def split: demo_main.splits if_splits)
  show "\<exists>b a. exit_said ret (demo_main s') = exit_said ret (demo_main s) @ b \<and> [] = [] @ a \<and>
      demo_out s' = demo_out s @ b @ a \<and> length (b @ a) \<le> 1 \<and> (b = [] \<or> [] = []) \<and> (a = [] \<or> demo_child s = ChildOver)"
    using ok m
    by (auto simp: demo_at_def exit_main_def demo_create_def demo_prints_def error_line_def split: demo_main.splits if_splits)
qed simp_all

text \<open>
  After \<open>pthread_exit\<close> in \<open>main\<close> the created thread still gets to its end: every run of
  \<open>pthread_exit.c\<close> ends within nine steps, with both threads over and their lines printed in some mix.
\<close>

theorem exit_demo_prints_all:
  assumes "reachable (demo_step (exit_main 0) exit_lines) demo_start s" and "at_rest (demo_step (exit_main 0) exit_lines) s"
  shows "demo_main s = DExited \<and> demo_child s = ChildOver \<and> demo_out s = [ShowIds, ShowIds, ShowIds]"
  using exit_demo.at_end [OF assms]
  by (auto simp: demo_at_def exit_main_def exit_lines_def error_line_def split: demo_main.splits)

lemma exit_demo_ends: "run_schedule (demo_step (exit_main ret) exit_lines) ts demo_start = Some s \<Longrightarrow> length ts \<le> 9"
  using exit_demo.ends [of ret ts s] by (simp add: exit_lines_def)

text \<open>\<open>pthread_detach.c\<close>: the same, for the thread that is detached first.\<close>

fun detach_said :: "demo_main \<Rightarrow> demo_line list" where
  "detach_said DCreate = []"
| "detach_said (DPrint k) = []"
| "detach_said _ = [ShowIds]"

fun detach_work :: "demo_main \<Rightarrow> nat" where
  "detach_work DCreate = 4"
| "detach_work (DPrint k) = 3"
| "detach_work DDetach = 2"
| "detach_work DExit = 1"
| "detach_work _ = 0"

lemmas detach_unfold = detach_main_def demo_create_def demo_prints_def

interpretation detach_demo: demo_program "detach_main ret" detach_lines detach_said "\<lambda>_. []" detach_work
  "demo_at ret {DCreate, DPrint 0, DDetach, DExit, DExited}" for ret
proof unfold_locales
  fix s s' :: demo_state
  let ?ok = "demo_at ret {DCreate, DPrint 0, DDetach, DExit, DExited}"
  show "?ok demo_start" by (simp add: demo_at_def demo_start_def)
  show "detach_main ret s = Some s' \<Longrightarrow> bad_tid s' \<or> detach_work (demo_main s') < detach_work (demo_main s)"
    by (auto simp: detach_unfold split: demo_main.splits if_splits)
  assume ok: "?ok s"
  then show "demo_callback detach_lines s = Some s' \<Longrightarrow> ?ok s'" by (rule demo_at_callback)
  assume m: "detach_main ret s = Some s'"
  show "?ok s'" using ok m by (auto simp: demo_at_def detach_unfold split: demo_main.splits if_splits)
  show "demo_child s' = demo_child s \<or> demo_child s = NotCreated \<and> demo_child s' = ChildAt 0"
    using ok m by (auto simp: demo_at_def detach_unfold split: demo_main.splits if_splits)
  show "\<exists>b a. detach_said (demo_main s') = detach_said (demo_main s) @ b \<and> [] = [] @ a \<and>
      demo_out s' = demo_out s @ b @ a \<and> length (b @ a) \<le> 1 \<and> (b = [] \<or> [] = []) \<and> (a = [] \<or> demo_child s = ChildOver)"
    using ok m by (auto simp: demo_at_def detach_unfold split: demo_main.splits if_splits)
qed simp_all

theorem detach_demo_prints_all:
  assumes "reachable (demo_step (detach_main 0) detach_lines) demo_start s" and "at_rest (demo_step (detach_main 0) detach_lines) s"
  shows "demo_main s = DExited \<and> demo_child s = ChildOver \<and> demo_out s \<in> shuffles detach_lines [ShowIds]"
  using detach_demo.at_end [OF assms] by (auto simp: demo_at_def detach_main_def split: demo_main.splits)

text \<open>A failed \<open>pthread_create\<close> goes unnoticed, and \<open>pthread_detach\<close> is given an id that was never set.\<close>

lemma detach_demo_bad_tid:
  assumes "ret \<noteq> 0"
  shows "\<exists>s. reachable (demo_step (detach_main ret) detach_lines) demo_start s \<and> bad_tid s"
proof -
  have "\<exists>s. run_schedule (demo_step (detach_main ret) detach_lines) [0, 0, 0] demo_start = Some s \<and> bad_tid s"
    using assms by (simp add: demo_step_def demo_start_def detach_unfold)
  then show ?thesis by (metis run_schedule_reachable reachable_init)
qed

text \<open>\<open>pthread_join.c\<close>.\<close>

fun join_before :: "int \<Rightarrow> demo_main \<Rightarrow> demo_line list" where
  "join_before ret DCreate = []"
| "join_before ret DError = []"
| "join_before ret (DPrint k) = error_line ret @ (if k = 0 then [] else [ShowPointer None])"
| "join_before ret _ = error_line ret @ [ShowPointer None]"

definition join_report :: "demo_line list" where
  "join_report = [ShowPointer (Some join_str), Stored join_str, Stored join_str, Says (join_reclaimed @ ''\<newline>'')]"

fun join_after :: "demo_main \<Rightarrow> demo_line list" where
  "join_after (DPrint k) = take (k - 1) join_report"
| "join_after DExit = join_report"
| "join_after DExited = join_report"
| "join_after _ = []"

fun join_work :: "demo_main \<Rightarrow> nat" where
  "join_work DCreate = 9"
| "join_work DError = 8"
| "join_work (DPrint k) = (if k = 0 then 7 else if k < 4 then 6 - k else 2)"
| "join_work DPJoin = 6"
| "join_work DExit = 1"
| "join_work _ = 0"

fun join_place :: "demo_main \<Rightarrow> bool" where
  "join_place (DPrint k) = (k \<le> 4)"
| "join_place p = (p \<in> {DCreate, DError, DPJoin, DExit, DExited})"

fun joined :: "demo_main \<Rightarrow> bool" where
  "joined (DPrint k) = (0 < k)"
| "joined p = (p \<in> {DExit, DExited})"

definition join_ok :: "int \<Rightarrow> demo_state \<Rightarrow> bool" where
  "join_ok ret s \<longleftrightarrow> demo_at ret (Collect join_place) s \<and>
     (if joined (demo_main s) then retstr s = Some join_str \<and> demo_child s = ChildOver else retstr s = None)"

lemmas join_unfold = join_main_def demo_create_def demo_prints_def

lemma join_ok_callback: "join_ok ret s \<Longrightarrow> demo_callback ls s = Some s' \<Longrightarrow> join_ok ret s'"
  using callback_frame [of ls s s'] demo_at_callback [of ret _ s ls s'] unfolding join_ok_def by metis

interpretation join_demo: demo_program "join_main ret" join_lines "join_before ret" join_after join_work "join_ok ret" for ret
proof unfold_locales
  fix s s' :: demo_state
  show "join_ok ret demo_start" by (simp add: join_ok_def demo_at_def demo_start_def)
  show "join_main ret s = Some s' \<Longrightarrow> bad_tid s' \<or> join_work (demo_main s') < join_work (demo_main s)"
    by (auto simp: join_unfold split: demo_main.splits if_splits)
  assume ok: "join_ok ret s"
  then show "demo_callback join_lines s = Some s' \<Longrightarrow> join_ok ret s'" by (rule join_ok_callback)
  assume m: "join_main ret s = Some s'"
  from m ok show "join_ok ret s'"
    by (cases "demo_main s") (auto simp: join_ok_def demo_at_def join_unfold split: if_splits)
  from m ok show "demo_child s' = demo_child s \<or> demo_child s = NotCreated \<and> demo_child s' = ChildAt 0"
    by (cases "demo_main s") (auto simp: join_ok_def demo_at_def join_unfold split: if_splits)
  show "\<exists>b a. join_before ret (demo_main s') = join_before ret (demo_main s) @ b \<and>
      join_after (demo_main s') = join_after (demo_main s) @ a \<and> demo_out s' = demo_out s @ b @ a \<and> length (b @ a) \<le> 1 \<and>
      (b = [] \<or> join_after (demo_main s) = []) \<and> (a = [] \<or> demo_child s = ChildOver)"
  proof (cases "demo_main s")
    case (DPrint k)
    with ok have k: "k = 0 \<or> k = 1 \<or> k = 2 \<or> k = 3 \<or> k = 4" by (auto simp: join_ok_def demo_at_def)
    then show ?thesis using m ok DPrint
      by (elim disjE) (auto simp: join_ok_def join_unfold join_report_def)
  qed (use m ok in \<open>auto simp: join_ok_def demo_at_def join_unfold error_line_def split: if_splits\<close>)
qed simp_all

text \<open>
  Joining puts the report behind everything the thread prints: every complete run of \<open>pthread_join.c\<close> ends with
  the pointer the thread left, its text twice and the line about the reclaimed thread, after a mix of the
  thread's own lines with the line that shows the pointer unset.
\<close>

theorem join_demo_reports:
  assumes "reachable (demo_step (join_main 0) join_lines) demo_start s" and "at_rest (demo_step (join_main 0) join_lines) s"
  shows "demo_main s = DExited \<and> demo_child s = ChildOver \<and>
    (\<exists>xs \<in> shuffles join_lines [ShowPointer None]. demo_out s = xs @ join_report)"
  using join_demo.at_end [OF assms]
  by (auto simp: join_ok_def demo_at_def join_main_def error_line_def split: demo_main.splits if_splits)

text \<open>
  \<open>pthread_create.c\<close> only sleeps before it returns, and time is no order of steps: a run may print both
  lines of the thread, one, or none.
\<close>

theorem create_demo_may_lose_lines:
  assumes "k \<le> 2"
  shows "\<exists>s. reachable (demo_step (create_main 0) create_lines) demo_start s \<and> demo_main s = DReturned \<and> demo_out s = take k create_lines"
proof -
  let ?run = "\<lambda>ts. run_schedule (demo_step (create_main 0) create_lines) ts demo_start"
  have "\<exists>s. ?run (0 # replicate k 1 @ [0]) = Some s \<and> demo_main s = DReturned \<and> demo_out s = take k create_lines"
  proof -
    note unfold = demo_step_def demo_start_def create_main_def demo_create_def demo_callback_def demo_prints_def create_lines_def
    from assms consider "k = 0" | "k = 1" | "k = 2" by linarith
    then show ?thesis by cases (simp_all add: unfold numeral_2_eq_2)
  qed
  then show ?thesis by (metis run_schedule_reachable reachable_init)
qed

end
