(* ===== verification/Train_Timer.thy ===== *)
theory Train_Timer
  imports Train_Echo
begin

unbundle bit_operations_syntax

text \<open>
  The programs of \<open>src/bck/train/chapter 1&2\<close> around a timer, \<open>settimer.c\<close> and \<open>daemon.c\<close>, and around
  \<open>fork\<close>, \<open>fork.c\<close> and \<open>wait.c\<close>.  Time goes by in seconds; what the system calls return is an argument.
\<close>

section \<open>The interval timer\<close>

text \<open>The members \<open>tv_sec\<close> of \<open>it_value\<close> and \<open>it_interval\<close>; 0 seconds left is a timer that is off.\<close>

record itimer =
  it_value :: nat
  it_interval :: nat

text \<open>One second: whether \<open>SIGALRM\<close> is sent, and what is left.\<close>

definition itimer_tick :: "itimer \<Rightarrow> bool \<times> itimer" where
  "itimer_tick t =
     (if it_value t = 0 then (False, t)
      else if it_value t = 1 then (True, t\<lparr>it_value := it_interval t\<rparr>)
      else (False, t\<lparr>it_value := it_value t - 1\<rparr>))"

text \<open>A timer of \<open>v\<close> and then every \<open>i\<close> seconds, after \<open>n\<close> of them.\<close>

definition timer_after :: "nat \<Rightarrow> nat \<Rightarrow> nat \<Rightarrow> itimer" where
  "timer_after v i n = \<lparr>it_value = (if n < v then v - n else i - (n - v) mod i), it_interval = i\<rparr>"

definition rings_at :: "nat \<Rightarrow> nat \<Rightarrow> nat \<Rightarrow> bool" where
  "rings_at v i n \<longleftrightarrow> v \<le> n \<and> (n - v) mod i = 0"

lemma itimer_tick_after:
  assumes "0 < v" and "0 < i"
  shows "itimer_tick (timer_after v i n) = (rings_at v i (n + 1), timer_after v i (n + 1))"
proof (cases "n < v")
  case True
  with assms show ?thesis by (auto simp: itimer_tick_def timer_after_def rings_at_def)
next
  case False
  define m where "m = (n - v) mod i"
  have m: "m < i" using assms(2) by (simp add: m_def)
  have next_m: "(n + 1 - v) mod i = (if m + 1 = i then 0 else m + 1)"
    using False by (simp add: m_def mod_Suc Suc_diff_le)
  from False m next_m show ?thesis
    by (auto simp: itimer_tick_def timer_after_def rings_at_def m_def)
qed


section \<open>\<open>settimer.c\<close>\<close>

record settimer =
  st_timer :: itimer
  st_lines :: nat
  st_over :: bool

text \<open>
  A second in \<open>getchar\<close>.  A key ends it; so does the signal, after its handler has printed a line: without
  \<open>SA_RESTART\<close> in \<open>sa_flags\<close> the \<open>read\<close> below \<open>getchar\<close> fails with \<open>EINTR\<close>, and \<open>getchar\<close> returns \<open>EOF\<close>.
\<close>

definition settimer_second :: "bool \<Rightarrow> settimer \<Rightarrow> settimer" where
  "settimer_second key s =
     (if st_over s then s
      else if key then s\<lparr>st_over := True\<rparr>
      else case itimer_tick (st_timer s) of
             (rings, t) \<Rightarrow> if rings then s\<lparr>st_timer := t, st_lines := st_lines s + 1, st_over := True\<rparr> else s\<lparr>st_timer := t\<rparr>)"

definition settimer_main :: "int \<Rightarrow> bool list \<Rightarrow> settimer" where
  "settimer_main ret keys =
     (let s = \<lparr>st_timer = \<lparr>it_value = 3, it_interval = 2\<rparr>, st_lines = 0, st_over = False\<rparr>
      in if ret = -1 then s\<lparr>st_over := True\<rparr> else fold settimer_second keys s)"

lemma settimer_over: "st_over s \<Longrightarrow> fold settimer_second keys s = s"
  by (induction keys) (simp_all add: settimer_second_def)

text \<open>
  The timer is set to ring every two seconds, and the program ends with the first ring: it prints one line
  if no key comes in the first three seconds, and none otherwise.
\<close>

theorem settimer_rings_once:
  assumes "ret \<noteq> -1"
  shows "settimer_main ret (k1 # k2 # k3 # keys) =
    settimer_main ret [k1, k2, k3] \<and> st_over (settimer_main ret [k1, k2, k3]) \<and>
    st_lines (settimer_main ret [k1, k2, k3]) = (if k1 \<or> k2 \<or> k3 then 0 else 1)"
proof -
  have "st_over (settimer_main ret [k1, k2, k3])"
    "st_lines (settimer_main ret [k1, k2, k3]) = (if k1 \<or> k2 \<or> k3 then 0 else 1)"
    using assms by (simp_all add: settimer_main_def settimer_second_def itimer_tick_def Let_def)
  moreover have "settimer_main ret (k1 # k2 # k3 # keys) = fold settimer_second keys (settimer_main ret [k1, k2, k3])"
    using assms by (simp add: settimer_main_def Let_def)
  ultimately show ?thesis using settimer_over by simp
qed


section \<open>\<open>daemon.c\<close>\<close>

text \<open>
  The process: whether it leads a session of its own, its mask and directory, where its standard
  descriptors go, what has appeared on the terminal, and the file \<open>time.txt\<close> with its permissions.
\<close>

datatype daemon_out = ToTerminal | ToNull

datatype daemon_line = ParentExits | WaitsForSignal | TimerStarted | LoopLine | HandlerEntered | TimeText string

record daemon =
  d_session :: bool
  d_umask :: nat
  d_cwd :: string
  d_stdout :: daemon_out
  d_terminal :: "daemon_line list"
  d_handler :: bool
  d_timer :: itimer
  d_file :: "(nat \<times> string) option"

definition daemon_print :: "daemon_line \<Rightarrow> daemon \<Rightarrow> daemon" where
  "daemon_print l s = (if d_stdout s = ToTerminal then s\<lparr>d_terminal := d_terminal s @ [l]\<rparr> else s)"

definition daemon_set_up :: "bool \<Rightarrow> int \<Rightarrow> daemon \<Rightarrow> daemon" where
  "daemon_set_up setsid_ok null_fd s =
     (let s1 = s\<lparr>d_session := setsid_ok, d_umask := 18, d_cwd := ''/home/thatchlobe''\<rparr>
      in if null_fd \<ge> 0 then s1\<lparr>d_stdout := ToNull\<rparr> else s1)"

text \<open>
  \<open>main\<close> up to its loop: only a positive result of \<open>fork\<close> makes it exit, so with a failed \<open>fork\<close> the
  original process goes on as the daemon.  \<open>setsid\<close> then fails if it leads its process group.
\<close>

definition daemon_main :: "int \<Rightarrow> bool \<Rightarrow> int \<Rightarrow> int \<Rightarrow> int \<Rightarrow> daemon \<Rightarrow> daemon run" where
  "daemon_main pid setsid_ok null_fd sigaction_ret setitimer_ret s =
     (if pid > 0 then MainReturned 0 (daemon_print ParentExits s)
      else
        let s1 = daemon_set_up setsid_ok null_fd s
        in if sigaction_ret = -1 then MainReturned (-1) s1
           else
             let s2 = daemon_print WaitsForSignal (s1\<lparr>d_handler := True\<rparr>)
             in if setitimer_ret = -1 then MainReturned (-1) s2
                else Going (daemon_print TimerStarted (s2\<lparr>d_timer := \<lparr>it_value = 1, it_interval = 2\<rparr>\<rparr>)))"

text \<open>
  The handler \<open>timesir\<close> at time \<open>t\<close>: \<open>asc\<close> is \<open>asctime\<close> of \<open>localtime\<close>, \<open>None\<close> where the latter gives null.
  A missing file is made with the mode 0664 (436) less the bits of the mask; if it cannot be opened the
  line is lost.
\<close>

definition mode_under :: "nat \<Rightarrow> nat \<Rightarrow> nat" where
  "mode_under um mode = unat ((of_nat mode :: 16 word) AND NOT (of_nat um))"

definition timesir :: "(int \<Rightarrow> string option) \<Rightarrow> bool \<Rightarrow> int \<Rightarrow> daemon \<Rightarrow> daemon result" where
  "timesir asc opens t s =
     (let s1 = daemon_print HandlerEntered s
      in case asc t of
           None \<Rightarrow> Inl NullDeref
         | Some str \<Rightarrow>
             let (mode, old) = (case d_file s1 of None \<Rightarrow> (mode_under (d_umask s1) 436, []) | Some f \<Rightarrow> f);
                 s2 = (if opens then s1\<lparr>d_file := Some (mode, old @ str)\<rparr> else s1)
             in Inr (daemon_print (TimeText str) s2))"

text \<open>
  A second of the loop, which prints a line and sleeps; the handler runs when the timer rings.  (It also cuts the
  sleep short, which only moves the next line.)
\<close>

definition daemon_second :: "(int \<Rightarrow> string option) \<Rightarrow> (bool \<times> int) \<Rightarrow> daemon \<Rightarrow> daemon result" where
  "daemon_second asc x s =
     (case itimer_tick (d_timer s) of
        (rings, tm) \<Rightarrow>
          let s1 = daemon_print LoopLine (s\<lparr>d_timer := tm\<rparr>)
          in if rings then timesir asc (fst x) (snd x) s1 else Inr s1)"

lemma fold_result_snoc:
  "fold_result f (xs @ [x]) s = (case fold_result f xs s of Inl e \<Rightarrow> Inl e | Inr s' \<Rightarrow> f x s')"
  by (induction xs arbitrary: s) (auto split: sum.splits)

lemma daemon_print_null [simp]: "d_stdout s = ToNull \<Longrightarrow> daemon_print l s = s"
  by (simp add: daemon_print_def)

lemma daemon_second_quiet:
  assumes "d_stdout s = ToNull" and "d_timer s = timer_after 1 2 n" and "asc t = Some str"
    and "d_file s = Some f \<or> d_file s = None \<and> f = (mode_under (d_umask s) 436, [])"
  shows "daemon_second asc (True, t) s =
    Inr (s\<lparr>d_timer := timer_after 1 2 (n + 1), d_file := (if rings_at 1 2 (n + 1) then Some (fst f, snd f @ str) else d_file s)\<rparr>)"
  using assms itimer_tick_after [of 1 2 n]
  by (cases f) (auto simp: daemon_second_def timesir_def Let_def)

text \<open>
  Once the daemon is in its loop with its output redirected, nothing more appears on the terminal, and the file
  holds the text of the times at which the timer rang: the first second and every second one after it.
  It was made readable for everybody and writable for its owner.
\<close>

theorem daemon_writes_times:
  assumes "daemon_main 0 True null_fd 0 0 s0 = Going s" and "null_fd \<ge> 0" and "d_file s0 = None" and "\<And>t. asc t = Some (txt t)"
  shows "\<exists>s'. fold_result (daemon_second asc) (map (\<lambda>k. (True, t0 + int k)) [1..<n + 1]) s = Inr s' \<and>
    d_terminal s' = d_terminal s0 \<and> d_session s' \<and>
    (0 < n \<longrightarrow> d_file s' = Some (420, concat (map (\<lambda>k. txt (t0 + int k)) (filter (rings_at 1 2) [1..<n + 1]))))"
proof -
  let ?text = "\<lambda>n. concat (map (\<lambda>k. txt (t0 + int k)) (filter (rings_at 1 2) [1..<n + 1]))"
  let ?at = "\<lambda>n. s\<lparr>d_timer := timer_after 1 2 n, d_file := (if n = 0 then None else Some (420, ?text n))\<rparr>"
  have s: "d_stdout s = ToNull" "d_terminal s = d_terminal s0" "d_session s" "d_umask s = 18" "s = ?at 0"
    using assms(1-3) by (auto simp: daemon_main_def daemon_set_up_def Let_def timer_after_def)
  have mode: "mode_under 18 436 = 420" by (simp add: mode_under_def)
  have "fold_result (daemon_second asc) (map (\<lambda>k. (True, t0 + int k)) [1..<n + 1]) s = Inr (?at n)"
  proof (induction n)
    case 0
    show ?case using s(5) by simp
  next
    case (Suc n)
    let ?f = "(420, ?text n)"
    have "daemon_second asc (True, t0 + int (n + 1)) (?at n) = Inr (?at (n + 1))"
    proof -
      have "d_file (?at n) = Some ?f \<or> d_file (?at n) = None \<and> ?f = (mode_under (d_umask (?at n)) 436, [])"
        using s(4) mode by simp
      from daemon_second_quiet [where asc = asc and t = "t0 + int (n + 1)" and n = n, OF _ _ assms(4) this] s(1) show ?thesis
        by (auto simp: rings_at_def)
    qed
    with Suc.IH show ?case by (simp add: fold_result_snoc)
  qed
  with s show ?thesis by (intro exI [of _ "?at n"]) simp
qed


section \<open>\<open>fork.c\<close> and \<open>wait.c\<close>\<close>

datatype fork_line = ParentLine int int | ChildLine int int

text \<open>What one process of \<open>fork.c\<close> prints, with its own id and its parent's.\<close>

definition fork_main :: "int \<Rightarrow> int \<Rightarrow> int \<Rightarrow> fork_line list" where
  "fork_main pid self parent =
     (if pid > 0 then [ParentLine self parent] else if pid = 0 then [ChildLine self parent] else [])"

text \<open>\<open>wait.c\<close>: five times \<open>fork\<close>, the loop left by a child.\<close>

fun wait_forks :: "int \<Rightarrow> int list \<Rightarrow> int" where
  "wait_forks pid [] = pid"
| "wait_forks pid (p # ps) = (if p = 0 then 0 else wait_forks p ps)"

text \<open>
  The parent passes \<open>wait\<close> a pointer it never set.  A child loops for ever, and a parent whose last \<open>fork\<close>
  failed returns.
\<close>

definition wait_main :: "int list \<Rightarrow> unit run result" where
  "wait_main ps =
     (let pid = wait_forks 0 (take 5 ps)
      in if pid > 0 then Inl OutOfBounds else if pid = 0 then Inr (Going ()) else Inr (MainReturned 0 ()))"

lemma wait_main_faults:
  assumes "length ps = 5" and "\<forall>p \<in> set ps. p \<noteq> 0"
  shows "wait_main ps = (if last ps > 0 then Inl OutOfBounds else Inr (MainReturned 0 ()))"
proof -
  have forks: "wait_forks q qs = last qs" if "qs \<noteq> []" "\<forall>p \<in> set qs. p \<noteq> 0" for q and qs :: "int list"
    using that by (induction q qs rule: wait_forks.induct) auto
  have "ps \<noteq> []" using assms(1) by auto
  with assms(2) have "last ps \<noteq> 0" by simp
  then show ?thesis using assms forks [OF \<open>ps \<noteq> []\<close> assms(2), of 0] by (simp add: wait_main_def Let_def)
qed

end
